(* ===== verification/Udt_Prelude.thy ===== *)
theory Udt_Prelude
  imports Main "HOL-Library.Word" "HOL-Library.Monad_Syntax"
begin

text \<open>
  Shared ground of the development: names for the machine types of the 32-bit Windows
  build (\<open>u_char\<close>, \<open>u_short\<close>, \<open>u_long\<close> and \<open>size_t\<close>), the conversions to the signed
  types \<open>short\<close> and \<open>int\<close>/\<open>long\<close>, bit flags kept in a machine word, byte order, and the
  generic locale of event-driven machines with an invariant.
\<close>

unbundle bit_operations_syntax

type_synonym u8 = "8 word"
type_synonym u16 = "16 word"
type_synonym u32 = "32 word"

named_theorems udt_const \<open>values of the enumerators and static constants of the source\<close>
named_theorems flag_simps \<open>reading and writing single bits of a flag word\<close>
named_theorems frame \<open>fields an operation leaves unchanged\<close>

section \<open>Signed machine integers\<close>

text \<open>
  A \<open>short\<close> or an \<open>int\<close> is kept as the mathematical integer it stands for. A store into a
  narrower type wraps, as the compiler does it: \<open>to_i16\<close> is the conversion to \<open>short\<close>,
  \<open>to_i32\<close> the one to \<open>int\<close> and \<open>long\<close> (both are 32 bits wide on Win32).
\<close>

definition to_i16 :: "int \<Rightarrow> int" where
  "to_i16 k = signed_take_bit 15 k"

definition to_i32 :: "int \<Rightarrow> int" where
  "to_i32 k = signed_take_bit 31 k"

lemma to_i16_id: "- 32768 \<le> k \<Longrightarrow> k < 32768 \<Longrightarrow> to_i16 k = k"
  by (simp add: to_i16_def signed_take_bit_int_eq_self)

lemma to_i32_id: "- 2147483648 \<le> k \<Longrightarrow> k < 2147483648 \<Longrightarrow> to_i32 k = k"
  by (simp add: to_i32_def signed_take_bit_int_eq_self)

lemma to_i16_range: "- 32768 \<le> to_i16 k \<and> to_i16 k < 32768"
  using signed_take_bit_int_greater_eq_minus_exp [of 15 k] signed_take_bit_int_less_exp [of 15 k]
  by (simp add: to_i16_def)

section \<open>Widths\<close>

lemma unat_ucast_16_32 [simp]: "unat (ucast (w :: u16) :: u32) = unat w"
proof -
  have "unat w < 2 ^ LENGTH(16)" by (rule unsigned_less)
  then show ?thesis by (simp add: unsigned_ucast_eq take_bit_nat_eq_self)
qed

lemma unat_ucast_32_16: "unat (w :: u32) < 2 ^ 16 \<Longrightarrow> unat (ucast w :: u16) = unat w"
  by (simp add: unsigned_ucast_eq take_bit_nat_eq_self)

lemma ucast_16_32_mono [simp]: "(ucast (v :: u16) :: u32) \<le> ucast w \<longleftrightarrow> v \<le> w"
  by (simp add: word_le_nat_alt)

lemma unat_u16_less: "unat (w :: u16) < 65536"
  using unsigned_less [of w] by simp

lemma unat_u32_less: "unat (w :: u32) < 4294967296"
  using unsigned_less [of w] by simp

lemma unat_word_of_nat_small: "n < 2 ^ LENGTH('a) \<Longrightarrow> unat (word_of_nat n :: 'a::len word) = n"
  by (simp add: unsigned_of_nat take_bit_nat_eq_self)

section \<open>Flags in a machine word\<close>

text \<open>
  \<open>has_flag w f\<close> is the C test \<open>w & f\<close>; setting is \<open>w |= f\<close>, clearing is \<open>w &= ~f\<close>.
  The flags of the source are single bits, so tests and updates are decided bit by bit.
\<close>

definition has_flag :: "'a::len word \<Rightarrow> 'a word \<Rightarrow> bool" where
  "has_flag w f \<longleftrightarrow> w AND f \<noteq> 0"

lemma has_flag_or_left: "has_flag (v OR w) f \<longleftrightarrow> has_flag v f \<or> has_flag w f"
  by (auto simp: has_flag_def bit_eq_iff bit_simps)

lemma has_flag_or_right: "has_flag w (f OR g) \<longleftrightarrow> has_flag w f \<or> has_flag w g"
  by (auto simp: has_flag_def bit_eq_iff bit_simps)

lemma has_flag_clear: "f AND g = 0 \<Longrightarrow> has_flag (w AND NOT g) f \<longleftrightarrow> has_flag w f"
  by (auto simp: has_flag_def bit_eq_iff bit_simps)

lemma has_flag_clear_same: "\<not> has_flag (w AND NOT f) f"
  by (auto simp: has_flag_def bit_eq_iff bit_simps)

lemma has_flag_self: "f \<noteq> 0 \<Longrightarrow> has_flag f f"
  by (simp add: has_flag_def)

lemma has_flag_zero: "\<not> has_flag 0 f" "\<not> has_flag w 0"
  by (simp_all add: has_flag_def)

lemmas [flag_simps] = has_flag_or_left has_flag_or_right has_flag_clear_same has_flag_zero

section \<open>Byte order\<close>

text \<open>
  The machine is little endian. \<open>bytes16\<close> and \<open>bytes32\<close> are a word's bytes in memory order,
  \<open>of_bytes16\<close> and \<open>of_bytes32\<close> read them back; \<open>bswap16\<close> is what \<open>htons\<close> and \<open>ntohs\<close>
  do on this machine, \<open>bswap32\<close> what \<open>htonl\<close> and \<open>ntohl\<close> do.
\<close>

definition bytes16 :: "u16 \<Rightarrow> u8 list" where
  "bytes16 w = [ucast w, ucast (drop_bit 8 w)]"

definition bytes32 :: "u32 \<Rightarrow> u8 list" where
  "bytes32 w = [ucast w, ucast (drop_bit 8 w), ucast (drop_bit 16 w), ucast (drop_bit 24 w)]"

definition of_bytes16 :: "u8 \<Rightarrow> u8 \<Rightarrow> u16" where
  "of_bytes16 b0 b1 = ucast b0 OR push_bit 8 (ucast b1)"

definition of_bytes32 :: "u8 \<Rightarrow> u8 \<Rightarrow> u8 \<Rightarrow> u8 \<Rightarrow> u32" where
  "of_bytes32 b0 b1 b2 b3 =
     ucast b0 OR push_bit 8 (ucast b1) OR push_bit 16 (ucast b2) OR push_bit 24 (ucast b3)"

definition bswap16 :: "u16 \<Rightarrow> u16" where
  "bswap16 w = of_bytes16 (ucast (drop_bit 8 w)) (ucast w)"

definition bswap32 :: "u32 \<Rightarrow> u32" where
  "bswap32 w = of_bytes32 (ucast (drop_bit 24 w)) (ucast (drop_bit 16 w))
                          (ucast (drop_bit 8 w)) (ucast w)"

lemma byte_cases:
  fixes n :: nat
  assumes "n < 32"
  obtains k where "k < 8" "n = k" | k where "k < 8" "n = 8 + k"
    | k where "k < 8" "n = 16 + k" | k where "k < 8" "n = 24 + k"
proof -
  consider "n < 8" | "8 \<le> n \<and> n < 16" | "16 \<le> n \<and> n < 24" | "24 \<le> n" by linarith
  then show thesis
  proof cases
    case 1
    then show ?thesis using that(1) [of n] by simp
  next
    case 2
    then show ?thesis using that(2) [of "n - 8"] by simp
  next
    case 3
    then show ?thesis using that(3) [of "n - 16"] by simp
  next
    case 4
    then show ?thesis using that(4) [of "n - 24"] assms by simp
  qed
qed

lemma word16_eqI:
  fixes v w :: u16
  assumes "\<And>k. k < 8 \<Longrightarrow> bit v k = bit w k" and "\<And>k. k < 8 \<Longrightarrow> bit v (8 + k) = bit w (8 + k)"
  shows "v = w"
proof (rule bit_word_eqI)
  fix n
  assume n: "n < LENGTH(16)"
  then have "n < 32" by simp
  then show "bit v n = bit w n"
    by (cases n rule: byte_cases) (use assms n in auto)
qed

lemma word32_eqI:
  fixes v w :: u32
  assumes "\<And>k. k < 8 \<Longrightarrow> bit v k = bit w k" and "\<And>k. k < 8 \<Longrightarrow> bit v (8 + k) = bit w (8 + k)"
    and "\<And>k. k < 8 \<Longrightarrow> bit v (16 + k) = bit w (16 + k)" and "\<And>k. k < 8 \<Longrightarrow> bit v (24 + k) = bit w (24 + k)"
  shows "v = w"
proof (rule bit_word_eqI)
  fix n
  assume n: "n < LENGTH(32)"
  then have "n < 32" by simp
  then show "bit v n = bit w n"
    by (cases n rule: byte_cases) (use assms in auto)
qed

lemma of_bytes16_bytes [simp]: "of_bytes16 (ucast w) (ucast (drop_bit 8 w)) = w"
  by (rule word16_eqI) (simp_all add: of_bytes16_def bit_simps)

lemma u8_bit_high [simp]: "8 \<le> n \<Longrightarrow> \<not> bit (b :: u8) n"
  using bit_imp_le_length [of b n] by auto

lemma bytes16_of_bytes [simp]: "bytes16 (of_bytes16 b0 b1) = [b0, b1]"
  by (simp add: bytes16_def) (auto intro!: bit_word_eqI simp: of_bytes16_def bit_simps)

lemma of_bytes32_bytes [simp]:
  "of_bytes32 (ucast w) (ucast (drop_bit 8 w)) (ucast (drop_bit 16 w)) (ucast (drop_bit 24 w)) = w"
  by (rule word32_eqI) (simp_all add: of_bytes32_def bit_simps)

lemma bytes32_of_bytes [simp]: "bytes32 (of_bytes32 b0 b1 b2 b3) = [b0, b1, b2, b3]"
  by (simp add: bytes32_def) (auto intro!: bit_word_eqI simp: of_bytes32_def bit_simps)

lemma bswap16_bswap16 [simp]: "bswap16 (bswap16 w) = w"
  by (rule word16_eqI) (simp_all add: bswap16_def of_bytes16_def bit_simps)

lemma bswap32_bswap32 [simp]: "bswap32 (bswap32 w) = w"
  by (rule word32_eqI) (simp_all add: bswap32_def of_bytes32_def bit_simps)

lemma bytes16_bswap: "bytes16 (bswap16 w) = rev (bytes16 w)"
  by (simp add: bswap16_def) (simp add: bytes16_def)

lemma bytes32_bswap: "bytes32 (bswap32 w) = rev (bytes32 w)"
  by (simp add: bswap32_def) (simp add: bytes32_def)

lemma length_bytes [simp]: "length (bytes16 w) = 2" "length (bytes32 v) = 4"
  by (simp_all add: bytes16_def bytes32_def)

section \<open>Event-driven machines\<close>

text \<open>
  The program is a set of handlers run one at a time by \<open>io_service\<close>. A component is a
  state, a set of start states and a step per event; a step may have no result (the C++
  leaves defined behaviour). \<open>machine\<close> collects the states any sequence of events reaches
  and lifts an invariant of the single steps to all of them.
\<close>

fun run :: "('s \<Rightarrow> 'e \<Rightarrow> 's option) \<Rightarrow> 's \<Rightarrow> 'e list \<Rightarrow> 's option" where
  "run step s [] = Some s"
| "run step s (e # es) = Option.bind (step s e) (\<lambda>t. run step t es)"

lemma run_append: "run step s (es @ fs) = Option.bind (run step s es) (\<lambda>t. run step t fs)"
  by (induction es arbitrary: s) simp_all

locale machine =
  fixes start :: "'s \<Rightarrow> bool"
    and step :: "'s \<Rightarrow> 'e \<Rightarrow> 's option"
    and inv :: "'s \<Rightarrow> bool"
  assumes start_inv: "start s \<Longrightarrow> inv s"
    and step_inv: "inv s \<Longrightarrow> step s e = Some t \<Longrightarrow> inv t"
begin

lemma run_inv_from: "inv s \<Longrightarrow> run step s es = Some t \<Longrightarrow> inv t"
proof (induction es arbitrary: s)
  case Nil
  then show ?case by simp
next
  case (Cons e es)
  then obtain u where "step s e = Some u" and "run step u es = Some t"
    by (auto simp: bind_eq_Some_conv)
  with Cons show ?case by (blast intro: step_inv)
qed

lemma run_inv: "start s \<Longrightarrow> run step s es = Some t \<Longrightarrow> inv t"
  by (blast intro: start_inv run_inv_from)

end

end
