(* ===== verification/Udt_Defs.thy ===== *)
theory Udt_Defs
  imports Udt_Prelude
begin

text \<open>
  \<open>src/udt/udt_defs.h\<close>, \<open>src/udt/udt_defs.cpp\<close> and \<open>src/udt/udt_error.h\<close>: sequence numbers and
  their modular comparison, the packet header with its flags and its conversion between
  host and network order, packets as the memory block that holds header and data, and
  error codes with their category.
\<close>

section \<open>Sequence numbers\<close>

type_synonym udt_seq = u32

definition seq_lt :: "udt_seq \<Rightarrow> udt_seq \<Rightarrow> bool" where
  "seq_lt lop rop \<longleftrightarrow> sint (lop - rop) < 0"

definition seq_le :: "udt_seq \<Rightarrow> udt_seq \<Rightarrow> bool" where
  "seq_le lop rop \<longleftrightarrow> sint (lop - rop) \<le> 0"

definition seq_gt :: "udt_seq \<Rightarrow> udt_seq \<Rightarrow> bool" where
  "seq_gt lop rop \<longleftrightarrow> sint (lop - rop) > 0"

definition seq_ge :: "udt_seq \<Rightarrow> udt_seq \<Rightarrow> bool" where
  "seq_ge lop rop \<longleftrightarrow> sint (lop - rop) \<ge> 0"

lemmas seq_defs = seq_lt_def seq_le_def seq_gt_def seq_ge_def

text \<open>
  The comparison is an order only on numbers that lie in one half of the circle. \<open>off base x\<close>
  is the distance from \<open>base\<close> up to \<open>x\<close>; on numbers less than \<open>2 ^ 31\<close> away from a common
  base, \<open>seq_lt\<close> is the order of the distances.
\<close>

definition off :: "udt_seq \<Rightarrow> udt_seq \<Rightarrow> nat" where
  "off base x = unat (x - base)"

definition in_window :: "udt_seq \<Rightarrow> udt_seq \<Rightarrow> bool" where
  "in_window base x \<longleftrightarrow> off base x < 2 ^ 31"

lemma off_self [simp]: "off b b = 0"
  by (simp add: off_def)

lemma off_inj: "off b x = off b y \<longleftrightarrow> x = y"
  by (metis off_def diff_add_cancel unsigned_word_eqI)

lemma sint_u32_of_int: "sint (word_of_int k :: u32) = signed_take_bit 31 k"
  by (simp add: signed_of_int)

lemma sint_u32_diff_eq_0: "sint (x - y :: u32) = 0 \<longleftrightarrow> x = y"
  by (metis eq_iff_diff_eq_0 signed_0 signed_word_eqI)

lemma sint_off_diff:
  assumes "in_window b x" and "in_window b y"
  shows "sint (x - y) = int (off b x) - int (off b y)"
proof -
  have "x - y = (x - b) - (y - b)" by simp
  also have "\<dots> = word_of_int (int (off b x) - int (off b y))"
    by (simp add: off_def of_int_diff)
  finally have "x - y = word_of_int (int (off b x) - int (off b y))" .
  then have "sint (x - y) = signed_take_bit 31 (int (off b x) - int (off b y))"
    by (simp only: sint_u32_of_int)
  also have "\<dots> = int (off b x) - int (off b y)"
    using assms by (intro signed_take_bit_int_eq_self) (auto simp: in_window_def)
  finally show ?thesis .
qed

lemma seq_lt_off: "in_window b x \<Longrightarrow> in_window b y \<Longrightarrow> seq_lt x y \<longleftrightarrow> off b x < off b y"
  by (simp add: seq_lt_def sint_off_diff)

lemma seq_le_off: "in_window b x \<Longrightarrow> in_window b y \<Longrightarrow> seq_le x y \<longleftrightarrow> off b x \<le> off b y"
  by (simp add: seq_le_def sint_off_diff)

lemma seq_gt_off: "in_window b x \<Longrightarrow> in_window b y \<Longrightarrow> seq_gt x y \<longleftrightarrow> off b x > off b y"
  by (simp add: seq_gt_def sint_off_diff)

lemma seq_ge_off: "in_window b x \<Longrightarrow> in_window b y \<Longrightarrow> seq_ge x y \<longleftrightarrow> off b x \<ge> off b y"
  by (simp add: seq_ge_def sint_off_diff)

lemma seq_ge_not_lt: "seq_ge x y \<longleftrightarrow> \<not> seq_lt x y"
  by (auto simp: seq_defs)

lemma seq_gt_not_le: "seq_gt x y \<longleftrightarrow> \<not> seq_le x y"
  by (auto simp: seq_defs)

lemma seq_le_refl [simp]: "seq_le x x" "seq_ge x x" "\<not> seq_lt x x" "\<not> seq_gt x x"
  by (simp_all add: seq_defs)

lemma seq_le_iff: "seq_le x y \<longleftrightarrow> seq_lt x y \<or> x = y"
  by (auto simp: seq_defs order_le_less sint_u32_diff_eq_0)

lemma off_add:
  assumes "off b x + n < 2 ^ 32"
  shows "off b (x + word_of_nat n) = off b x + n"
proof -
  have "n < 2 ^ 32" using assms by simp
  then have n: "unat (word_of_nat n :: u32) = n" by (simp add: unsigned_of_nat take_bit_nat_eq_self)
  have "unat (x + word_of_nat n - b) = unat ((x - b) + word_of_nat n)" by (simp add: algebra_simps)
  also have "\<dots> = (unat (x - b) + n) mod 2 ^ 32"
    by (simp only: unat_word_ariths n) simp
  finally show ?thesis using assms by (simp add: off_def)
qed

section \<open>The packet header\<close>

text \<open>\<open>udt_hdr\<close>: the fields in declaration order; \<open>sizeof(udt_hdr)\<close> is 20.\<close>

record udt_hdr =
  uh_ver :: u8
  uh_flags :: u8
  uh_win :: u16
  uh_len :: u16
  uh_off :: u16
  uh_seq :: udt_seq
  uh_ack :: udt_seq
  uh_pseq :: udt_seq

definition TH_FIN :: u8 where [udt_const]: "TH_FIN = 0x01"
definition TH_SYN :: u8 where [udt_const]: "TH_SYN = 0x02"
definition TH_RST :: u8 where [udt_const]: "TH_RST = 0x04"
definition TH_ACK :: u8 where [udt_const]: "TH_ACK = 0x10"
definition TH_RETRANS :: u8 where [udt_const]: "TH_RETRANS = 0x40"
definition TH_HP :: u8 where [udt_const]: "TH_HP = 0x80"

definition sizeof_udt_hdr :: nat where [udt_const]: "sizeof_udt_hdr = 20"
definition MAX_HEADER_SIZE :: nat where [udt_const]: "MAX_HEADER_SIZE = 20 + 40"
definition MAX_ALL_HEADERS_SIZE :: nat where [udt_const]: "MAX_ALL_HEADERS_SIZE = 20 + 8 + MAX_HEADER_SIZE"
definition MIN_ALL_HEADERS_SIZE :: nat where [udt_const]: "MIN_ALL_HEADERS_SIZE = 20 + 8 + 20"

definition has_syn :: "u8 \<Rightarrow> bool" where "has_syn flags \<longleftrightarrow> has_flag flags TH_SYN"
definition has_fin :: "u8 \<Rightarrow> bool" where "has_fin flags \<longleftrightarrow> has_flag flags TH_FIN"
definition has_ack :: "u8 \<Rightarrow> bool" where "has_ack flags \<longleftrightarrow> has_flag flags TH_ACK"
definition has_rst :: "u8 \<Rightarrow> bool" where "has_rst flags \<longleftrightarrow> has_flag flags TH_RST"
definition has_rexmt :: "u8 \<Rightarrow> bool" where "has_rexmt flags \<longleftrightarrow> has_flag flags TH_RETRANS"
definition has_hp :: "u8 \<Rightarrow> bool" where "has_hp flags \<longleftrightarrow> has_flag flags TH_HP"

lemma has_rexmt_simps [simp]: "\<not> has_rexmt 0" "has_rexmt (f OR TH_RETRANS)"
  by (simp_all add: has_rexmt_def flag_simps has_flag_self TH_RETRANS_def)

text \<open>Conversion between host and network order, field by field as \<open>udt_defs.cpp\<close> does it.\<close>

definition hton :: "udt_hdr \<Rightarrow> udt_hdr" where
  "hton h = h\<lparr>uh_win := bswap16 (uh_win h), uh_len := bswap16 (uh_len h),
     uh_off := bswap16 (uh_off h), uh_seq := bswap32 (uh_seq h),
     uh_ack := bswap32 (uh_ack h), uh_pseq := bswap32 (uh_pseq h)\<rparr>"

definition ntoh :: "udt_hdr \<Rightarrow> udt_hdr" where
  "ntoh h = h\<lparr>uh_win := bswap16 (uh_win h), uh_len := bswap16 (uh_len h),
     uh_off := bswap16 (uh_off h), uh_seq := bswap32 (uh_seq h),
     uh_ack := bswap32 (uh_ack h), uh_pseq := bswap32 (uh_pseq h)\<rparr>"

lemma ntoh_hton [simp]: "ntoh (hton h) = h"
  by (simp add: ntoh_def hton_def)

lemma hton_ntoh [simp]: "hton (ntoh h) = h"
  by (simp add: ntoh_def hton_def)

lemma ntoh_flags [simp]: "uh_flags (ntoh h) = uh_flags h" "uh_flags (hton h) = uh_flags h"
  by (simp_all add: ntoh_def hton_def)

text \<open>
  The struct as it lies in memory (it has no padding), and the struct at the front of a
  memory block: what the cast from a byte pointer to \<open>udt_hdr*\<close> reads.
\<close>

definition mem_of_hdr :: "udt_hdr \<Rightarrow> u8 list" where
  "mem_of_hdr h = [uh_ver h, uh_flags h] @ bytes16 (uh_win h) @ bytes16 (uh_len h) @
     bytes16 (uh_off h) @ bytes32 (uh_seq h) @ bytes32 (uh_ack h) @ bytes32 (uh_pseq h)"

definition hdr_of_mem :: "u8 list \<Rightarrow> udt_hdr" where
  "hdr_of_mem b = \<lparr>uh_ver = b ! 0, uh_flags = b ! 1, uh_win = of_bytes16 (b ! 2) (b ! 3),
     uh_len = of_bytes16 (b ! 4) (b ! 5), uh_off = of_bytes16 (b ! 6) (b ! 7),
     uh_seq = of_bytes32 (b ! 8) (b ! 9) (b ! 10) (b ! 11),
     uh_ack = of_bytes32 (b ! 12) (b ! 13) (b ! 14) (b ! 15),
     uh_pseq = of_bytes32 (b ! 16) (b ! 17) (b ! 18) (b ! 19)\<rparr>"

lemma length_mem_of_hdr [simp]: "length (mem_of_hdr h) = 20"
  by (simp add: mem_of_hdr_def)

lemma hdr_of_mem_of_hdr [simp]: "hdr_of_mem (mem_of_hdr h @ rest) = h"
  by (simp add: hdr_of_mem_def mem_of_hdr_def bytes16_def bytes32_def)

section \<open>Packets\<close>

text \<open>
  A \<open>udt_packet*\<close> points to one block: the header and behind it \<open>body\<close>, the options and the
  data. \<open>data_ptr\<close> is the address \<open>uh_off\<close> bytes into the block; \<open>data_at\<close> is what lies there.
\<close>

record udt_packet =
  hdr :: udt_hdr
  body :: "u8 list"

definition pkt_mem :: "udt_packet \<Rightarrow> u8 list" where
  "pkt_mem p = mem_of_hdr (hdr p) @ body p"

definition data_at :: "udt_packet \<Rightarrow> u8 list" where
  "data_at p = drop (unat (uh_off (hdr p))) (pkt_mem p)"

definition pkt_of_mem :: "u8 list \<Rightarrow> udt_packet" where
  "pkt_of_mem b = \<lparr>hdr = hdr_of_mem b, body = drop sizeof_udt_hdr b\<rparr>"

abbreviation "pseq p \<equiv> uh_seq (hdr p)"
abbreviation "plen p \<equiv> uh_len (hdr p)"
abbreviation "pend p \<equiv> uh_seq (hdr p) + ucast (uh_len (hdr p))"
abbreviation "pflags p \<equiv> uh_flags (hdr p)"

text \<open>The data of a packet: \<open>uh_len\<close> bytes from \<open>data_ptr\<close> on.\<close>

definition pdata :: "udt_packet \<Rightarrow> u8 list" where
  "pdata p = take (unat (plen p)) (data_at p)"

text \<open>A packet whose length field stays inside its block.\<close>

definition pkt_ok :: "udt_packet \<Rightarrow> bool" where
  "pkt_ok p \<longleftrightarrow> sizeof_udt_hdr \<le> unat (uh_off (hdr p)) \<and>
     unat (uh_off (hdr p)) + unat (plen p) \<le> length (pkt_mem p) \<and>
     length (pkt_mem p) < 2 ^ 16"

lemma length_pdata: "pkt_ok p \<Longrightarrow> length (pdata p) = unat (plen p)"
  by (auto simp: pkt_ok_def pdata_def data_at_def)

lemma data_at_body: "sizeof_udt_hdr \<le> unat (uh_off (hdr p)) \<Longrightarrow>
    data_at p = drop (unat (uh_off (hdr p)) - 20) (body p)"
  by (simp add: data_at_def pkt_mem_def sizeof_udt_hdr_def)

section \<open>Error codes\<close>

text \<open>
  A \<open>boost::system::error_code\<close> is a value and a category, and two codes are equal when
  both agree. \<open>udt_error\<close> has a category of its own; the errors of \<open>boost::asio::error\<close> that
  share its values live in other categories. A code converts to true unless its value is 0.
\<close>

datatype error_category = System_category | Misc_category | Udt_category

datatype error_value = Succeed | Eof | Invalid_argument | Connection_reset | Timed_out
  | Operation_aborted | Closed | Disconnected | Alread_created | Malformed_packet | Not_bind
  | Network_unreachable | Host_unreachable | Not_found | No_buffer_space | Other_error nat

record error_code =
  ec_value :: error_value
  ec_category :: error_category

definition udt_error :: "error_value \<Rightarrow> error_code" where
  "udt_error v = \<lparr>ec_value = v, ec_category = Udt_category\<rparr>"

definition asio_error :: "error_value \<Rightarrow> error_code" where
  "asio_error v = \<lparr>ec_value = v, ec_category = (if v = Eof then Misc_category else System_category)\<rparr>"

definition no_error :: error_code where
  "no_error = \<lparr>ec_value = Succeed, ec_category = System_category\<rparr>"

definition is_error :: "error_code \<Rightarrow> bool" where
  "is_error e \<longleftrightarrow> ec_value e \<noteq> Succeed"

lemma is_error_simps [simp]: "is_error (udt_error v) \<longleftrightarrow> v \<noteq> Succeed" "\<not> is_error no_error"
    "is_error (asio_error v) \<longleftrightarrow> v \<noteq> Succeed"
  by (simp_all add: is_error_def udt_error_def no_error_def asio_error_def)

section \<open>Properties\<close>

text \<open>C40. On sequence numbers that lie within half the circle of a common base,
  the four comparisons of the code are the strict and the reflexive order of the distances
  from the base, whatever the wrap-around between them.\<close>

theorem seq_lt_order:
  assumes "in_window b x" and "in_window b y"
  shows "(seq_lt x y \<longleftrightarrow> off b x < off b y) \<and> (seq_le x y \<longleftrightarrow> off b x \<le> off b y) \<and>
    (seq_gt x y \<longleftrightarrow> off b y < off b x) \<and> (seq_ge x y \<longleftrightarrow> off b y \<le> off b x)"
  using assms by (simp add: seq_lt_off seq_le_off seq_gt_off seq_ge_off)

theorem seq_lt_order_witness:
  "seq_lt 0xFFFFFFF0 16 \<and> seq_le 0xFFFFFFF0 16 \<and> \<not> seq_ge 0xFFFFFFF0 16"
  using seq_lt_order [of "0xFFFFFFF0" "0xFFFFFFF0" 16] by (simp add: in_window_def off_def)

text \<open>C39. A header converted to network order, written to the datagram and read back
  by the receiver's cast and \<open>ntoh\<close> is the header that was sent; its sequence number
  travels big endian.\<close>

theorem hdr_wire:
  "ntoh (hdr_of_mem (mem_of_hdr (hton h) @ rest)) = h \<and> length (mem_of_hdr (hton h)) = sizeof_udt_hdr \<and>
   take 4 (drop 8 (mem_of_hdr (hton h))) = rev (bytes32 (uh_seq h))"
proof -
  have "take 4 (drop 8 (mem_of_hdr (hton h))) = bytes32 (bswap32 (uh_seq h))"
    by (simp add: mem_of_hdr_def hton_def bytes16_def bytes32_def)
  then show ?thesis by (simp add: bytes32_bswap sizeof_udt_hdr_def)
qed

end
