(* ===== verification/Udt_Buf.thy ===== *)
theory Udt_Buf
  imports Udt_Defs
begin

text \<open>
  \<open>src/udt/udt_buf.h\<close> and \<open>src/udt/udt_buf.cpp\<close>: the send and receive buffers, lists of
  packets with a byte count. \<open>append\<close> (both overloads), \<open>copy\<close>, \<open>drop\<close> and \<open>fin\<close> are
  modelled operation by operation; a buffer refines a queue of bytes (locale \<open>byte_queue\<close>).
\<close>

section \<open>Buffers of the caller\<close>

text \<open>
  A \<open>const_buffer\<close> is the caller's memory with its bytes, a \<open>mutable_buffer\<close> a place of some
  size to copy to. The code tests the address against \<open>NULL\<close>, so the model keeps that bit.
\<close>

record const_buffer =
  cbuf_null :: bool
  cbuf_bytes :: "u8 list"

record mutable_buffer =
  mbuf_null :: bool
  mbuf_size :: u32

definition buffer_size :: "const_buffer \<Rightarrow> u32" where
  "buffer_size c = word_of_nat (length (cbuf_bytes c))"

section \<open>The buffer and its operations\<close>

record udt_buf =
  m_cc :: u32
  m_hiwat :: u32
  m_lowat :: u32
  m_pkts :: "udt_packet list"
  m_seq :: udt_seq

record udt_rcv_buf = udt_buf +
  m_reasm_pkts :: "udt_packet list"

definition DEFAULT_BUFFER_SIZE :: u32 where [udt_const]: "DEFAULT_BUFFER_SIZE = 32 * 1024"
definition DEFAULT_LOWAT :: u32 where [udt_const]: "DEFAULT_LOWAT = 1"

text \<open>
  The constructor leaves \<open>m_seq\<close> uninitialised: its value is the parameter \<open>seq0\<close>.
\<close>

definition udt_snd_buf_init :: "udt_seq \<Rightarrow> udt_buf" where
  "udt_snd_buf_init seq0 = \<lparr>m_cc = 0, m_hiwat = DEFAULT_BUFFER_SIZE, m_lowat = DEFAULT_LOWAT,
     m_pkts = [], m_seq = seq0\<rparr>"

definition udt_rcv_buf_init :: "udt_seq \<Rightarrow> udt_rcv_buf" where
  "udt_rcv_buf_init seq0 = \<lparr>m_cc = 0, m_hiwat = DEFAULT_BUFFER_SIZE, m_lowat = DEFAULT_LOWAT,
     m_pkts = [], m_seq = seq0, m_reasm_pkts = []\<rparr>"

definition buf_clear :: "'a udt_buf_scheme \<Rightarrow> 'a udt_buf_scheme" where
  "buf_clear b = b\<lparr>m_pkts := [], m_cc := 0\<rparr>"

definition rcv_buf_clear :: "udt_rcv_buf \<Rightarrow> udt_rcv_buf" where
  "rcv_buf_clear b = (buf_clear b)\<lparr>m_reasm_pkts := []\<rparr>"

text \<open>
  \<open>alloc\<close> fills the data with \<open>0xaf\<close>. It leaves \<open>uh_ver\<close> and \<open>uh_pseq\<close> as the allocator
  returned them; nothing reads these two before they are written, and they are 0 here.
\<close>

definition buf_alloc :: "u32 \<Rightarrow> udt_packet" where
  "buf_alloc data_size = \<lparr>hdr = \<lparr>uh_ver = 0, uh_flags = 0, uh_win = 0, uh_len = ucast data_size,
       uh_off = word_of_nat sizeof_udt_hdr, uh_seq = 0, uh_ack = 0, uh_pseq = 0\<rparr>,
     body = replicate (unat data_size) 0xaf\<rparr>"

definition acc :: "'a udt_buf_scheme \<Rightarrow> u32" where
  "acc b = m_hiwat b - m_cc b"

definition above_lowat :: "'a udt_buf_scheme \<Rightarrow> bool" where
  "above_lowat b \<longleftrightarrow> m_cc b \<ge> m_lowat b"

definition set_init_seq :: "udt_seq \<Rightarrow> 'a udt_buf_scheme \<Rightarrow> 'a udt_buf_scheme" where
  "set_init_seq s b = b\<lparr>m_seq := s\<rparr>"

definition set_hiwat :: "u32 \<Rightarrow> 'a udt_buf_scheme \<Rightarrow> 'a udt_buf_scheme" where
  "set_hiwat hw b = b\<lparr>m_hiwat := hw\<rparr>"

text \<open>
  \<open>copy\<close>. The result is the returned count, the bytes written to the caller's memory, and the
  buffer. \<open>copy_loop\<close> is the do-while loop over the packets from the iterator \<open>b\<close> on; its last
  component is what the list holds afterwards.
\<close>

fun copy_loop :: "udt_packet list \<Rightarrow> udt_seq \<Rightarrow> u32 \<Rightarrow> bool \<Rightarrow> u32 \<times> u8 list \<times> udt_packet list" where
  "copy_loop [] seq buf_len erase_copied = (0, [], [])"
| "copy_loop (pkt # ps) seq buf_len erase_copied =
     (let len = ucast (plen pkt);
          to_copy = min len buf_len;
          out = take (unat to_copy) (data_at pkt);
          partial = buf_len < len;
          pkt' = (if partial
                  then pkt\<lparr>hdr := (hdr pkt)\<lparr>uh_off := uh_off (hdr pkt) + ucast to_copy,
                                          uh_seq := uh_seq (hdr pkt) + to_copy,
                                          uh_len := uh_len (hdr pkt) - ucast to_copy\<rparr>\<rparr>
                  else pkt);
          erase_copied' = (if partial then False else erase_copied);
          kept = (if erase_copied' then [] else [pkt']);
          buf_len' = buf_len - to_copy;
          seq' = seq + to_copy
      in if ps \<noteq> [] \<and> seq' = pseq (hd ps) \<and> buf_len' > 0
         then (case copy_loop ps seq' buf_len' erase_copied' of
                 (n, out', rest) \<Rightarrow> (to_copy + n, out @ out', kept @ rest))
         else (to_copy, out, kept @ ps))"

definition copy :: "mutable_buffer \<Rightarrow> bool \<Rightarrow> 'a udt_buf_scheme \<Rightarrow> u32 \<times> u8 list \<times> 'a udt_buf_scheme" where
  "copy buf erase_copied b =
     (if m_pkts b = [] \<or> mbuf_size buf = 0 \<or> mbuf_null buf then (0, [], b)
      else case copy_loop (m_pkts b) (pseq (hd (m_pkts b))) (mbuf_size buf) erase_copied of
             (total_copied, out, pkts) \<Rightarrow>
               (total_copied, out, b\<lparr>m_pkts := pkts, m_cc := m_cc b - total_copied\<rparr>))"

text \<open>
  \<open>append(data, data_len, seg_size)\<close>: the loop cuts the data into packets of at most
  \<open>seg_size\<close> bytes. It is entered with \<open>seg_size > 0\<close> only.
\<close>

function append_loop :: "u8 list \<Rightarrow> u32 \<Rightarrow> 'a udt_buf_scheme \<Rightarrow> 'a udt_buf_scheme" where
  "append_loop data seg_size b =
     (if data = [] \<or> seg_size = 0 then b
      else let pkt_len = min (length data) (unat seg_size);
               pkt = buf_alloc (word_of_nat pkt_len);
               pkt' = \<lparr>hdr = (hdr pkt)\<lparr>uh_seq := m_seq b\<rparr>, body = take pkt_len data\<rparr>
           in append_loop (drop pkt_len data) seg_size
                (b\<lparr>m_seq := m_seq b + word_of_nat pkt_len, m_pkts := m_pkts b @ [pkt']\<rparr>))"
  by pat_completeness auto
termination
  by (relation "measure (\<lambda>(data, seg_size, b). length data)") (auto simp: unat_gt_0)

declare append_loop.simps [simp del]

definition append_data :: "const_buffer \<Rightarrow> u32 \<Rightarrow> 'a udt_buf_scheme \<Rightarrow> bool \<times> 'a udt_buf_scheme" where
  "append_data c seg_size b =
     (let data_len = buffer_size c in
      if data_len > acc b \<or> data_len = 0 \<or> cbuf_null c \<or> seg_size = 0 then (False, b)
      else (True, append_loop (cbuf_bytes c) seg_size (b\<lparr>m_cc := m_cc b + data_len\<rparr>)))"

definition append_pkt :: "udt_packet \<Rightarrow> 'a udt_buf_scheme \<Rightarrow> bool \<times> 'a udt_buf_scheme" where
  "append_pkt pkt b =
     (if ucast (plen pkt) > acc b then (False, b)
      else (True, b\<lparr>m_cc := m_cc b + ucast (plen pkt), m_pkts := m_pkts b @ [pkt]\<rparr>))"

text \<open>
  An iterator into \<open>m_pkts\<close> is the list cut in two: what lies before it, and the packets from
  it on. \<open>drop_at pre p suf\<close> is \<open>drop(i)\<close> for the iterator at \<open>p\<close> in \<open>pre @ p # suf\<close>; the
  iterator it returns is then at the head of \<open>suf\<close>.
\<close>

definition drop_at :: "udt_packet list \<Rightarrow> udt_packet \<Rightarrow> udt_packet list \<Rightarrow>
    'a udt_buf_scheme \<Rightarrow> 'a udt_buf_scheme" where
  "drop_at pre p suf b = b\<lparr>m_cc := m_cc b - ucast (plen p), m_pkts := pre @ suf\<rparr>"

definition buf_fin :: "'a udt_buf_scheme \<Rightarrow> bool" where
  "buf_fin b = (if m_pkts b \<noteq> [] then has_fin (pflags (last (m_pkts b))) else False)"

section \<open>Counting and contents\<close>

definition sum_len :: "udt_packet list \<Rightarrow> nat" where
  "sum_len ps = sum_list (map (\<lambda>p. unat (plen p)) ps)"

lemma sum_len_simps [simp]: "sum_len [] = 0" "sum_len (p # ps) = unat (plen p) + sum_len ps"
    "sum_len (ps @ qs) = sum_len ps + sum_len qs"
  by (simp_all add: sum_len_def)

text \<open>The packets of a list are consecutive from sequence number \<open>s\<close> on.\<close>

fun contig :: "udt_seq \<Rightarrow> udt_packet list \<Rightarrow> bool" where
  "contig s [] \<longleftrightarrow> True"
| "contig s (p # ps) \<longleftrightarrow> pseq p = s \<and> contig (pend p) ps"

definition payload :: "udt_packet list \<Rightarrow> u8 list" where
  "payload ps = concat (map pdata ps)"

lemma payload_simps [simp]: "payload [] = []" "payload (p # ps) = pdata p @ payload ps"
    "payload (ps @ qs) = payload ps @ payload qs"
  by (simp_all add: payload_def)

lemma length_payload: "\<forall>p \<in> set ps. pkt_ok p \<Longrightarrow> length (payload ps) = sum_len ps"
  by (induction ps) (auto simp: length_pdata)

lemma contig_append:
  "contig s (ps @ qs) \<longleftrightarrow> contig s ps \<and> contig (s + word_of_nat (sum_len ps)) qs"
proof (induction ps arbitrary: s)
  case Nil
  then show ?case by simp
next
  case (Cons p ps)
  have "pend p = pseq p + word_of_nat (unat (plen p))" by simp
  then show ?case using Cons by (auto simp: add.assoc)
qed

text \<open>
  A buffer is well formed when its count is the sum of its packets' lengths and within the
  high-water mark, and every packet stays inside its memory block.
\<close>

definition buf_wf :: "'a udt_buf_scheme \<Rightarrow> bool" where
  "buf_wf b \<longleftrightarrow> unat (m_cc b) = sum_len (m_pkts b) \<and> m_cc b \<le> m_hiwat b \<and>
     (\<forall>p \<in> set (m_pkts b). pkt_ok p)"

lemma buf_wf_clear [simp]: "buf_wf (buf_clear b)"
  by (simp add: buf_wf_def buf_clear_def)

lemma unat_acc: "m_cc b \<le> m_hiwat b \<Longrightarrow> unat (acc b) = unat (m_hiwat b) - unat (m_cc b)"
  by (simp add: acc_def unat_sub)

text \<open>Room for \<open>n\<close> more bytes, checked by the code against \<open>acc\<close>, keeps the count exact.\<close>

lemma cc_plus:
  assumes "m_cc b \<le> m_hiwat b" and "n \<le> acc b"
  shows "unat (m_cc b + n) = unat (m_cc b) + unat n" and "m_cc b + n \<le> m_hiwat b"
proof -
  have "unat n \<le> unat (m_hiwat b) - unat (m_cc b)"
    using assms by (metis unat_acc word_le_nat_alt)
  moreover have "unat (m_cc b) \<le> unat (m_hiwat b)" using assms(1) by (simp add: word_le_nat_alt)
  moreover have "unat (m_hiwat b) < 2 ^ 32" using unsigned_less [of "m_hiwat b"] by simp
  ultimately have "unat (m_cc b) + unat n < 2 ^ 32" and le: "unat (m_cc b) + unat n \<le> unat (m_hiwat b)"
    by linarith+
  then show eq: "unat (m_cc b + n) = unat (m_cc b) + unat n" by (simp add: unat_word_ariths)
  show "m_cc b + n \<le> m_hiwat b" using le by (simp add: word_le_nat_alt eq)
qed

section \<open>append\<close>

lemma append_pkt_cc:
  assumes "append_pkt p b = (True, b')"
  shows "m_pkts b' = m_pkts b @ [p]" and "m_cc b' = m_cc b + ucast (plen p)" and "m_hiwat b' = m_hiwat b"
    and "m_seq b' = m_seq b" and "ucast (plen p) \<le> acc b"
  using assms by (auto simp: append_pkt_def not_less split: if_splits)

lemma append_pkt_refused: "append_pkt p b = (False, b') \<Longrightarrow> b' = b"
  by (auto simp: append_pkt_def split: if_splits)

lemma append_pkt_wf:
  assumes "append_pkt p b = (ok, b')" and "buf_wf b" and "pkt_ok p"
  shows "buf_wf b'"
proof (cases ok)
  case True
  with assms have app: "append_pkt p b = (True, b')" and wf: "m_cc b \<le> m_hiwat b" by (auto simp: buf_wf_def)
  note f = append_pkt_cc [OF app]
  show ?thesis
    using cc_plus [OF wf f(5)] f(1-3) assms(2,3) by (auto simp: buf_wf_def)
next
  case False
  with assms show ?thesis using append_pkt_refused by fastforce
qed

lemma append_loop_fields:
  "m_cc (append_loop d g b) = m_cc b \<and> m_hiwat (append_loop d g b) = m_hiwat b \<and>
   m_lowat (append_loop d g b) = m_lowat b"
proof (induction d g b rule: append_loop.induct)
  case (1 d g b)
  then show ?case by (subst (1 2 3) append_loop.simps) (auto simp: Let_def)
qed

lemma append_loop_more: "udt_buf.more (append_loop d g b) = udt_buf.more b"
proof (induction d g b rule: append_loop.induct)
  case (1 d g b)
  then show ?case by (subst append_loop.simps) (auto simp: Let_def)
qed

text \<open>
  What the cut produces: consecutive packets from \<open>m_seq\<close> on that carry the data in order,
  none longer than the segment size.
\<close>

definition segment_of :: "u32 \<Rightarrow> udt_packet \<Rightarrow> bool" where
  "segment_of g p \<longleftrightarrow> pkt_ok p \<and> 0 < unat (plen p) \<and> unat (plen p) \<le> unat g \<and> pflags p = 0"

lemma append_loop_spec:
  assumes "0 < g" and "unat g \<le> 65515"
  shows "\<exists>ps. m_pkts (append_loop d g b) = m_pkts b @ ps \<and> payload ps = d \<and> sum_len ps = length d \<and>
    contig (m_seq b) ps \<and> m_seq (append_loop d g b) = m_seq b + word_of_nat (length d) \<and>
    (\<forall>p \<in> set ps. segment_of g p)"
  using assms
proof (induction d g b rule: append_loop.induct)
  case (1 d g b)
  show ?case
  proof (cases "d = []")
    case True
    then show ?thesis by (subst (1 2) append_loop.simps) simp
  next
    case False
    define k where "k = min (length d) (unat g)"
    define p where "p = \<lparr>hdr = (hdr (buf_alloc (word_of_nat k)))\<lparr>uh_seq := m_seq b\<rparr>, body = take k d\<rparr>"
    let ?b = "b\<lparr>m_seq := m_seq b + word_of_nat k, m_pkts := m_pkts b @ [p]\<rparr>"
    have g: "g \<noteq> 0" using 1(2) by auto
    then have gp: "0 < unat g" by (simp add: unat_gt_0)
    have k: "0 < k" "k \<le> length d" "k \<le> unat g" "k \<le> 65515" using False gp 1(3) by (auto simp: k_def)
    have step: "append_loop d g b = append_loop (drop k d) g ?b"
      using False g by (subst append_loop.simps) (simp add: Let_def k_def p_def)
    have len: "unat (plen p) = k" using k by (simp add: p_def buf_alloc_def unat_ucast_32_16 unat_word_of_nat_small)
    have off: "unat (uh_off (hdr p)) = 20" by (simp add: p_def buf_alloc_def sizeof_udt_hdr_def)
    have data: "data_at p = take k d" using off by (simp add: data_at_body sizeof_udt_hdr_def p_def)
    have ok: "pkt_ok p" using k len off by (simp add: pkt_ok_def sizeof_udt_hdr_def pkt_mem_def p_def)
    have pd: "pdata p = take k d" using len data by (simp add: pdata_def)
    have seg: "segment_of g p"
      using ok len k by (simp add: segment_of_def p_def buf_alloc_def)
    have sq1: "pseq p = m_seq b" by (simp add: p_def)
    have "(ucast (plen p) :: u32) = word_of_nat k" unfolding len [symmetric] by simp
    then have sq: "pseq p = m_seq b" "pend p = m_seq b + word_of_nat k" by (simp_all add: sq1)
    obtain ps where ps: "m_pkts (append_loop (drop k d) g ?b) = m_pkts ?b @ ps" "payload ps = drop k d"
      "sum_len ps = length (drop k d)" "contig (m_seq ?b) ps"
      "m_seq (append_loop (drop k d) g ?b) = m_seq ?b + word_of_nat (length (drop k d))"
      "\<forall>p \<in> set ps. segment_of g p"
      using 1(1) [of k "buf_alloc (word_of_nat k)" p] 1(2,3) False g by (auto simp: k_def p_def)
    have "word_of_nat k + word_of_nat (length d - k) = (word_of_nat (length d) :: u32)"
      using k by (simp flip: of_nat_add)
    then show ?thesis
      using ps len pd sq seg k unfolding step by (intro exI [of _ "p # ps"]) (auto simp: add.assoc)
  qed
qed

lemma append_data_spec:
  assumes "append_data c g b = (True, b')" and "buf_wf b" and "unat g \<le> 65515"
    and "length (cbuf_bytes c) < 2 ^ 32"
  obtains ps where "m_pkts b' = m_pkts b @ ps" "payload ps = cbuf_bytes c" "contig (m_seq b) ps"
    "m_seq b' = m_seq b + buffer_size c" "\<forall>p \<in> set ps. segment_of g p" "buf_wf b'"
    "unat (m_cc b') = unat (m_cc b) + length (cbuf_bytes c)" "m_hiwat b' = m_hiwat b"
proof -
  let ?b = "b\<lparr>m_cc := m_cc b + buffer_size c\<rparr>"
  have ok: "buffer_size c \<le> acc b" "g \<noteq> 0" and b': "b' = append_loop (cbuf_bytes c) g ?b"
    using assms(1) by (auto simp: append_data_def Let_def not_less split: if_splits)
  have len: "unat (buffer_size c) = length (cbuf_bytes c)"
    using assms(4) by (simp add: buffer_size_def unat_word_of_nat_small)
  have "0 < g" using ok(2) by (simp add: word_gt_0)
  from append_loop_spec [OF this assms(3), of "cbuf_bytes c" ?b] obtain ps where
    ps: "m_pkts b' = m_pkts b @ ps" "payload ps = cbuf_bytes c" "sum_len ps = length (cbuf_bytes c)"
      "contig (m_seq b) ps" "m_seq b' = m_seq b + buffer_size c" "\<forall>p \<in> set ps. segment_of g p"
    by (auto simp: b' buffer_size_def)
  have f: "m_cc b' = m_cc b + buffer_size c" "m_hiwat b' = m_hiwat b"
    by (simp_all add: b' append_loop_fields)
  have hw: "m_cc b \<le> m_hiwat b" using assms(2) by (simp add: buf_wf_def)
  note plus = cc_plus [OF hw ok(1)]
  have "buf_wf b'"
    using plus f ps assms(2) len by (auto simp: buf_wf_def segment_of_def)
  with ps f plus len show thesis by (intro that) auto
qed

lemma append_data_refused: "append_data c g b = (False, b') \<Longrightarrow> b' = b"
  by (auto simp: append_data_def Let_def split: if_splits)

section \<open>copy\<close>

text \<open>One packet cut by a partial copy.\<close>

definition cut_front :: "u32 \<Rightarrow> udt_packet \<Rightarrow> udt_packet" where
  "cut_front n p = p\<lparr>hdr := (hdr p)\<lparr>uh_off := uh_off (hdr p) + ucast n,
     uh_seq := uh_seq (hdr p) + n, uh_len := uh_len (hdr p) - ucast n\<rparr>\<rparr>"

lemma cut_front_spec:
  assumes "pkt_ok p" and "n < ucast (plen p)"
  shows "pkt_ok (cut_front n p)" and "unat (plen (cut_front n p)) = unat (plen p) - unat n"
    and "pdata (cut_front n p) = drop (unat n) (pdata p)" and "pend (cut_front n p) = pend p"
    and "pseq (cut_front n p) = pseq p + n"
proof -
  have n: "unat n < unat (plen p)" using assms(2) by (simp add: word_less_nat_alt)
  then have n16: "unat n < 2 ^ 16" using unat_u16_less [of "plen p"] by simp
  note un = unat_ucast_32_16 [OF n16]
  have le: "ucast n \<le> plen p" using n by (simp add: word_le_nat_alt un)
  show len: "unat (plen (cut_front n p)) = unat (plen p) - unat n"
    using le by (simp add: cut_front_def unat_sub un)
  have "unat (uh_off (hdr p)) + unat n < 2 ^ 16" using assms(1) n by (simp add: pkt_ok_def)
  then have off: "unat (uh_off (hdr (cut_front n p))) = unat (uh_off (hdr p)) + unat n"
    by (simp add: cut_front_def unat_word_ariths un)
  have body: "body (cut_front n p) = body p" by (simp add: cut_front_def)
  have ge: "sizeof_udt_hdr \<le> unat (uh_off (hdr p))" using assms(1) by (simp add: pkt_ok_def)
  show "pkt_ok (cut_front n p)"
    using assms(1) len off n by (auto simp: pkt_ok_def pkt_mem_def body)
  show "pdata (cut_front n p) = drop (unat n) (pdata p)"
    using ge off by (simp add: pdata_def data_at_body len body drop_take add.commute)
      (simp add: sizeof_udt_hdr_def)
  show "pseq (cut_front n p) = pseq p + n" by (simp add: cut_front_def)
  have "ucast (plen p - ucast n :: u16) + n = ucast (plen p)"
    using le n unat_u16_less [of "plen p"] by (simp add: word_unat_eq_iff unat_word_ariths unat_sub un)
  then show "pend (cut_front n p) = pend p" by (simp add: cut_front_def add.assoc add.commute)
qed

lemma copy_loop_step:
  "copy_loop (p # ps) s n True =
    (if n < ucast (plen p) then (n, take (unat n) (data_at p), cut_front n p # ps)
     else if ps \<noteq> [] \<and> s + ucast (plen p) = pseq (hd ps) \<and> n - ucast (plen p) > 0
     then (case copy_loop ps (s + ucast (plen p)) (n - ucast (plen p)) True of
             (k, out, rest) \<Rightarrow> (ucast (plen p) + k, pdata p @ out, rest))
     else (ucast (plen p), pdata p, ps))"
  by (auto simp: Let_def min_def cut_front_def pdata_def not_less not_le split: prod.splits)

declare copy_loop.simps(2) [simp del]

lemma copy_loop_spec:
  assumes "copy_loop ps s n True = (k, out, rest)" and "contig s ps" and "\<forall>p \<in> set ps. pkt_ok p"
    and "0 < n" and "sum_len ps < 2 ^ 32"
  shows "unat k = min (unat n) (sum_len ps) \<and> out = take (unat n) (payload ps) \<and>
    payload rest = drop (unat n) (payload ps) \<and> sum_len rest = sum_len ps - unat k \<and>
    contig (s + k) rest \<and> (\<forall>p \<in> set rest. pkt_ok p)"
  using assms
proof (induction ps arbitrary: s n k out rest)
  case Nil
  then show ?case by simp
next
  case (Cons p ps)
  then have okp: "pkt_ok p" and s: "pseq p = s" and cs: "contig (pend p) ps" by auto
  have lp: "length (pdata p) = unat (plen p)" by (rule length_pdata [OF okp])
  show ?case
  proof (cases "n < ucast (plen p)")
    case True
    then have n: "unat n < unat (plen p)" by (simp add: word_less_nat_alt)
    have eqs: "k = n" "out = take (unat n) (data_at p)" "rest = cut_front n p # ps"
      using Cons.prems(1) True by (auto simp: copy_loop_step)
    note cut = cut_front_spec [OF okp True]
    have out: "out = take (unat n) (pdata p)" using n by (simp add: eqs pdata_def)
    have "contig (pend (cut_front n p)) ps" unfolding cut(4) by (rule cs)
    then have "contig (s + n) rest" using cut(5) s by (simp add: eqs)
    then show ?thesis
      using cut(1-3) out n lp Cons.prems(3) by (auto simp: eqs)
  next
    case False
    then have n: "unat (plen p) \<le> unat n" by (simp add: word_le_nat_alt not_less)
    show ?thesis
    proof (cases "ps \<noteq> [] \<and> n - ucast (plen p) > 0")
      case True
      have hd: "s + ucast (plen p) = pseq (hd ps)" using True cs s by (cases ps) auto
      have m: "unat (n - ucast (plen p)) = unat n - unat (plen p)" using n by (simp add: unat_sub word_le_nat_alt)
      obtain k' out' rest' where r: "copy_loop ps (s + ucast (plen p)) (n - ucast (plen p)) True = (k', out', rest')"
        by (cases "copy_loop ps (s + ucast (plen p)) (n - ucast (plen p)) True")
      have eqs: "k = ucast (plen p) + k'" "out = pdata p @ out'" "rest = rest'"
        using Cons.prems(1) False True hd r by (auto simp: copy_loop_step)
      have IH: "unat k' = min (unat n - unat (plen p)) (sum_len ps)"
        "out' = take (unat n - unat (plen p)) (payload ps)"
        "payload rest' = drop (unat n - unat (plen p)) (payload ps)"
        "sum_len rest' = sum_len ps - unat k'" "contig (s + ucast (plen p) + k') rest'"
        "\<forall>p \<in> set rest'. pkt_ok p"
        using Cons.IH [OF r] cs s True Cons.prems(3,5) by (auto simp: m)
      have "unat (plen p) + unat k' < 2 ^ 32" using IH(1) Cons.prems(5) by simp
      then have "unat k = unat (plen p) + unat k'" by (simp add: eqs unat_word_ariths)
      then show ?thesis using IH lp n by (auto simp: eqs add.assoc min_def)
    next
      case stop: False
      have eqs: "k = ucast (plen p)" "out = pdata p" "rest = ps"
        using Cons.prems(1) False stop by (auto simp: copy_loop_step)
      have "n = ucast (plen p)" if "ps \<noteq> []"
      proof -
        from that stop have "n - ucast (plen p) = 0" by (simp add: word_gt_0)
        then show ?thesis by simp
      qed
      then show ?thesis using lp n s cs Cons.prems(3) by (cases "ps = []") (auto simp: eqs)
    qed
  qed
qed

text \<open>
  \<open>copy\<close> on a consecutive list: it hands out the front of the buffered bytes, as many as the
  caller asked for and the buffer holds, and keeps the rest, consecutive again.
\<close>

lemma copy_spec:
  assumes "copy buf True b = (k, out, b')" and "buf_wf b" and "contig s (m_pkts b)"
    and "\<not> mbuf_null buf"
  shows "unat k = min (unat (mbuf_size buf)) (unat (m_cc b))"
    and "out = take (unat (mbuf_size buf)) (payload (m_pkts b))"
    and "payload (m_pkts b') = drop (unat (mbuf_size buf)) (payload (m_pkts b))"
    and "contig (s + k) (m_pkts b')" and "buf_wf b'" and "m_hiwat b' = m_hiwat b"
proof -
  have wf: "unat (m_cc b) = sum_len (m_pkts b)" "m_cc b \<le> m_hiwat b" "\<forall>p \<in> set (m_pkts b). pkt_ok p"
    using assms(2) by (auto simp: buf_wf_def)
  have "(unat k = min (unat (mbuf_size buf)) (unat (m_cc b)) \<and>
     out = take (unat (mbuf_size buf)) (payload (m_pkts b)) \<and>
     payload (m_pkts b') = drop (unat (mbuf_size buf)) (payload (m_pkts b))) \<and>
     contig (s + k) (m_pkts b') \<and> buf_wf b' \<and> m_hiwat b' = m_hiwat b"
  proof (cases "m_pkts b = [] \<or> mbuf_size buf = 0")
    case True
    then show ?thesis using assms wf by (auto simp: copy_def)
  next
    case False
    then obtain ps where l: "copy_loop (m_pkts b) (pseq (hd (m_pkts b))) (mbuf_size buf) True = (k, out, ps)"
      and b': "b' = b\<lparr>m_pkts := ps, m_cc := m_cc b - k\<rparr>"
      using assms(1,4) by (auto simp: copy_def split: prod.splits)
    have hd: "pseq (hd (m_pkts b)) = s" using False assms(3) by (cases "m_pkts b") auto
    have pos: "0 < mbuf_size buf" using False by (simp add: word_gt_0)
    have small: "sum_len (m_pkts b) < 2 ^ 32" using unat_u32_less [of "m_cc b"] wf(1) by simp
    note sp = copy_loop_spec [OF l [unfolded hd] assms(3) wf(3) pos small]
    have le: "k \<le> m_cc b" using sp wf(1) by (simp add: word_le_nat_alt)
    then have cc: "unat (m_cc b - k) = unat (m_cc b) - unat k" by (simp add: unat_sub)
    have "m_cc b - k \<le> m_hiwat b" using wf(2) by (simp add: word_le_nat_alt cc)
    then show ?thesis using sp wf cc by (auto simp: b' buf_wf_def)
  qed
  then show "unat k = min (unat (mbuf_size buf)) (unat (m_cc b))"
    "out = take (unat (mbuf_size buf)) (payload (m_pkts b))"
    "payload (m_pkts b') = drop (unat (mbuf_size buf)) (payload (m_pkts b))"
    "contig (s + k) (m_pkts b')" "buf_wf b'" "m_hiwat b' = m_hiwat b" by auto
qed

lemma copy_null: "mbuf_null buf \<Longrightarrow> copy buf e b = (0, [], b)"
  by (simp add: copy_def)

lemma copy_more: "copy buf e b = (k, out, b') \<Longrightarrow> udt_buf.more b' = udt_buf.more b"
  by (auto simp: copy_def split: if_splits prod.splits)

lemma copy_fields: "copy buf e b = (k, out, b') \<Longrightarrow>
    m_seq b' = m_seq b \<and> m_hiwat b' = m_hiwat b \<and> m_lowat b' = m_lowat b"
  by (auto simp: copy_def split: if_splits prod.splits)

section \<open>drop\<close>

lemma drop_at_wf:
  assumes "buf_wf b" and "m_pkts b = pre @ p # suf"
  shows "buf_wf (drop_at pre p suf b)"
proof -
  have "unat (plen p) \<le> unat (m_cc b)" using assms by (auto simp: buf_wf_def)
  then have le: "ucast (plen p) \<le> m_cc b" by (simp add: word_le_nat_alt)
  then have "unat (m_cc b - ucast (plen p)) = unat (m_cc b) - unat (plen p)" by (simp add: unat_sub)
  then show ?thesis using assms by (auto simp: buf_wf_def drop_at_def word_le_nat_alt)
qed

lemma drop_at_fields [simp]: "m_pkts (drop_at pre p suf b) = pre @ suf"
    "m_hiwat (drop_at pre p suf b) = m_hiwat b" "m_seq (drop_at pre p suf b) = m_seq b"
    "m_lowat (drop_at pre p suf b) = m_lowat b" "udt_buf.more (drop_at pre p suf b) = udt_buf.more b"
  by (simp_all add: drop_at_def)

section \<open>A buffer is a queue of bytes\<close>

text \<open>
  The contract the control block and the socket rely on. \<open>content\<close> is the abstract queue;
  \<open>put\<close> appends an item's bytes or refuses it, \<open>get\<close> removes bytes from the front.
\<close>

datatype ('i, 'n) queue_op = Put 'i | Get 'n

locale byte_queue =
  fixes content :: "'q \<Rightarrow> 'b list"
    and qinv :: "'q \<Rightarrow> bool"
    and put :: "'i \<Rightarrow> 'q \<Rightarrow> 'q option"
    and fits :: "'i \<Rightarrow> 'q \<Rightarrow> bool"
    and item :: "'i \<Rightarrow> 'b list"
    and get :: "'n \<Rightarrow> 'q \<Rightarrow> 'b list \<times> 'q"
  assumes put_content: "qinv q \<Longrightarrow> fits i q \<Longrightarrow> put i q = Some q' \<Longrightarrow> content q' = content q @ item i"
    and put_inv: "qinv q \<Longrightarrow> fits i q \<Longrightarrow> put i q = Some q' \<Longrightarrow> qinv q'"
    and get_content: "qinv q \<Longrightarrow> get n q = (d, q') \<Longrightarrow> content q = d @ content q'"
    and get_inv: "qinv q \<Longrightarrow> get n q = (d, q') \<Longrightarrow> qinv q'"
begin

text \<open>A run of operations, with the bytes put in, the bytes taken out, and the queue left.\<close>

fun transfer :: "'q \<Rightarrow> ('i, 'n) queue_op list \<Rightarrow> ('b list \<times> 'b list \<times> 'q) option" where
  "transfer q [] = Some ([], [], q)"
| "transfer q (Put i # ops) =
     (if fits i q
      then (case put i q of
              None \<Rightarrow> transfer q ops
            | Some q' \<Rightarrow> map_option (\<lambda>(a, d, r). (item i @ a, d, r)) (transfer q' ops))
      else None)"
| "transfer q (Get n # ops) =
     (case get n q of (d, q') \<Rightarrow> map_option (\<lambda>(a, e, r). (a, d @ e, r)) (transfer q' ops))"

lemma transfer_inv: "qinv q \<Longrightarrow> transfer q ops = Some (a, d, r) \<Longrightarrow> qinv r"
  by (induction q ops arbitrary: a d r rule: transfer.induct)
    (auto split: if_splits option.splits prod.splits dest: put_inv get_inv)

lemma transfer_fifo: "qinv q \<Longrightarrow> transfer q ops = Some (a, d, r) \<Longrightarrow> content q @ a = d @ content r"
proof (induction q ops arbitrary: a d r rule: transfer.induct)
  case (1 q)
  then show ?case by simp
next
  case (2 q i ops)
  show ?case
  proof (cases "put i q")
    case None
    with 2 show ?thesis by (auto split: if_splits)
  next
    case (Some q')
    with 2(4) obtain a' where fits: "fits i q" and "a = item i @ a'" "transfer q' ops = Some (a', d, r)"
      by (auto split: if_splits)
    with 2(2) [OF fits Some] put_inv [OF 2(3) fits Some] put_content [OF 2(3) fits Some]
    show ?thesis by fastforce
  qed
next
  case (3 q n ops)
  obtain e q' where g: "get n q = (e, q')" by (cases "get n q")
  with 3(3) obtain d' where "d = e @ d'" "transfer q' ops = Some (a, d', r)" by auto
  with 3(1) [OF g [symmetric]] get_inv [OF 3(2) g] get_content [OF 3(2) g]
  show ?case by simp
qed

end

text \<open>
  The receive buffer: packets are put in sequence order, \<open>copy\<close> takes bytes. The queue is
  paired with the sequence number its first packet has or the next one will have.
\<close>

definition rcvq_inv :: "udt_seq \<times> 'a udt_buf_scheme \<Rightarrow> bool" where
  "rcvq_inv = (\<lambda>(s, b). buf_wf b \<and> contig s (m_pkts b))"

definition rcvq_put :: "udt_packet \<Rightarrow> udt_seq \<times> 'a udt_buf_scheme \<Rightarrow> (udt_seq \<times> 'a udt_buf_scheme) option" where
  "rcvq_put p = (\<lambda>(s, b). case append_pkt p b of (True, b') \<Rightarrow> Some (s, b') | _ \<Rightarrow> None)"

definition rcvq_fits :: "udt_packet \<Rightarrow> udt_seq \<times> 'a udt_buf_scheme \<Rightarrow> bool" where
  "rcvq_fits p = (\<lambda>(s, b). pkt_ok p \<and> pseq p = s + word_of_nat (sum_len (m_pkts b)))"

definition rcvq_get :: "u32 \<Rightarrow> udt_seq \<times> 'a udt_buf_scheme \<Rightarrow> u8 list \<times> (udt_seq \<times> 'a udt_buf_scheme)" where
  "rcvq_get n = (\<lambda>(s, b). case copy \<lparr>mbuf_null = False, mbuf_size = n\<rparr> True b of
     (k, out, b') \<Rightarrow> (out, (s + k, b')))"

interpretation rcvq: byte_queue "\<lambda>(s, b). payload (m_pkts b)" rcvq_inv rcvq_put rcvq_fits pdata rcvq_get
proof
  fix q q' :: "udt_seq \<times> 'a udt_buf_scheme" and p
  assume A: "rcvq_inv q" "rcvq_fits p q" "rcvq_put p q = Some q'"
  obtain s b where q: "q = (s, b)" by (cases q)
  with A(3) obtain b' where b': "append_pkt p b = (True, b')" "q' = (s, b')"
    by (auto simp: rcvq_put_def split: prod.splits bool.splits)
  note f = append_pkt_cc [OF b'(1)]
  show "(case q' of (s, b) \<Rightarrow> payload (m_pkts b)) = (case q of (s, b) \<Rightarrow> payload (m_pkts b)) @ pdata p"
    using f(1) b'(2) q by simp
  have "buf_wf b'" by (rule append_pkt_wf [OF b'(1)]) (use A q in \<open>auto simp: rcvq_inv_def rcvq_fits_def\<close>)
  then show "rcvq_inv q'"
    using A(1,2) f(1) b'(2) q by (auto simp: rcvq_inv_def rcvq_fits_def contig_append)
next
  fix q q' :: "udt_seq \<times> 'a udt_buf_scheme" and n d
  assume A: "rcvq_inv q" "rcvq_get n q = (d, q')"
  obtain s b where q: "q = (s, b)" by (cases q)
  with A(2) obtain k b' where c: "copy \<lparr>mbuf_null = False, mbuf_size = n\<rparr> True b = (k, d, b')" "q' = (s + k, b')"
    by (auto simp: rcvq_get_def split: prod.splits)
  have wf: "buf_wf b" "contig s (m_pkts b)" using A(1) q by (auto simp: rcvq_inv_def)
  note sp = copy_spec [OF c(1) wf]
  show "(case q of (s, b) \<Rightarrow> payload (m_pkts b)) = d @ (case q' of (s, b) \<Rightarrow> payload (m_pkts b))"
    using sp(2,3) q c(2) by simp
  show "rcvq_inv q'" using sp(4,5) c(2) by (simp add: rcvq_inv_def)
qed

section \<open>Properties\<close>

text \<open>A send buffer that accepts the caller's data appends packets that
  carry exactly these bytes in order, numbered consecutively from \<open>m_seq\<close> on, none empty
  and none longer than the segment size, and moves \<open>m_seq\<close> and the byte count past them.\<close>

theorem append_cuts_stream:
  assumes "append_data c g b = (True, b')" and "buf_wf b" and "unat g \<le> 65515"
    and "length (cbuf_bytes c) < 2 ^ 32"
  shows "\<exists>ps. m_pkts b' = m_pkts b @ ps \<and> payload ps = cbuf_bytes c \<and> contig (m_seq b) ps \<and>
    (\<forall>p \<in> set ps. segment_of g p) \<and> m_seq b' = m_seq b + buffer_size c \<and>
    unat (m_cc b') = unat (m_cc b) + length (cbuf_bytes c) \<and> buf_wf b'"
  using append_data_spec [OF assms] by metis

theorem append_cuts_stream_witness:
  "\<exists>b' ps. append_data \<lparr>cbuf_null = False, cbuf_bytes = [1, 2, 3, 4, 5]\<rparr> 2 (udt_snd_buf_init 7) = (True, b') \<and>
     m_pkts b' = m_pkts (udt_snd_buf_init 7) @ ps \<and> payload ps = [1, 2, 3, 4, 5] \<and> m_seq b' = 12"
proof -
  let ?c = "\<lparr>cbuf_null = False, cbuf_bytes = [1, 2, 3, 4, 5 :: u8]\<rparr>"
  obtain ok b' where b': "append_data ?c 2 (udt_snd_buf_init 7) = (ok, b')"
    by (cases "append_data ?c 2 (udt_snd_buf_init 7)")
  have "fst (append_data ?c 2 (udt_snd_buf_init 7))"
    by (simp add: append_data_def buffer_size_def udt_snd_buf_init_def acc_def udt_const)
  then have t: "append_data ?c 2 (udt_snd_buf_init 7) = (True, b')" using b' by simp
  have "buf_wf (udt_snd_buf_init 7)" by (simp add: buf_wf_def udt_snd_buf_init_def)
  from append_cuts_stream [OF t this] show ?thesis
    using t by (auto simp: buffer_size_def udt_snd_buf_init_def)
qed

text \<open>Copying out of a receive buffer of consecutive packets hands the
  caller the first buffered bytes, as many as he asked for and the buffer holds, keeps the
  others in order and numbered consecutively, and lowers the count by what was copied.\<close>

theorem copy_delivers_prefix:
  assumes "copy buf True b = (k, out, b')" and "buf_wf b" and "contig s (m_pkts b)" and "\<not> mbuf_null buf"
  shows "unat k = min (unat (mbuf_size buf)) (unat (m_cc b)) \<and>
    out = take (unat (mbuf_size buf)) (payload (m_pkts b)) \<and>
    payload (m_pkts b') = drop (unat (mbuf_size buf)) (payload (m_pkts b)) \<and>
    contig (s + k) (m_pkts b') \<and> buf_wf b'"
  using copy_spec [OF assms] by simp

theorem copy_delivers_prefix_witness:
  "\<exists>k b'. copy \<lparr>mbuf_null = False, mbuf_size = 3\<rparr> True
       \<lparr>m_cc = 4, m_hiwat = 10, m_lowat = 1, m_pkts = [\<lparr>hdr = \<lparr>uh_ver = 0, uh_flags = 0, uh_win = 0,
          uh_len = 4, uh_off = 20, uh_seq = 5, uh_ack = 0, uh_pseq = 0\<rparr>, body = [9, 8, 7, 6]\<rparr>], m_seq = 0\<rparr>
     = (k, [9, 8, 7], b') \<and> payload (m_pkts b') = [6] \<and> contig 8 (m_pkts b')"
proof -
  let ?p = "\<lparr>hdr = \<lparr>uh_ver = 0, uh_flags = 0, uh_win = 0, uh_len = 4, uh_off = 20, uh_seq = 5,
    uh_ack = 0, uh_pseq = 0\<rparr>, body = [9, 8, 7, 6 :: u8]\<rparr>"
  let ?b = "\<lparr>m_cc = 4, m_hiwat = 10, m_lowat = 1, m_pkts = [?p], m_seq = 0\<rparr>"
  obtain k out b' where c: "copy \<lparr>mbuf_null = False, mbuf_size = 3\<rparr> True ?b = (k, out, b')"
    by (cases "copy \<lparr>mbuf_null = False, mbuf_size = 3\<rparr> True ?b")
  have "buf_wf ?b" by (simp add: buf_wf_def pkt_ok_def pkt_mem_def sizeof_udt_hdr_def)
  moreover have "pdata ?p = [9, 8, 7, 6]" by (simp add: pdata_def data_at_body sizeof_udt_hdr_def)
  moreover have "contig 5 (m_pkts ?b)" by simp
  ultimately have r: "unat k = 3 \<and> out = [9, 8, 7] \<and> payload (m_pkts b') = [6] \<and> contig (5 + k) (m_pkts b')"
    using copy_delivers_prefix [OF c, of 5] by simp
  then have "k = 3" by (simp add: word_unat_eq_iff)
  with r c show ?thesis by auto
qed

text \<open>C35. Through any sequence of accepted packets and reads, the bytes handed
  out followed by the bytes still buffered are the bytes buffered before followed by the
  accepted ones: the receive buffer neither loses, nor repeats, nor reorders a byte.\<close>

theorem rcv_buffer_fifo:
  assumes "buf_wf (b :: udt_rcv_buf)" and "contig s (m_pkts b)"
    and "rcvq.transfer (s, b) ops = Some (accepted, delivered, s', b')"
  shows "payload (m_pkts b) @ accepted = delivered @ payload (m_pkts b') \<and> contig s' (m_pkts b') \<and>
    unat (m_cc b') = length (payload (m_pkts b'))"
proof -
  have inv: "rcvq_inv (s, b)" using assms(1,2) by (simp add: rcvq_inv_def)
  from rcvq.transfer_fifo [OF inv assms(3)] rcvq.transfer_inv [OF inv assms(3)] show ?thesis
    by (auto simp: rcvq_inv_def buf_wf_def length_payload)
qed

theorem rcv_buffer_fifo_witness:
  "payload (m_pkts (udt_rcv_buf_init 0)) @ [] = [] @ payload (m_pkts (udt_rcv_buf_init 0)) \<and>
   contig 3 (m_pkts (udt_rcv_buf_init 0))"
  using rcv_buffer_fifo [of "udt_rcv_buf_init 0" 3 "[Get 5]" "[]" "[]" 3 "udt_rcv_buf_init 0"]
  by (simp add: udt_rcv_buf_init_def buf_wf_def rcvq_get_def copy_def)

end
