(* ===== verification/Udt_Option.thy ===== *)
theory Udt_Option
  imports Udt_Buf
begin

text \<open>
  \<open>src/udt/udt_option.h\<close> and \<open>src/udt/udt_option.cpp\<close>: the SACK option, composed from the
  reassembly queue read backwards, and the window option, with their bytes on the wire; and
  the option parser's view of these bytes. Options are packed structs: two bytes of kind
  and length, then the sequence pairs or the window.
\<close>

section \<open>Options and their bytes\<close>

definition TCPOPT_EOL :: u8 where [udt_const]: "TCPOPT_EOL = 0"
definition TCPOPT_NOP :: u8 where [udt_const]: "TCPOPT_NOP = 1"
definition TCPOPT_SACK :: u8 where [udt_const]: "TCPOPT_SACK = 5"
definition TCPOPT_CWND :: u8 where [udt_const]: "TCPOPT_CWND = 6"

definition sizeof_udt_option :: nat where [udt_const]: "sizeof_udt_option = 2"
definition sizeof_pair_seq :: nat where [udt_const]: "sizeof_pair_seq = 8"
definition sizeof_udt_option_cwnd :: nat where [udt_const]: "sizeof_udt_option_cwnd = 6"
definition MAX_PAIR_SEQS :: nat where [udt_const]: "MAX_PAIR_SEQS = 3"

type_synonym pair_seq = "udt_seq \<times> udt_seq"

record udt_option_sack =
  sack_kind :: u8
  sack_len :: u8
  pair_seqs :: "pair_seq list"

record udt_option_cwnd =
  cwnd_kind :: u8
  cwnd_len :: u8
  cwnd_val :: u32

text \<open>
  \<open>size()\<close> computes \<open>(len - sizeof(base_type)) / 8\<close> in \<open>size_t\<close>: a length below 2 wraps to a
  huge count.
\<close>

definition sack_size :: "u8 \<Rightarrow> nat" where
  "sack_size len = unat ((ucast len - word_of_nat sizeof_udt_option :: u32) div word_of_nat sizeof_pair_seq)"

definition swap_pair :: "pair_seq \<Rightarrow> pair_seq" where
  "swap_pair pr = (bswap32 (fst pr), bswap32 (snd pr))"

definition sack_ntoh :: "udt_option_sack \<Rightarrow> udt_option_sack" where
  "sack_ntoh o' = o'\<lparr>pair_seqs :=
     map swap_pair (take (sack_size (sack_len o')) (pair_seqs o')) @ drop (sack_size (sack_len o')) (pair_seqs o')\<rparr>"

definition sack_hton :: "udt_option_sack \<Rightarrow> udt_option_sack" where
  "sack_hton o' = o'\<lparr>pair_seqs :=
     map swap_pair (take (sack_size (sack_len o')) (pair_seqs o')) @ drop (sack_size (sack_len o')) (pair_seqs o')\<rparr>"

definition pair_bytes :: "pair_seq \<Rightarrow> u8 list" where
  "pair_bytes pr = bytes32 (fst pr) @ bytes32 (snd pr)"

definition sack_mem :: "udt_option_sack \<Rightarrow> u8 list" where
  "sack_mem o' = [sack_kind o', sack_len o'] @ concat (map pair_bytes (pair_seqs o'))"

definition cwnd_mem :: "udt_option_cwnd \<Rightarrow> u8 list" where
  "cwnd_mem o' = [cwnd_kind o', cwnd_len o'] @ bytes32 (cwnd_val o')"

text \<open>
  The casts of the parser. A pointer to option bytes is the list of the bytes from it to the
  end of the option area; reading a struct that does not lie in the area has no result.
\<close>

fun read_pairs :: "nat \<Rightarrow> u8 list \<Rightarrow> pair_seq list option" where
  "read_pairs 0 b = Some []"
| "read_pairs (Suc n) (b0 # b1 # b2 # b3 # b4 # b5 # b6 # b7 # b) =
     map_option (\<lambda>ps. (of_bytes32 b0 b1 b2 b3, of_bytes32 b4 b5 b6 b7) # ps) (read_pairs n b)"
| "read_pairs (Suc n) b = None"

definition sack_of_mem :: "u8 list \<Rightarrow> udt_option_sack option" where
  "sack_of_mem b = (case b of
     k # l # rest \<Rightarrow> map_option (\<lambda>ps. \<lparr>sack_kind = k, sack_len = l, pair_seqs = ps\<rparr>)
                       (if sizeof_udt_option + sack_size l * sizeof_pair_seq \<le> length b
                        then read_pairs (sack_size l) rest else None)
   | _ \<Rightarrow> None)"

fun cwnd_of_mem :: "u8 list \<Rightarrow> udt_option_cwnd option" where
  "cwnd_of_mem (k # l # b0 # b1 # b2 # b3 # rest) =
     Some \<lparr>cwnd_kind = k, cwnd_len = l, cwnd_val = of_bytes32 b0 b1 b2 b3\<rparr>"
| "cwnd_of_mem b = None"

section \<open>Composing a SACK option\<close>

text \<open>
  The loop of \<open>compose\<close> over the reverse iterator \<open>b\<close>: \<open>prev_seq\<close> and \<open>prev_end_seq\<close> bound the
  run of packets seen last, and a gap before it closes the run.
\<close>

fun compose_loop :: "udt_packet list \<Rightarrow> nat \<Rightarrow> udt_seq \<Rightarrow> udt_seq \<Rightarrow> pair_seq list \<Rightarrow>
    nat \<times> udt_seq \<times> udt_seq \<times> pair_seq list" where
  "compose_loop [] remain_len prev_seq prev_end_seq pairs = (remain_len, prev_seq, prev_end_seq, pairs)"
| "compose_loop (p # ps) remain_len prev_seq prev_end_seq pairs =
     (if remain_len \<ge> sizeof_pair_seq \<and> length pairs < MAX_PAIR_SEQS
      then if prev_seq \<noteq> pend p
           then compose_loop ps (remain_len - sizeof_pair_seq) (pseq p) (pend p) (pairs @ [(prev_seq, prev_end_seq)])
           else compose_loop ps remain_len (pseq p) prev_end_seq pairs
      else (remain_len, prev_seq, prev_end_seq, pairs))"

text \<open>The list is the queue in reverse order; no option is written when the result is \<open>None\<close>.\<close>

definition sack_compose :: "udt_packet list \<Rightarrow> nat \<Rightarrow> nat \<times> udt_option_sack option" where
  "sack_compose rev_pkts remain_len =
     (case rev_pkts of
        [] \<Rightarrow> (remain_len, None)
      | p # ps \<Rightarrow>
        if remain_len < sizeof_udt_option + sizeof_pair_seq then (remain_len, None)
        else case compose_loop ps (remain_len - sizeof_udt_option) (pseq p) (pend p) [] of
          (r, prev_seq, prev_end_seq, pairs) \<Rightarrow>
            let last_pair = r \<ge> sizeof_pair_seq \<and> length pairs < MAX_PAIR_SEQS;
                pairs' = (if last_pair then pairs @ [(prev_seq, prev_end_seq)] else pairs);
                r' = (if last_pair then r - sizeof_pair_seq else r)
            in (r', Some \<lparr>sack_kind = TCPOPT_SACK,
                          sack_len = word_of_nat (sizeof_udt_option + sizeof_pair_seq * length pairs'),
                          pair_seqs = pairs'\<rparr>))"

section \<open>What the composed option says\<close>

text \<open>A block reported by the option is a run: consecutive packets of the queue, none missing.\<close>

definition run_of :: "pair_seq \<Rightarrow> udt_packet list \<Rightarrow> bool" where
  "run_of pr ys \<longleftrightarrow> ys \<noteq> [] \<and> contig (fst pr) ys \<and> snd pr = fst pr + word_of_nat (sum_len ys)"

definition held :: "udt_packet list \<Rightarrow> pair_seq \<Rightarrow> bool" where
  "held pkts pr \<longleftrightarrow> (\<exists>xs ys zs. pkts = xs @ ys @ zs \<and> run_of pr ys)"

lemma run_of_single: "run_of (pseq p, pend p) [p]"
  by (simp add: run_of_def)

lemma run_of_Cons: "run_of (pend p, e) ys \<Longrightarrow> run_of (pseq p, e) (p # ys)"
  by (simp add: run_of_def add.assoc)

lemma heldI: "pkts = xs @ ys @ zs \<Longrightarrow> run_of pr ys \<Longrightarrow> held pkts pr"
  by (auto simp: held_def)

lemma compose_loop_held:
  assumes "compose_loop ps r a e pairs = (r', a', e', pairs')"
    and "pkts = rev ps @ ys @ zs" and "run_of (a, e) ys" and "\<forall>pr \<in> set pairs. held pkts pr"
  shows "held pkts (a', e') \<and> (\<forall>pr \<in> set pairs'. held pkts pr)"
  using assms
proof (induction ps arbitrary: r a e pairs ys zs)
  case Nil
  then show ?case by (auto intro: heldI [of _ "[]"])
next
  case (Cons p ps)
  have now: "held pkts (a, e)" by (rule heldI [OF _ Cons.prems(3), of _ "rev (p # ps)"]) (use Cons.prems(2) in simp)
  show ?case
  proof (cases "r \<ge> sizeof_pair_seq \<and> length pairs < MAX_PAIR_SEQS")
    case False
    with Cons.prems now show ?thesis by auto
  next
    case go: True
    show ?thesis
    proof (cases "a \<noteq> pend p")
      case True
      with go Cons.prems now show ?thesis
        by (intro Cons.IH [of "r - sizeof_pair_seq" "pseq p" "pend p" "pairs @ [(a, e)]" "[p]" "ys @ zs"])
          (auto simp: run_of_single)
    next
      case False
      then show ?thesis
        using go Cons.prems run_of_Cons [of p e ys]
        by (intro Cons.IH [of r "pseq p" e pairs "p # ys" zs]) auto
    qed
  qed
qed

lemma compose_loop_size:
  assumes "compose_loop ps r a e pairs = (r', a', e', pairs')" and "length pairs \<le> MAX_PAIR_SEQS"
  shows "length pairs' \<le> MAX_PAIR_SEQS \<and> length pairs \<le> length pairs' \<and>
    r' + sizeof_pair_seq * length pairs' = r + sizeof_pair_seq * length pairs"
  using assms
proof (induction ps arbitrary: r a e pairs)
  case Nil
  then show ?case by simp
next
  case (Cons p ps)
  from Cons.prems show ?case
    by (auto split: if_splits dest!: Cons.IH)
qed

lemma compose_loop_first:
  "compose_loop ps r a e pairs = (r', a', e', pairs') \<Longrightarrow>
    snd (hd (pairs' @ [(a', e')])) = snd (hd (pairs @ [(a, e)]))"
proof (induction ps arbitrary: r a e pairs)
  case Nil
  then show ?case by simp
next
  case (Cons p ps)
  from Cons.prems show ?case
    by (auto split: if_splits dest!: Cons.IH simp: hd_append)
qed

text \<open>
  The composed option, for a queue in ascending order: every block is held in full, there
  are one to three, they fit the room, and the first block ends where the queue's last
  packet ends.
\<close>

lemma sack_compose_spec:
  assumes "sack_compose (rev pkts) r = (r', Some o')"
  shows "\<forall>pr \<in> set (pair_seqs o'). held pkts pr"
    and "pair_seqs o' \<noteq> []" and "length (pair_seqs o') \<le> MAX_PAIR_SEQS"
    and "r' + sizeof_udt_option + sizeof_pair_seq * length (pair_seqs o') = r"
    and "snd (hd (pair_seqs o')) = pend (last pkts)"
    and "sack_kind o' = TCPOPT_SACK" and "sack_size (sack_len o') = length (pair_seqs o')"
proof -
  from assms obtain p ps where rp: "rev pkts = p # ps" by (cases "rev pkts") (auto simp: sack_compose_def)
  then have pk: "pkts = rev ps @ [p] @ []" by (simp add: rev_eq_Cons_iff)
  have room: "sizeof_udt_option + sizeof_pair_seq \<le> r"
    using assms by (auto simp: sack_compose_def rp split: if_splits)
  obtain q a e prs where l: "compose_loop ps (r - sizeof_udt_option) (pseq p) (pend p) [] = (q, a, e, prs)"
    by (cases "compose_loop ps (r - sizeof_udt_option) (pseq p) (pend p) []")
  define more where "more \<longleftrightarrow> q \<ge> sizeof_pair_seq \<and> length prs < MAX_PAIR_SEQS"
  have o': "pair_seqs o' = (if more then prs @ [(a, e)] else prs)" "r' = (if more then q - sizeof_pair_seq else q)"
    "sack_kind o' = TCPOPT_SACK" "sack_len o' = word_of_nat (sizeof_udt_option + sizeof_pair_seq * length (pair_seqs o'))"
    using assms room l unfolding more_def by (auto simp: sack_compose_def rp Let_def split: if_splits)
  have h: "held pkts (a, e)" "\<forall>pr \<in> set prs. held pkts pr"
    using compose_loop_held [OF l pk run_of_single] by auto
  have sz: "length prs \<le> MAX_PAIR_SEQS" "q + sizeof_pair_seq * length prs = r - sizeof_udt_option"
    using compose_loop_size [OF l] by auto
  have first: "snd (hd (prs @ [(a, e)])) = pend p" using compose_loop_first [OF l] by simp
  show "\<forall>pr \<in> set (pair_seqs o'). held pkts pr" using h o'(1) by auto
  have nonempty: "more \<or> prs \<noteq> []"
    using sz(2) room by (auto simp: more_def udt_const)
  then show "pair_seqs o' \<noteq> []" using o'(1) by auto
  show le: "length (pair_seqs o') \<le> MAX_PAIR_SEQS" using o'(1) sz(1) by (auto simp: more_def)
  show "r' + sizeof_udt_option + sizeof_pair_seq * length (pair_seqs o') = r"
    using o'(1,2) sz(2) room by (auto simp: more_def)
  have "hd (pair_seqs o') = hd (prs @ [(a, e)])" using o'(1) nonempty by (cases prs) auto
  then show "snd (hd (pair_seqs o')) = pend (last pkts)" using first pk by simp
  show "sack_kind o' = TCPOPT_SACK" by (rule o'(3))
  have "length (pair_seqs o') = 0 \<or> length (pair_seqs o') = 1 \<or> length (pair_seqs o') = 2 \<or>
      length (pair_seqs o') = 3"
    using le unfolding udt_const by linarith
  then show "sack_size (sack_len o') = length (pair_seqs o')"
    unfolding o'(4) by (auto simp: sack_size_def udt_const)
qed

section \<open>The bytes of the options\<close>

lemma read_pairs_bytes: "read_pairs (length ps) (concat (map pair_bytes ps) @ rest) = Some ps"
  by (induction ps) (auto simp: pair_bytes_def bytes32_def)

lemma length_pair_bytes [simp]: "length (concat (map pair_bytes ps)) = sizeof_pair_seq * length ps"
  by (induction ps) (auto simp: pair_bytes_def udt_const)

lemma length_sack_mem: "length (sack_mem o') = sizeof_udt_option + sizeof_pair_seq * length (pair_seqs o')"
  by (simp add: sack_mem_def sizeof_udt_option_def)

lemma sack_of_mem_of_sack:
  "sack_size (sack_len o') = length (pair_seqs o') \<Longrightarrow> sack_of_mem (sack_mem o' @ rest) = Some o'"
  by (simp add: sack_of_mem_def sack_mem_def read_pairs_bytes udt_const)

lemma cwnd_of_mem_of_cwnd [simp]: "cwnd_of_mem (cwnd_mem o' @ rest) = Some o'"
  by (simp add: cwnd_mem_def bytes32_def)

lemma swap_pair_swap_pair [simp]: "swap_pair (swap_pair pr) = pr"
  by (simp add: swap_pair_def)

lemma sack_hton_fields [simp]: "sack_kind (sack_hton o') = sack_kind o'" "sack_len (sack_hton o') = sack_len o'"
    "length (pair_seqs (sack_hton o')) = length (pair_seqs o')"
  by (simp_all add: sack_hton_def)

lemma sack_ntoh_hton [simp]:
  "sack_size (sack_len o') \<le> length (pair_seqs o') \<Longrightarrow> sack_ntoh (sack_hton o') = o'"
  by (simp add: sack_ntoh_def sack_hton_def o_def)

text \<open>What the sender reads back is what the receiver composed.\<close>

lemma sack_wire:
  assumes "sack_compose (rev pkts) r = (r', Some o')"
  shows "map_option sack_ntoh (sack_of_mem (sack_mem (sack_hton o') @ rest)) = Some o'"
  using sack_compose_spec(7) [OF assms] by (simp add: sack_of_mem_of_sack)

section \<open>Properties\<close>

text \<open>C36. The SACK option composed from the reassembly queue reports between
  one and three blocks, each of them a run of consecutive packets the receiver holds in full
  (so the sender may discard it); the first block ends with the last packet held, and the
  option uses exactly the room it takes off.\<close>

theorem sack_reports_held_data:
  assumes "sack_compose (rev pkts) r = (r', Some o')"
  shows "(\<forall>pr \<in> set (pair_seqs o'). held pkts pr) \<and> pair_seqs o' \<noteq> [] \<and>
    length (pair_seqs o') \<le> MAX_PAIR_SEQS \<and> snd (hd (pair_seqs o')) = pend (last pkts) \<and>
    r = r' + length (sack_mem o')"
  using sack_compose_spec(1-5) [OF assms] by (simp add: length_sack_mem)

definition example_pkt :: "udt_seq \<Rightarrow> u16 \<Rightarrow> udt_packet" where
  "example_pkt sq n = \<lparr>hdr = \<lparr>uh_ver = 0, uh_flags = 0, uh_win = 0, uh_len = n, uh_off = 20,
     uh_seq = sq, uh_ack = 0, uh_pseq = 0\<rparr>, body = replicate (unat n) 0\<rparr>"

theorem sack_reports_held_data_witness:
  "\<exists>r' o'. sack_compose (rev [example_pkt 10 2, example_pkt 12 3, example_pkt 20 1]) 34 = (r', Some o') \<and>
     pair_seqs o' = [(20, 21), (10, 15)] \<and> held [example_pkt 10 2, example_pkt 12 3, example_pkt 20 1] (10, 15)"
proof -
  let ?q = "[example_pkt 10 2, example_pkt 12 3, example_pkt 20 1]"
  have c: "sack_compose (rev ?q) 34 =
      (16, Some \<lparr>sack_kind = TCPOPT_SACK, sack_len = 18, pair_seqs = [(20, 21), (10, 15)]\<rparr>)"
    by (simp add: sack_compose_def example_pkt_def udt_const)
  from sack_reports_held_data [OF this] show ?thesis using c by auto
qed

text \<open>C38. The bytes of a composed SACK option, followed by anything, are read back by the
  peer's parser as the same blocks in the same order.\<close>

theorem sack_option_wire:
  assumes "sack_compose (rev pkts) r = (r', Some o')"
  shows "map_option sack_ntoh (sack_of_mem (sack_mem (sack_hton o') @ rest)) = Some o'"
  by (rule sack_wire [OF assms])

theorem sack_option_wire_witness:
  "\<exists>o'. pair_seqs o' = [(10, 12)] \<and>
     map_option sack_ntoh (sack_of_mem (sack_mem (sack_hton o') @ [1, 1])) = Some o'"
proof -
  let ?o = "\<lparr>sack_kind = TCPOPT_SACK, sack_len = 10, pair_seqs = [(10, 12)]\<rparr>"
  have "sack_compose (rev [example_pkt 10 2]) 34 = (24, Some ?o)"
    by (simp add: sack_compose_def example_pkt_def udt_const)
  from sack_option_wire [OF this, of "[1, 1]"] show ?thesis by (intro exI [of _ ?o]) simp
qed

end
