(* ===== verification/Udt_State.thy ===== *)
theory Udt_State
  imports Udt_Option
begin

text \<open>
  The state of one connection: the control block \<open>udt_cb\<close> (\<open>src/udt/udt_cb.h\<close>,
  \<open>src/udt/udt_cb.cpp\<close>) and the socket \<open>udt_socket\<close> (\<open>src/udt/udt_socket.h\<close>) that owns it.
  The two objects point at each other (\<open>cb_\<close>, \<open>m_sk\<close>) and each changes the other, so they
  are one record: \<open>udt_socket\<close> extends \<open>udt_cb\<close> by the socket's fields. \<open>create\<close> sets both
  pointers of the socket and \<open>close\<close> clears both, so \<open>next_layer\<close> tells whether they are set.
  What the code does to the outside (datagrams, completion handlers posted to the
  \<open>io_service\<close>, timers, the MTU prober) is appended to \<open>effects\<close> in the order it is done.
\<close>

section \<open>Connection states and timers\<close>

datatype tcp_state = TCPS_CLOSED | TCPS_LISTEN | TCPS_SYN_SENT | TCPS_SYN_RECEIVED
  | TCPS_ESTABLISHED | TCPS_CLOSE_WAIT | TCPS_FIN_WAIT_1 | TCPS_CLOSING | TCPS_LAST_ACK
  | TCPS_FIN_WAIT_2 | TCPS_TIME_WAIT

text \<open>The enumerators' numbers; the code compares states by them.\<close>

fun state_code :: "tcp_state \<Rightarrow> nat" where
  "state_code TCPS_CLOSED = 0"
| "state_code TCPS_LISTEN = 1"
| "state_code TCPS_SYN_SENT = 2"
| "state_code TCPS_SYN_RECEIVED = 3"
| "state_code TCPS_ESTABLISHED = 4"
| "state_code TCPS_CLOSE_WAIT = 5"
| "state_code TCPS_FIN_WAIT_1 = 6"
| "state_code TCPS_CLOSING = 7"
| "state_code TCPS_LAST_ACK = 8"
| "state_code TCPS_FIN_WAIT_2 = 9"
| "state_code TCPS_TIME_WAIT = 10"

lemma state_code_inj: "state_code a = state_code b \<Longrightarrow> a = b"
  by (cases a; cases b) auto

instantiation tcp_state :: linorder
begin

definition less_eq_tcp_state :: "tcp_state \<Rightarrow> tcp_state \<Rightarrow> bool" where
  "less_eq_tcp_state a b \<longleftrightarrow> state_code a \<le> state_code b"

definition less_tcp_state :: "tcp_state \<Rightarrow> tcp_state \<Rightarrow> bool" where
  "less_tcp_state a b \<longleftrightarrow> state_code a < state_code b"

instance
  by standard (auto simp: less_eq_tcp_state_def less_tcp_state_def dest: state_code_inj)

end

lemmas state_less = less_eq_tcp_state_def less_tcp_state_def

datatype tcp_timer = TCPT_REXMT | TCPT_PERSIST | TCPT_KEEP | TCPT_2MSL

definition all_timers :: "tcp_timer list" where
  "all_timers = [TCPT_REXMT, TCPT_PERSIST, TCPT_KEEP, TCPT_2MSL]"

section \<open>Parameters and flags\<close>

definition PR_SLOWHZ :: int where [udt_const]: "PR_SLOWHZ = 2"
definition TCPTV_MSL :: int where [udt_const]: "TCPTV_MSL = 30 * PR_SLOWHZ"
definition TCPTV_SRTTBASE :: int where [udt_const]: "TCPTV_SRTTBASE = 0"
definition TCPTV_SRTTDFLT :: int where [udt_const]: "TCPTV_SRTTDFLT = 3 * PR_SLOWHZ"
definition TCPTV_PERSMIN :: int where [udt_const]: "TCPTV_PERSMIN = 5 * PR_SLOWHZ"
definition TCPTV_PERSMAX :: int where [udt_const]: "TCPTV_PERSMAX = 60 * PR_SLOWHZ"
definition TCPTV_KEEP_INIT :: int where [udt_const]: "TCPTV_KEEP_INIT = 75 * PR_SLOWHZ"
definition TCPTV_KEEP_IDLE :: int where [udt_const]: "TCPTV_KEEP_IDLE = 120 * 60 * PR_SLOWHZ"
definition TCPTV_KEEPINTVL :: int where [udt_const]: "TCPTV_KEEPINTVL = 75 * PR_SLOWHZ"
definition TCPTV_KEEPCNT :: int where [udt_const]: "TCPTV_KEEPCNT = 8"
definition TCPTV_MIN :: int where [udt_const]: "TCPTV_MIN = 1 * PR_SLOWHZ"
definition TCPTV_REXMTMAX :: int where [udt_const]: "TCPTV_REXMTMAX = 16 * PR_SLOWHZ"
definition TCP_MAXRXTSHIFT :: int where [udt_const]: "TCP_MAXRXTSHIFT = 12"
definition TCP_RTT_SHIFT :: nat where [udt_const]: "TCP_RTT_SHIFT = 3"
definition TCP_RTTVAR_SHIFT :: nat where [udt_const]: "TCP_RTTVAR_SHIFT = 2"
definition TCP_MAXWIN :: int where [udt_const]: "TCP_MAXWIN = 65535"
definition TCP_MAXCWIN :: u32 where [udt_const]: "TCP_MAXCWIN = 65535"

definition TF_ACKNOW :: u16 where [udt_const]: "TF_ACKNOW = 0x0001"
definition TF_DELACK :: u16 where [udt_const]: "TF_DELACK = 0x0002"
definition TF_SENTFIN :: u16 where [udt_const]: "TF_SENTFIN = 0x0010"
definition TF_NOTIFY_READ :: u16 where [udt_const]: "TF_NOTIFY_READ = 0x0020"
definition TF_NOTIFY_WRITE :: u16 where [udt_const]: "TF_NOTIFY_WRITE = 0x0040"
definition TF_PACKET_CONSUMED :: u16 where [udt_const]: "TF_PACKET_CONSUMED = 0x0080"
definition TF_NOTIFY_DROP :: u16 where [udt_const]: "TF_NOTIFY_DROP = 0x0100"
definition TF_NEED_OUTPUT :: u16 where [udt_const]: "TF_NEED_OUTPUT = 0x0200"
definition TF_NEED_RESET :: u16 where [udt_const]: "TF_NEED_RESET = 0x0400"

definition s_mss :: u16 where [udt_const]: "s_mss = word_of_nat (1006 - MAX_ALL_HEADERS_SIZE)"
definition s_iss :: udt_seq where [udt_const]: "s_iss = 0"
definition s_keepidle :: int where [udt_const]: "s_keepidle = TCPTV_KEEP_IDLE"
definition s_keepintvl :: int where [udt_const]: "s_keepintvl = TCPTV_KEEPINTVL"
definition s_maxidle :: int where [udt_const]: "s_maxidle = TCPTV_KEEPCNT * s_keepintvl"
definition s_tcprexmtthresh :: int where [udt_const]: "s_tcprexmtthresh = 3"
definition s_tcp_rttdflt :: int where [udt_const]: "s_tcp_rttdflt = TCPTV_SRTTDFLT div PR_SLOWHZ"

definition s_tcp_backoff :: "int list" where
  "s_tcp_backoff = [1, 2, 4, 8, 16, 32, 64, 64, 64, 64, 64, 64, 64]"

text \<open>Header flags a segment carries in each state.\<close>

fun s_tcp_outflags :: "tcp_state \<Rightarrow> u8" where
  "s_tcp_outflags TCPS_CLOSED = TH_RST OR TH_ACK"
| "s_tcp_outflags TCPS_LISTEN = 0"
| "s_tcp_outflags TCPS_SYN_SENT = TH_SYN"
| "s_tcp_outflags TCPS_SYN_RECEIVED = TH_SYN OR TH_ACK"
| "s_tcp_outflags TCPS_ESTABLISHED = TH_ACK"
| "s_tcp_outflags TCPS_CLOSE_WAIT = TH_ACK"
| "s_tcp_outflags TCPS_FIN_WAIT_1 = TH_FIN OR TH_ACK"
| "s_tcp_outflags TCPS_CLOSING = TH_FIN OR TH_ACK"
| "s_tcp_outflags TCPS_LAST_ACK = TH_FIN OR TH_ACK"
| "s_tcp_outflags TCPS_FIN_WAIT_2 = TH_ACK"
| "s_tcp_outflags TCPS_TIME_WAIT = TH_ACK"

section \<open>Effects\<close>

record udp_endpoint =
  ep_addr :: u32
  ep_port :: u16

text \<open>A completion handler is known by a number; posting it to the \<open>io_service\<close> is an effect.\<close>

type_synonym handler = nat

datatype effect =
    Send_to udp_endpoint "u8 list"
  | Post_io handler error_code u32 "u8 list"
  | Post_connect handler error_code
  | Post_accept handler error_code udp_endpoint
  | Post_shutdown handler error_code
  | Probe_mtu udp_endpoint
  | Cancel_mtu
  | Delete_mtu
  | Async_receive
  | Cancel_layer
  | Start_delay_timer
  | Cancel_delay_timer
  | Start_timer int
  | Stop_timer int

section \<open>The records\<close>

record udt_cb =
  m_state :: tcp_state
  m_force :: bool
  m_maxseg :: u16
  m_flags :: u16
  m_snd_una :: udt_seq
  m_snd_nxt :: udt_seq
  m_snd_fack :: udt_seq
  m_retrans_data :: u32
  m_iss :: udt_seq
  m_pseq :: udt_seq
  m_rcv_wnd :: u32
  m_rcv_nxt :: udt_seq
  m_irs :: udt_seq
  m_rcv_adv :: udt_seq
  m_snd_max :: udt_seq
  m_rxtshift :: int
  m_rxtcur :: int
  m_rtt :: int
  m_rtseq :: udt_seq
  m_srtt :: int
  m_rttvar :: int
  m_rttmin :: u16
  m_idle :: int
  m_tick :: u32
  m_timers :: "tcp_timer \<Rightarrow> int"
  m_fast_timer :: bool
  m_slow_timer :: bool
  m_snd_wl1 :: udt_seq
  m_snd_wl2 :: udt_seq
  m_snd_wnd :: u32
  m_dupacks :: int
  m_snd_cwnd :: u32
  m_pcwnd :: u32
  m_max_sndwnd :: u32
  m_tstamp_first :: u32
  m_tstamp_second :: u32
  m_tstamp_third :: u32
  m_last_error :: error_code

record send_operation =
  send_buf :: const_buffer
  send_handler :: handler

record recv_operation =
  recv_buf :: mutable_buffer
  recv_handler :: handler

record udt_socket = udt_cb +
  next_layer :: bool
  remote_ep :: udp_endpoint
  peer_ep :: udp_endpoint
  send_ops :: "send_operation list"
  snd_buf :: udt_buf
  recv_ops :: "recv_operation list"
  rcv_buf :: udt_rcv_buf
  connect_handler :: "handler option"
  accept_handler :: "handler option"
  shutdown_handler :: "handler option"
  mtu_prober :: bool
  pending_data :: u32
  rcv_pkt :: bool
  so_options :: u32
  effects :: "effect list"

definition emit :: "effect \<Rightarrow> udt_socket \<Rightarrow> udt_socket" where
  "emit e s = s\<lparr>effects := effects s @ [e]\<rparr>"

definition set_timer :: "tcp_timer \<Rightarrow> int \<Rightarrow> udt_socket \<Rightarrow> udt_socket" where
  "set_timer t v s = s\<lparr>m_timers := (m_timers s)(t := v)\<rparr>"

definition set_flags :: "u16 \<Rightarrow> udt_socket \<Rightarrow> udt_socket" where
  "set_flags f s = s\<lparr>m_flags := m_flags s OR f\<rparr>"

definition clear_flags :: "u16 \<Rightarrow> udt_socket \<Rightarrow> udt_socket" where
  "clear_flags f s = s\<lparr>m_flags := m_flags s AND NOT f\<rparr>"

definition flag :: "udt_socket \<Rightarrow> u16 \<Rightarrow> bool" where
  "flag s f \<longleftrightarrow> has_flag (m_flags s) f"

definition get_lasterror :: "udt_socket \<Rightarrow> error_code" where
  "get_lasterror s = m_last_error s"

definition total_buffer_size :: "udt_socket \<Rightarrow> u32" where
  "total_buffer_size s = pending_data s + m_cc (snd_buf s)"

section \<open>Inline functions of the control block\<close>

definition TCPT_RANGESET :: "int \<Rightarrow> int \<Rightarrow> int \<Rightarrow> int" where
  "TCPT_RANGESET value tvmin tvmax =
     (let value = to_i16 value; tvmin = to_i16 tvmin; tvmax = to_i16 tvmax
      in if value < tvmin then tvmin else if value > tvmax then tvmax else value)"

definition TCP_REXMTVAL :: "udt_socket \<Rightarrow> int" where
  "TCP_REXMTVAL s = to_i16 (drop_bit TCP_RTT_SHIFT (m_srtt s) + m_rttvar s)"

definition TCPS_HAVERCVDFIN :: "udt_socket \<Rightarrow> bool" where
  "TCPS_HAVERCVDFIN s \<longleftrightarrow> m_state s = TCPS_CLOSE_WAIT \<or> m_state s = TCPS_TIME_WAIT \<or> m_state s = TCPS_CLOSING"

definition TCPS_HAVESNDFIN :: "udt_socket \<Rightarrow> bool" where
  "TCPS_HAVESNDFIN s \<longleftrightarrow> flag s TF_SENTFIN"

definition tcp_sendseqinit :: "udt_socket \<Rightarrow> udt_socket" where
  "tcp_sendseqinit s = s\<lparr>m_snd_max := m_iss s, m_snd_nxt := m_iss s, m_snd_una := m_iss s, m_snd_fack := m_iss s\<rparr>"

definition tcp_rcvseqinit :: "udt_socket \<Rightarrow> udt_socket" where
  "tcp_rcvseqinit s = s\<lparr>m_rcv_nxt := m_irs s, m_rcv_adv := m_irs s\<rparr>"

definition is_cwnd_full_open :: "udt_socket \<Rightarrow> bool" where
  "is_cwnd_full_open s \<longleftrightarrow> m_snd_cwnd s \<ge> m_snd_wnd s"

definition remain_snd_wnd :: "udt_socket \<Rightarrow> int" where
  "remain_snd_wnd s =
     (let remain = sint (m_snd_wnd s - (m_snd_nxt s - m_snd_una s)) in if remain < 0 then 0 else remain)"

definition is_old_ack :: "udt_seq \<Rightarrow> udt_socket \<Rightarrow> bool" where
  "is_old_ack ack s \<longleftrightarrow> seq_lt ack (m_snd_una s)"

definition is_max_ack :: "udt_seq \<Rightarrow> udt_socket \<Rightarrow> bool" where
  "is_max_ack ack s \<longleftrightarrow> m_snd_max s = ack"

definition min_cwnd :: "udt_socket \<Rightarrow> u32" where
  "min_cwnd s = push_bit 3 (ucast (m_maxseg s))"

definition bytes_inflight :: "udt_socket \<Rightarrow> u32" where
  "bytes_inflight s =
     (let t = sint (m_snd_nxt s - m_snd_fack s + m_retrans_data s) in if t < 0 then 0 else word_of_int t)"

definition is_pkt_lost_rate_incr :: "udt_socket \<Rightarrow> bool" where
  "is_pkt_lost_rate_incr s =
     (let delta0 = m_tstamp_second s - m_tstamp_first s;
          delta1 = m_tstamp_third s - m_tstamp_second s
      in delta1 + drop_bit 2 delta1 < delta0)"

definition slow_start :: "udt_socket \<Rightarrow> udt_socket" where
  "slow_start s =
     (if is_pkt_lost_rate_incr s then s\<lparr>m_snd_cwnd := min_cwnd s + bytes_inflight s\<rparr> else s)"

text \<open>\<open>incr_snd_cwnd\<close> divides by the window: no result when it is zero.\<close>

definition incr_snd_cwnd :: "udt_socket \<Rightarrow> udt_socket option" where
  "incr_snd_cwnd s =
     (let incr = ucast (m_maxseg s) :: u32 in
      if is_pkt_lost_rate_incr s
      then if m_snd_cwnd s = 0 then None
           else (let incr = incr * incr div m_snd_cwnd s;
                     incr = (if incr = 0 then 1 else incr)
                 in Some (s\<lparr>m_snd_cwnd := min (m_snd_cwnd s + incr) TCP_MAXCWIN\<rparr>))
      else Some (s\<lparr>m_snd_cwnd := min (m_snd_cwnd s + incr) TCP_MAXCWIN\<rparr>))"

definition decr_snd_cwnd :: "udt_socket \<Rightarrow> udt_socket" where
  "decr_snd_cwnd s =
     (let s = s\<lparr>m_snd_cwnd := m_snd_cwnd s - drop_bit 2 (m_snd_cwnd s)\<rparr>
      in if m_snd_cwnd s < min_cwnd s then s\<lparr>m_snd_cwnd := min_cwnd s\<rparr> else s)"

definition update_snd_fack :: "udt_seq \<Rightarrow> udt_socket \<Rightarrow> udt_socket" where
  "update_snd_fack ack s = (if seq_lt (m_snd_fack s) ack then s\<lparr>m_snd_fack := ack\<rparr> else s)"

definition update_snd_una :: "udt_seq \<Rightarrow> udt_socket \<Rightarrow> udt_socket" where
  "update_snd_una ack s =
     (let s = s\<lparr>m_snd_una := ack\<rparr>;
          s = (if seq_lt (m_snd_nxt s) ack then s\<lparr>m_snd_nxt := ack\<rparr> else s)
      in update_snd_fack ack s)"

definition update_snd_wnd :: "u32 \<Rightarrow> udt_socket \<Rightarrow> udt_socket" where
  "update_snd_wnd win s =
     (let s = s\<lparr>m_snd_wnd := win\<rparr>
      in if win > m_max_sndwnd s then s\<lparr>m_max_sndwnd := win\<rparr> else s)"

definition reset_rexmt_timer :: "udt_socket \<Rightarrow> udt_socket" where
  "reset_rexmt_timer s =
     (if m_snd_una s = m_snd_max s then set_flags TF_NEED_OUTPUT (set_timer TCPT_REXMT 0 s)
      else if m_timers s TCPT_PERSIST = 0 then set_timer TCPT_REXMT (m_rxtcur s) s
      else s)"

text \<open>\<open>backoff s\<close> is \<open>s_tcp_backoff[m_rxtshift]\<close>; the array has 13 entries.\<close>

definition backoff :: "udt_socket \<Rightarrow> int" where
  "backoff s = s_tcp_backoff ! nat (m_rxtshift s)"

definition rexmt_timer_value :: "udt_socket \<Rightarrow> int" where
  "rexmt_timer_value s =
     (let rexmt = TCP_REXMTVAL s;
          rexmt = to_i16 (rexmt * backoff s)
      in TCPT_RANGESET rexmt (uint (m_rttmin s)) TCPTV_REXMTMAX)"

definition set_mtu :: "u32 \<Rightarrow> udt_socket \<Rightarrow> udt_socket" where
  "set_mtu mtu s =
     (if word_of_nat MAX_ALL_HEADERS_SIZE \<le> mtu
      then s\<lparr>m_maxseg := ucast (mtu - word_of_nat MAX_ALL_HEADERS_SIZE)\<rparr> else s)"

definition leave_persist :: "udt_socket \<Rightarrow> udt_socket" where
  "leave_persist s =
     (if m_timers s TCPT_PERSIST \<noteq> 0 then set_timer TCPT_PERSIST 0 (s\<lparr>m_rxtshift := 0\<rparr>) else s)"

definition canceltimers :: "udt_socket \<Rightarrow> udt_socket" where
  "canceltimers s =
     set_timer TCPT_2MSL 0 (set_timer TCPT_KEEP 0 (set_timer TCPT_PERSIST 0 (set_timer TCPT_REXMT 0 s)))"

section \<open>Round-trip time and persist timer\<close>

definition xmit_timer :: "int \<Rightarrow> udt_socket \<Rightarrow> udt_socket" where
  "xmit_timer rtt s =
     (let s = (if m_srtt s \<noteq> 0
               then let delta = to_i16 (rtt - 1 - drop_bit TCP_RTT_SHIFT (m_srtt s));
                        srtt = to_i16 (m_srtt s + delta);
                        srtt = (if srtt \<le> 0 then 1 else srtt);
                        delta = (if delta < 0 then to_i16 (- delta) else delta);
                        delta = to_i16 (delta - drop_bit TCP_RTTVAR_SHIFT (m_rttvar s));
                        rttvar = to_i16 (m_rttvar s + delta);
                        rttvar = (if rttvar \<le> 0 then 1 else rttvar)
                    in s\<lparr>m_srtt := srtt, m_rttvar := rttvar\<rparr>
               else s\<lparr>m_srtt := to_i16 (push_bit TCP_RTT_SHIFT rtt),
                      m_rttvar := to_i16 (push_bit (TCP_RTTVAR_SHIFT - 1) rtt)\<rparr>);
          s = s\<lparr>m_rtt := 0, m_rxtshift := 0\<rparr>
      in s\<lparr>m_rxtcur := rexmt_timer_value s\<rparr>)"

definition update_rtt :: "udt_seq \<Rightarrow> udt_socket \<Rightarrow> udt_socket" where
  "update_rtt ack s = (if m_rtt s \<noteq> 0 \<and> ack = m_rtseq s then xmit_timer (m_rtt s) s else s)"

definition can_persist :: "udt_socket \<Rightarrow> bool" where
  "can_persist s \<longleftrightarrow> total_buffer_size s \<noteq> 0 \<and> m_timers s TCPT_PERSIST = 0 \<and> m_timers s TCPT_REXMT = 0"

definition enter_persist :: "udt_socket \<Rightarrow> udt_socket" where
  "enter_persist s =
     (let t = drop_bit 1 (drop_bit 2 (m_srtt s) + m_rttvar s);
          s = set_timer TCPT_PERSIST (TCPT_RANGESET (t * backoff s) TCPTV_PERSMIN TCPTV_PERSMAX) s
      in if m_rxtshift s < TCP_MAXRXTSHIFT then s\<lparr>m_rxtshift := m_rxtshift s + 1\<rparr> else s)"

definition handle_packet_lost :: "u32 \<Rightarrow> udt_socket \<Rightarrow> udt_socket" where
  "handle_packet_lost tick_count s =
     (let s = s\<lparr>m_tstamp_first := m_tstamp_second s\<rparr>;
          s = s\<lparr>m_tstamp_second := m_tstamp_third s\<rparr>;
          s = s\<lparr>m_tstamp_third := tick_count\<rparr>
      in if is_pkt_lost_rate_incr s then decr_snd_cwnd s else s)"

section \<open>Construction\<close>

text \<open>
  \<open>udt_cb::init\<close>. It leaves \<open>m_snd_fack\<close> as the allocator returned it: \<open>fack0\<close>.
\<close>

definition cb_init :: "udt_seq \<Rightarrow> udt_socket \<Rightarrow> udt_socket" where
  "cb_init fack0 s =
     (let s = s\<lparr>m_last_error := no_error, m_state := TCPS_CLOSED, m_force := False, m_maxseg := s_mss,
                m_flags := 0, m_snd_una := 0, m_snd_nxt := 0, m_snd_fack := fack0, m_iss := 0, m_pseq := 0,
                m_rcv_wnd := 0, m_rcv_nxt := 0, m_irs := 0, m_rcv_adv := 0, m_snd_max := 0, m_rxtshift := 0,
                m_rxtcur := TCPT_RANGESET (drop_bit 1 (drop_bit 2 TCPTV_SRTTBASE + push_bit 1 TCPTV_SRTTDFLT))
                              TCPTV_MIN TCPTV_REXMTMAX,
                m_rtt := 0, m_rtseq := 0, m_srtt := TCPTV_SRTTBASE,
                m_rttvar := push_bit 1 (s_tcp_rttdflt * PR_SLOWHZ), m_rttmin := word_of_int TCPTV_MIN,
                m_idle := 0, m_tick := 0, m_snd_wl1 := 0, m_snd_wl2 := 0\<rparr>;
          s = s\<lparr>m_snd_wnd := min_cwnd s, m_dupacks := 0\<rparr>;
          s = s\<lparr>m_snd_cwnd := min_cwnd s, m_retrans_data := 0, m_pcwnd := 0, m_max_sndwnd := 0,
                m_tstamp_first := 0, m_tstamp_second := 0, m_tstamp_third := 0\<rparr>;
          s = canceltimers s;
          s = emit (Start_timer 500) (s\<lparr>m_slow_timer := True\<rparr>)
      in emit (Start_timer 200) (s\<lparr>m_fast_timer := True\<rparr>))"

section \<open>What every operation keeps\<close>

text \<open>
  The timers: the backoff index stays inside its array, the retransmission value and the
  running timers inside their ranges, and the retransmission and the persist timer never run
  at the same time.
\<close>

definition timers_ok :: "udt_socket \<Rightarrow> bool" where
  "timers_ok s \<longleftrightarrow> 0 \<le> m_rxtshift s \<and> m_rxtshift s \<le> TCP_MAXRXTSHIFT \<and>
     TCPTV_MIN \<le> m_rxtcur s \<and> m_rxtcur s \<le> TCPTV_REXMTMAX \<and> uint (m_rttmin s) = TCPTV_MIN \<and>
     0 \<le> m_timers s TCPT_REXMT \<and> m_timers s TCPT_REXMT \<le> TCPTV_REXMTMAX \<and>
     0 \<le> m_timers s TCPT_PERSIST \<and> m_timers s TCPT_PERSIST \<le> TCPTV_PERSMAX \<and>
     0 \<le> m_timers s TCPT_KEEP \<and> m_timers s TCPT_KEEP \<le> TCPTV_KEEP_IDLE \<and>
     0 \<le> m_timers s TCPT_2MSL \<and> m_timers s TCPT_2MSL \<le> 2 * TCPTV_MSL \<and>
     (m_timers s TCPT_REXMT = 0 \<or> m_timers s TCPT_PERSIST = 0)"

text \<open>
  The buffers count exactly what they hold; \<open>pending_data\<close> is the size of the queued send
  operations, whose buffers fit a \<open>size_t\<close>.
\<close>

definition buf_cnt :: "'a udt_buf_scheme \<Rightarrow> bool" where
  "buf_cnt b \<longleftrightarrow> unat (m_cc b) = sum_len (m_pkts b) \<and> m_cc b \<le> m_hiwat b"

definition op_size :: "send_operation \<Rightarrow> u32" where
  "op_size ops = buffer_size (send_buf ops)"

definition ops_fit :: "send_operation list \<Rightarrow> bool" where
  "ops_fit ops \<longleftrightarrow> (\<forall>o' \<in> set ops. length (cbuf_bytes (send_buf o')) < 2 ^ 32)"

definition pending_ok :: "udt_socket \<Rightarrow> bool" where
  "pending_ok s \<longleftrightarrow> pending_data s = sum_list (map op_size (send_ops s)) \<and> ops_fit (send_ops s)"

definition full_cwnd :: nat where [udt_const]: "full_cwnd = 8 * 918"

text \<open>
  The invariant of a created socket's connection, with a lower bound \<open>c\<close> of the congestion window:
  eight segments, except while \<open>do_fast_rexmt\<close> has lowered it.
\<close>

definition conn_ok :: "nat \<Rightarrow> udt_socket \<Rightarrow> bool" where
  "conn_ok c s \<longleftrightarrow> next_layer s \<and> timers_ok s \<and> m_maxseg s = s_mss \<and> c \<le> unat (m_snd_cwnd s) \<and>
     unat (m_snd_cwnd s) < full_cwnd + 2 ^ 31 \<and> buf_wf (snd_buf s) \<and> buf_cnt (rcv_buf s) \<and> pending_ok s"

lemma conn_ok_frame [simp]:
    "conn_ok c (s\<lparr>m_state := x0\<rparr>) = conn_ok c s"
    "conn_ok c (s\<lparr>m_force := x1\<rparr>) = conn_ok c s"
    "conn_ok c (s\<lparr>m_flags := x2\<rparr>) = conn_ok c s"
    "conn_ok c (s\<lparr>m_snd_una := x3\<rparr>) = conn_ok c s"
    "conn_ok c (s\<lparr>m_snd_nxt := x4\<rparr>) = conn_ok c s"
    "conn_ok c (s\<lparr>m_snd_fack := x5\<rparr>) = conn_ok c s"
    "conn_ok c (s\<lparr>m_retrans_data := x6\<rparr>) = conn_ok c s"
    "conn_ok c (s\<lparr>m_iss := x7\<rparr>) = conn_ok c s"
    "conn_ok c (s\<lparr>m_pseq := x8\<rparr>) = conn_ok c s"
    "conn_ok c (s\<lparr>m_rcv_wnd := x9\<rparr>) = conn_ok c s"
    "conn_ok c (s\<lparr>m_rcv_nxt := x10\<rparr>) = conn_ok c s"
    "conn_ok c (s\<lparr>m_irs := x11\<rparr>) = conn_ok c s"
    "conn_ok c (s\<lparr>m_rcv_adv := x12\<rparr>) = conn_ok c s"
    "conn_ok c (s\<lparr>m_snd_max := x13\<rparr>) = conn_ok c s"
    "conn_ok c (s\<lparr>m_rtt := x14\<rparr>) = conn_ok c s"
    "conn_ok c (s\<lparr>m_rtseq := x15\<rparr>) = conn_ok c s"
    "conn_ok c (s\<lparr>m_srtt := x16\<rparr>) = conn_ok c s"
    "conn_ok c (s\<lparr>m_rttvar := x17\<rparr>) = conn_ok c s"
    "conn_ok c (s\<lparr>m_idle := x18\<rparr>) = conn_ok c s"
    "conn_ok c (s\<lparr>m_tick := x19\<rparr>) = conn_ok c s"
    "conn_ok c (s\<lparr>m_fast_timer := x20\<rparr>) = conn_ok c s"
    "conn_ok c (s\<lparr>m_slow_timer := x21\<rparr>) = conn_ok c s"
    "conn_ok c (s\<lparr>m_snd_wl1 := x22\<rparr>) = conn_ok c s"
    "conn_ok c (s\<lparr>m_snd_wl2 := x23\<rparr>) = conn_ok c s"
    "conn_ok c (s\<lparr>m_snd_wnd := x24\<rparr>) = conn_ok c s"
    "conn_ok c (s\<lparr>m_dupacks := x25\<rparr>) = conn_ok c s"
    "conn_ok c (s\<lparr>m_pcwnd := x26\<rparr>) = conn_ok c s"
    "conn_ok c (s\<lparr>m_max_sndwnd := x27\<rparr>) = conn_ok c s"
    "conn_ok c (s\<lparr>m_tstamp_first := x28\<rparr>) = conn_ok c s"
    "conn_ok c (s\<lparr>m_tstamp_second := x29\<rparr>) = conn_ok c s"
    "conn_ok c (s\<lparr>m_tstamp_third := x30\<rparr>) = conn_ok c s"
    "conn_ok c (s\<lparr>m_last_error := x31\<rparr>) = conn_ok c s"
    "conn_ok c (s\<lparr>remote_ep := x33\<rparr>) = conn_ok c s"
    "conn_ok c (s\<lparr>peer_ep := x34\<rparr>) = conn_ok c s"
    "conn_ok c (s\<lparr>recv_ops := x35\<rparr>) = conn_ok c s"
    "conn_ok c (s\<lparr>connect_handler := x36\<rparr>) = conn_ok c s"
    "conn_ok c (s\<lparr>accept_handler := x37\<rparr>) = conn_ok c s"
    "conn_ok c (s\<lparr>shutdown_handler := x38\<rparr>) = conn_ok c s"
    "conn_ok c (s\<lparr>mtu_prober := x39\<rparr>) = conn_ok c s"
    "conn_ok c (s\<lparr>rcv_pkt := x40\<rparr>) = conn_ok c s"
    "conn_ok c (s\<lparr>so_options := x41\<rparr>) = conn_ok c s"
    "conn_ok c (s\<lparr>effects := x42\<rparr>) = conn_ok c s"
  by (simp_all add: conn_ok_def timers_ok_def pending_ok_def)

lemma conn_ok_flags [simp]:
    "conn_ok c (set_flags f s) = conn_ok c s" "conn_ok c (clear_flags f s) = conn_ok c s"
    "conn_ok c (emit e s) = conn_ok c s"
  by (simp_all add: set_flags_def clear_flags_def emit_def)

lemma TCPT_RANGESET_bounds:
  assumes "- 32768 \<le> lo" and "lo \<le> hi" and "hi < 32768"
  shows "lo \<le> TCPT_RANGESET v lo hi \<and> TCPT_RANGESET v lo hi \<le> hi"
  using assms by (simp add: TCPT_RANGESET_def to_i16_id Let_def)

lemma rexmt_timer_value_bounds:
  "uint (m_rttmin s) = TCPTV_MIN \<Longrightarrow> TCPTV_MIN \<le> rexmt_timer_value s \<and> rexmt_timer_value s \<le> TCPTV_REXMTMAX"
  unfolding rexmt_timer_value_def Let_def by (simp add: TCPT_RANGESET_bounds udt_const)

lemma min_cwnd_eq: "m_maxseg s = s_mss \<Longrightarrow> unat (min_cwnd s) = full_cwnd"
  by (simp add: min_cwnd_def udt_const)

lemma bytes_inflight_less: "unat (bytes_inflight s) < 2 ^ 31"
proof -
  let ?t = "sint (m_snd_nxt s - m_snd_fack s + m_retrans_data s)"
  have t: "?t < 2 ^ 31" using sint_less [of "m_snd_nxt s - m_snd_fack s + m_retrans_data s"] by simp
  have "unat (word_of_int k :: u32) < 2 ^ 31" if "0 \<le> k" "k < 2 ^ 31" for k
    using that by (simp add: unsigned_of_int take_bit_int_eq_self nat_less_iff)
  from this [of ?t] t show ?thesis unfolding bytes_inflight_def Let_def by (simp add: not_less)
qed

lemma conn_ok_cwnd:
  "conn_ok c s \<Longrightarrow> d \<le> unat w \<Longrightarrow> unat w < full_cwnd + 2 ^ 31 \<Longrightarrow> conn_ok d (s\<lparr>m_snd_cwnd := w\<rparr>)"
  by (simp add: conn_ok_def timers_ok_def pending_ok_def)

lemma conn_ok_mono: "conn_ok c s \<Longrightarrow> d \<le> c \<Longrightarrow> conn_ok d s"
  by (simp add: conn_ok_def)

lemma slow_start_ok: "conn_ok c s \<Longrightarrow> c \<le> full_cwnd \<Longrightarrow> conn_ok c (slow_start s)"
proof -
  assume ok: "conn_ok c s" and c: "c \<le> full_cwnd"
  have m: "unat (min_cwnd s) = full_cwnd" using ok by (simp add: conn_ok_def min_cwnd_eq)
  have "unat (min_cwnd s + bytes_inflight s) = full_cwnd + unat (bytes_inflight s)"
    using bytes_inflight_less [of s] m by (simp add: unat_word_ariths udt_const)
  with ok c bytes_inflight_less [of s] show ?thesis by (auto simp: slow_start_def intro!: conn_ok_cwnd)
qed

lemma set_timer_ok:
  "conn_ok c s \<Longrightarrow> t \<noteq> TCPT_REXMT \<Longrightarrow> t \<noteq> TCPT_PERSIST \<Longrightarrow> 0 \<le> v \<Longrightarrow>
    v \<le> (if t = TCPT_KEEP then TCPTV_KEEP_IDLE else 2 * TCPTV_MSL) \<Longrightarrow> conn_ok c (set_timer t v s)"
  by (cases t) (simp_all add: conn_ok_def timers_ok_def pending_ok_def set_timer_def)

lemma clear_timer_ok: "conn_ok c s \<Longrightarrow> conn_ok c (set_timer t 0 s)"
  by (cases t) (auto simp: conn_ok_def timers_ok_def pending_ok_def set_timer_def udt_const)

lemma start_rexmt_ok:
  "conn_ok c s \<Longrightarrow> m_timers s TCPT_PERSIST = 0 \<Longrightarrow> conn_ok c (set_timer TCPT_REXMT (m_rxtcur s) s)"
  by (simp add: conn_ok_def timers_ok_def pending_ok_def set_timer_def udt_const)

lemma leave_persist_rexmt_ok:
  "conn_ok c s \<Longrightarrow> conn_ok c (leave_persist (set_timer TCPT_REXMT (m_rxtcur s) s))"
  by (simp add: conn_ok_def timers_ok_def pending_ok_def set_timer_def leave_persist_def udt_const)

lemma leave_persist_ok: "conn_ok c s \<Longrightarrow> conn_ok c (leave_persist s)"
  by (simp add: conn_ok_def timers_ok_def pending_ok_def set_timer_def leave_persist_def udt_const)

lemma reset_rexmt_timer_ok: "conn_ok c s \<Longrightarrow> conn_ok c (reset_rexmt_timer s)"
  by (simp add: reset_rexmt_timer_def clear_timer_ok start_rexmt_ok)

lemma canceltimers_ok: "conn_ok c s \<Longrightarrow> conn_ok c (canceltimers s)"
  by (simp add: canceltimers_def clear_timer_ok)

lemma enter_persist_ok:
  assumes "conn_ok c s" and "m_timers s TCPT_REXMT = 0"
  shows "conn_ok c (enter_persist s)"
proof -
  have b: "TCPTV_PERSMIN \<le> TCPT_RANGESET v TCPTV_PERSMIN TCPTV_PERSMAX \<and>
      TCPT_RANGESET v TCPTV_PERSMIN TCPTV_PERSMAX \<le> TCPTV_PERSMAX" for v
    by (simp add: TCPT_RANGESET_bounds udt_const)
  have p: "0 \<le> TCPT_RANGESET v TCPTV_PERSMIN TCPTV_PERSMAX" for v
    using b [of v] by (simp add: udt_const)
  show ?thesis
    using assms b p by (simp add: conn_ok_def timers_ok_def pending_ok_def set_timer_def enter_persist_def Let_def)
qed

lemma xmit_timer_ok: "conn_ok c s \<Longrightarrow> conn_ok c (xmit_timer rtt s)"
proof -
  assume ok: "conn_ok c s"
  have *: "conn_ok c (t\<lparr>m_rtt := 0, m_rxtshift := 0, m_rxtcur := rexmt_timer_value u\<rparr>)"
    if "conn_ok c t" and "m_rttmin u = m_rttmin t" for t u
    using that rexmt_timer_value_bounds [of u]
    by (simp add: conn_ok_def timers_ok_def pending_ok_def udt_const)
  show ?thesis
    unfolding xmit_timer_def Let_def using ok by (auto intro!: *)
qed

lemma update_rtt_ok: "conn_ok c s \<Longrightarrow> conn_ok c (update_rtt ack s)"
  by (simp add: update_rtt_def xmit_timer_ok)

lemma handle_packet_lost_ok: "conn_ok full_cwnd s \<Longrightarrow> conn_ok full_cwnd (handle_packet_lost t s)"
proof -
  assume ok: "conn_ok full_cwnd s"
  have "conn_ok full_cwnd (decr_snd_cwnd u)" if u: "conn_ok full_cwnd u" for u
  proof -
    let ?w = "m_snd_cwnd u - drop_bit 2 (m_snd_cwnd u)"
    let ?u = "u\<lparr>m_snd_cwnd := ?w\<rparr>"
    have m: "unat (min_cwnd ?u) = full_cwnd" using u by (simp add: conn_ok_def min_cwnd_eq)
    have "drop_bit 2 (m_snd_cwnd u) \<le> m_snd_cwnd u" by (simp add: word_le_nat_alt unat_div drop_bit_eq_div)
    then have "unat ?w \<le> unat (m_snd_cwnd u)" by (simp add: unat_sub)
    then have w: "unat ?w < full_cwnd + 2 ^ 31" using u by (simp add: conn_ok_def)
    have "full_cwnd \<le> unat ?w" if "\<not> ?w < min_cwnd ?u"
      using that m by (simp add: word_less_nat_alt)
    moreover have "conn_ok full_cwnd (u\<lparr>m_snd_cwnd := min_cwnd ?u\<rparr>)"
      by (rule conn_ok_cwnd [OF u]) (use m in simp_all)
    ultimately show ?thesis
      using conn_ok_cwnd [OF u _ w] by (auto simp: decr_snd_cwnd_def Let_def)
  qed
  with ok show ?thesis by (simp add: handle_packet_lost_def Let_def)
qed

lemma update_snd_ok: "conn_ok c s \<Longrightarrow> conn_ok c (update_snd_una a s)"
    "conn_ok c s \<Longrightarrow> conn_ok c (update_snd_fack a s)" "conn_ok c s \<Longrightarrow> conn_ok c (update_snd_wnd w s)"
  by (simp_all add: update_snd_una_def update_snd_fack_def update_snd_wnd_def Let_def)

lemma tcp_seqinit_ok: "conn_ok c s \<Longrightarrow> conn_ok c (tcp_sendseqinit s)" "conn_ok c s \<Longrightarrow> conn_ok c (tcp_rcvseqinit s)"
  by (simp_all add: tcp_sendseqinit_def tcp_rcvseqinit_def)

text \<open>Growing the window never divides by zero, and never overflows on the way to its cap.\<close>

lemma incr_snd_cwnd_ok:
  assumes "conn_ok full_cwnd s"
  shows "\<exists>t. incr_snd_cwnd s = Some t \<and> conn_ok full_cwnd t \<and> unat (m_snd_cwnd t) \<le> 65535"
proof -
  have w: "full_cwnd \<le> unat (m_snd_cwnd s)" and g: "m_maxseg s = s_mss" using assms by (simp_all add: conn_ok_def)
  then have nz: "m_snd_cwnd s \<noteq> 0" by (auto simp: udt_const)
  have i: "(ucast (m_maxseg s) :: u32) = 918" using g by (simp add: udt_const)
  have u: "unat (m_snd_cwnd s) < full_cwnd + 2 ^ 31" using assms by (simp add: conn_ok_def)
  have r: "conn_ok full_cwnd (s\<lparr>m_snd_cwnd := min (m_snd_cwnd s + k) TCP_MAXCWIN\<rparr>) \<and>
      unat (min (m_snd_cwnd s + k) TCP_MAXCWIN) \<le> 65535" if k: "unat k \<le> 918" for k
  proof -
    have "unat (m_snd_cwnd s + k) = unat (m_snd_cwnd s) + unat k"
      using u k by (simp add: unat_word_ariths udt_const)
    then have "full_cwnd \<le> unat (min (m_snd_cwnd s + k) TCP_MAXCWIN)" and
      "unat (min (m_snd_cwnd s + k) TCP_MAXCWIN) \<le> 65535"
      using w by (auto simp: min_def word_le_nat_alt udt_const)
    with assms show ?thesis by (intro conjI conn_ok_cwnd) auto
  qed
  have "unat (918 * 918 div m_snd_cwnd s) \<le> 918"
  proof -
    have "842724 div unat (m_snd_cwnd s) \<le> 842724 div 918"
      using w by (intro div_le_mono2) (simp_all add: udt_const)
    then show ?thesis by (simp add: unat_div)
  qed
  with r nz show ?thesis unfolding incr_snd_cwnd_def Let_def i by simp
qed

lemma conn_ok_snd_buf: "conn_ok c s \<Longrightarrow> buf_wf b \<Longrightarrow> conn_ok c (s\<lparr>snd_buf := b\<rparr>)"
  by (simp add: conn_ok_def timers_ok_def pending_ok_def)

lemma conn_ok_rcv_buf: "conn_ok c s \<Longrightarrow> buf_cnt b \<Longrightarrow> conn_ok c (s\<lparr>rcv_buf := b\<rparr>)"
  by (simp add: conn_ok_def timers_ok_def pending_ok_def)

lemma conn_ok_rxtshift:
  "conn_ok c s \<Longrightarrow> 0 \<le> k \<Longrightarrow> k \<le> TCP_MAXRXTSHIFT \<Longrightarrow> conn_ok c (s\<lparr>m_rxtshift := k\<rparr>)"
  by (simp add: conn_ok_def timers_ok_def pending_ok_def)

lemma conn_ok_snd_wf: "conn_ok c s \<Longrightarrow> buf_wf (snd_buf s)"
  by (simp add: conn_ok_def)

lemma conn_ok_rcv_cnt: "conn_ok c s \<Longrightarrow> buf_cnt (rcv_buf s)"
  by (simp add: conn_ok_def)

end
