(* ===== verification/Udt_Output.thy ===== *)
theory Udt_Output
  imports Udt_State
begin

text \<open>
  \<open>src/udt/udt_cb_output.cpp\<close>, with the socket's \<open>consume_pending_data\<close> it calls: what is sent
  and when. \<open>output\<close> runs its body up to ten times; the body is cut at the labels of the
  source into choosing a packet, deciding whether to send, and sending.

  The source's \<open>goto send\<close> with data jumps over the initialisation of \<open>rcv_win\<close>, so the
  variable then holds whatever its memory held. That value is the parameter \<open>iv\<close> of \<open>output\<close>:
  a function of the number of effects so far, so that every read may see another one.
\<close>

type_synonym indet = "nat \<Rightarrow> int"

section \<open>Moving pending data into the send buffer\<close>

fun consume_loop :: "send_operation list \<Rightarrow> u32 \<Rightarrow> udt_socket \<Rightarrow> send_operation list \<times> u32 \<times> udt_socket" where
  "consume_loop [] consumed s = ([], consumed, s)"
| "consume_loop (ops # rest) consumed s =
     (let cbuf = send_buf ops;
          data_len = buffer_size cbuf
      in case append_data cbuf (ucast (m_maxseg s)) (snd_buf s) of
           (True, sb) \<Rightarrow>
             consume_loop rest (consumed + data_len)
               (emit (Post_io (send_handler ops) (udt_error Succeed) data_len []) (s\<lparr>snd_buf := sb\<rparr>))
         | (False, _) \<Rightarrow> (ops # rest, consumed, s))"

definition consume_pending_data :: "udt_socket \<Rightarrow> u32 \<times> udt_socket" where
  "consume_pending_data s =
     (case consume_loop (send_ops s) 0 s of
        (ops, consumed, s) \<Rightarrow> (consumed, s\<lparr>send_ops := ops, pending_data := pending_data s - consumed\<rparr>))"

section \<open>Choosing what to send\<close>

definition can_send_bytes :: "udt_socket \<Rightarrow> u32" where
  "can_send_bytes s =
     (let ret = min (sint (m_snd_cwnd s - bytes_inflight s)) (remain_snd_wnd s)
      in if ret < 0 then 0 else word_of_int ret)"

text \<open>
  The loop of \<open>get_snd_pkt\<close> stops at the first packet not before \<open>m_snd_nxt\<close> and not marked
  as retransmitted; the list is then cut there.
\<close>

fun find_snd_pkt :: "udt_seq \<Rightarrow> udt_packet list \<Rightarrow> udt_packet list \<Rightarrow>
    (udt_packet list \<times> udt_packet \<times> udt_packet list) option" where
  "find_snd_pkt nxt pre [] = None"
| "find_snd_pkt nxt pre (p # ps) =
     (if seq_ge (pseq p) nxt \<and> \<not> has_rexmt (pflags p) then Some (pre, p, ps)
      else find_snd_pkt nxt (pre @ [p]) ps)"

definition set_pflags :: "u8 \<Rightarrow> udt_packet \<Rightarrow> udt_packet" where
  "set_pflags f p = p\<lparr>hdr := (hdr p)\<lparr>uh_flags := f\<rparr>\<rparr>"

definition get_snd_pkt :: "u32 \<Rightarrow> udt_socket \<Rightarrow> udt_packet option \<times> udt_socket" where
  "get_snd_pkt len s =
     (case find_snd_pkt (m_snd_nxt s) [] (m_pkts (snd_buf s)) of
        None \<Rightarrow> (None, s)
      | Some (pre, p, ps) \<Rightarrow>
          (if ucast (plen p) \<le> len
           then let rexmt = seq_lt (pseq p) (m_snd_max s);
                    p' = (if rexmt then set_pflags (pflags p OR TH_RETRANS) p else p);
                    s = (if rexmt
                         then s\<lparr>snd_buf := (snd_buf s)\<lparr>m_pkts := pre @ p' # ps\<rparr>,
                                m_retrans_data := m_retrans_data s + ucast (plen p)\<rparr>
                         else s)
                in (Some p', s\<lparr>m_snd_nxt := pseq p\<rparr>)
           else (None, s)))"

definition validate_first_pkt :: "udt_socket \<Rightarrow> udt_socket" where
  "validate_first_pkt s =
     (case m_pkts (snd_buf s) of
        [] \<Rightarrow> s
      | p # ps \<Rightarrow>
          (let s = (if has_rexmt (pflags p) then s\<lparr>m_retrans_data := m_retrans_data s - ucast (plen p)\<rparr> else s)
           in s\<lparr>snd_buf := (snd_buf s)\<lparr>m_pkts := set_pflags 0 p # ps\<rparr>\<rparr>))"

section \<open>Options\<close>

definition compose_cwnd_option :: "udt_socket \<Rightarrow> nat \<Rightarrow> nat \<times> u8 list" where
  "compose_cwnd_option s remain_len =
     (if remain_len \<ge> sizeof_udt_option_cwnd
      then (remain_len - sizeof_udt_option_cwnd,
            cwnd_mem \<lparr>cwnd_kind = TCPOPT_CWND, cwnd_len = word_of_nat sizeof_udt_option_cwnd,
                      cwnd_val = bswap32 (m_snd_cwnd s)\<rparr>)
      else (remain_len, []))"

definition compose_sack_option :: "udt_socket \<Rightarrow> nat \<Rightarrow> nat \<times> u8 list" where
  "compose_sack_option s remain_len =
     (if m_reasm_pkts (rcv_buf s) \<noteq> []
      then case sack_compose (rev (m_reasm_pkts (rcv_buf s))) remain_len of
             (r, None) \<Rightarrow> (r, [])
           | (r, Some o') \<Rightarrow> (r, sack_mem (sack_hton o'))
      else (remain_len, []))"

definition compose_options :: "udt_socket \<Rightarrow> nat \<Rightarrow> nat \<times> u8 list" where
  "compose_options s remain_len =
     (case compose_cwnd_option s remain_len of
        (new_remain_len, b1) \<Rightarrow>
          (case compose_sack_option s new_remain_len of (r, b2) \<Rightarrow> (r, b1 @ b2)))"

section \<open>Sending a datagram\<close>

definition udp_output :: "u8 list \<Rightarrow> u8 list \<Rightarrow> udt_socket \<Rightarrow> udt_socket" where
  "udp_output hdr_bytes data s = emit (Send_to (peer_ep s) (hdr_bytes @ data)) s"

definition respond :: "udt_seq \<Rightarrow> udt_seq \<Rightarrow> u8 \<Rightarrow> udt_socket \<Rightarrow> udt_socket" where
  "respond ack sq flags s =
     udp_output (mem_of_hdr (hton \<lparr>uh_ver = 0, uh_flags = flags, uh_win = ucast (acc (rcv_buf s)),
       uh_len = 0, uh_off = word_of_nat sizeof_udt_hdr, uh_seq = sq, uh_ack = ack, uh_pseq = m_pseq s\<rparr>)) [] s"

definition reset_peer :: "udt_socket \<Rightarrow> udt_socket" where
  "reset_peer s = respond (m_rcv_nxt s) (m_snd_nxt s) TH_RST s"

section \<open>output\<close>

text \<open>From \<open>again\<close> to the choice of the flags: the packet if any, \<open>sendalot\<close>, the flags.\<close>

definition out_select :: "udt_socket \<Rightarrow> udt_packet option \<times> bool \<times> u8 \<times> udt_socket" where
  "out_select s =
     (let can_send = sint (can_send_bytes s);
          s = (if pending_data s \<noteq> 0 \<and>
                  (m_seq (snd_buf s) < word_of_int can_send + m_snd_nxt s \<or> \<not> above_lowat (snd_buf s))
               then snd (consume_pending_data s) else s);
          maxseg = uint (m_maxseg s);
          can_send = (if m_force s \<and> can_send < maxseg then maxseg else can_send);
          (pkt, s) = (if can_send \<ge> maxseg then get_snd_pkt (word_of_int can_send) s
                      else if sint (m_snd_wnd s) < maxseg
                      then (None, set_timer TCPT_REXMT 0 (s\<lparr>m_snd_nxt := m_snd_una s\<rparr>))
                      else (None, s));
          len = (case pkt of None \<Rightarrow> 0 | Some p \<Rightarrow> uint (plen p));
          (sendalot, s) = (if pkt \<noteq> None \<and> \<not> m_force s then (can_send > len, leave_persist s) else (False, s));
          flags = s_tcp_outflags (m_state s);
          flags = (if seq_lt (m_snd_nxt s + word_of_int len) (m_seq (snd_buf s) + pending_data s)
                   then flags AND NOT TH_FIN else flags)
      in (pkt, sendalot, flags, s))"

text \<open>Whether a segment goes out although it carries no data, for a receive window \<open>rcv_win\<close>.\<close>

definition out_needed :: "int \<Rightarrow> u8 \<Rightarrow> udt_socket \<Rightarrow> bool" where
  "out_needed rcv_win flags s \<longleftrightarrow>
     (rcv_win > 0 \<and>
       (let adv = sint (word_of_int (min rcv_win TCP_MAXWIN) - (m_rcv_adv s - m_rcv_nxt s))
        in adv \<ge> 2 * uint (m_maxseg s) \<or> to_i32 (2 * adv) \<ge> sint (m_hiwat (rcv_buf s)))) \<or>
     flag s TF_ACKNOW \<or>
     has_flag flags (TH_SYN OR TH_RST) \<or>
     (has_flag flags TH_FIN \<and> (\<not> flag s TF_SENTFIN \<or> m_snd_nxt s = m_snd_una s))"

text \<open>The window a segment advertises, from the raw value of \<open>rcv_win\<close>.\<close>

definition adv_window :: "int \<Rightarrow> udt_socket \<Rightarrow> int" where
  "adv_window rcv_win s =
     (let rcv_win = (if rcv_win < sint (m_hiwat (rcv_buf s) div 4) \<and> rcv_win < uint (m_maxseg s) then 0 else rcv_win);
          rcv_win = (if rcv_win > TCP_MAXWIN then TCP_MAXWIN else rcv_win)
      in if rcv_win < sint (m_rcv_adv s - m_rcv_nxt s) then sint (m_rcv_adv s - m_rcv_nxt s) else rcv_win)"

text \<open>The bookkeeping of sequence numbers and timers for a segment of \<open>len\<close> bytes.\<close>

definition out_account :: "u8 \<Rightarrow> u32 \<Rightarrow> udt_socket \<Rightarrow> udt_socket" where
  "out_account flags len s =
     (if \<not> m_force s \<or> m_timers s TCPT_PERSIST = 0
      then let startseq = m_snd_nxt s;
               s = (if has_flag flags TH_SYN then s\<lparr>m_snd_nxt := m_snd_nxt s + 1\<rparr> else s);
               s = (if has_flag flags TH_FIN then set_flags TF_SENTFIN (s\<lparr>m_snd_nxt := m_snd_nxt s + 1\<rparr>) else s);
               s = s\<lparr>m_snd_nxt := m_snd_nxt s + len\<rparr>;
               s = (if seq_gt (m_snd_nxt s) (m_snd_max s)
                    then let s = s\<lparr>m_snd_max := m_snd_nxt s\<rparr>
                         in if m_rtt s = 0 then s\<lparr>m_rtt := 1, m_rtseq := startseq\<rparr> else s
                    else s)
           in if m_timers s TCPT_REXMT = 0 \<and> m_snd_nxt s \<noteq> m_snd_una s
              then leave_persist (set_timer TCPT_REXMT (m_rxtcur s) s) else s
      else if seq_gt (m_snd_nxt s + len) (m_snd_max s) then s\<lparr>m_snd_max := m_snd_nxt s + len\<rparr>
      else s)"

definition out_send :: "int \<Rightarrow> u8 \<Rightarrow> udt_packet option \<Rightarrow> udt_socket \<Rightarrow> udt_socket" where
  "out_send rcv_win flags pkt s =
     (let len = (case pkt of None \<Rightarrow> 0 | Some p \<Rightarrow> plen p);
          s = (if has_flag flags TH_SYN then s\<lparr>m_snd_nxt := m_iss s\<rparr> else s);
          s = (if has_flag flags TH_FIN \<and> TCPS_HAVESNDFIN s \<and> m_snd_nxt s = m_snd_max s
               then s\<lparr>m_snd_nxt := m_snd_nxt s - 1\<rparr> else s);
          sq = (if len \<noteq> 0 \<or> has_flag flags (TH_SYN OR TH_FIN) \<or> m_timers s TCPT_PERSIST \<noteq> 0
                then m_snd_nxt s else m_snd_max s);
          win = adv_window rcv_win s;
          opts = (if has_flag flags TH_ACK
                  then snd (compose_options s (MAX_HEADER_SIZE - sizeof_udt_hdr)) else []);
          ti = \<lparr>uh_ver = 0, uh_flags = flags, uh_win = word_of_int win, uh_len = len,
                uh_off = word_of_nat (sizeof_udt_hdr + length opts), uh_seq = sq, uh_ack = m_rcv_nxt s,
                uh_pseq = m_pseq s\<rparr>;
          s = out_account flags (ucast len) s;
          s = udp_output (mem_of_hdr (hton ti) @ opts) (case pkt of None \<Rightarrow> [] | Some p \<Rightarrow> pdata p) s;
          s = (if win > 0 \<and> seq_gt (m_rcv_nxt s + word_of_int win) (m_rcv_adv s)
               then s\<lparr>m_rcv_adv := m_rcv_nxt s + word_of_int win\<rparr> else s)
      in clear_flags (TF_ACKNOW OR TF_DELACK OR TF_NEED_OUTPUT) s)"

text \<open>One pass from \<open>again\<close>: the bytes sent, whether to go again, the state.\<close>

definition out_pass :: "indet \<Rightarrow> udt_socket \<Rightarrow> u32 \<times> bool \<times> udt_socket" where
  "out_pass iv s =
     (case out_select s of
        (pkt, sendalot, flags, s) \<Rightarrow>
          let len = (case pkt of None \<Rightarrow> 0 | Some p \<Rightarrow> plen p);
              rcv_win = (if len \<noteq> 0 then to_i32 (iv (length (effects s))) else sint (acc (rcv_buf s)))
          in if len \<noteq> 0 \<or> out_needed rcv_win flags s
             then (ucast len, sendalot, out_send rcv_win flags pkt s)
             else (0, False, if can_persist s then enter_persist (s\<lparr>m_rxtshift := 0\<rparr>) else s))"

text \<open>The loop: \<open>clamp\<close> passes at most.\<close>

fun out_loop :: "indet \<Rightarrow> nat \<Rightarrow> u32 \<Rightarrow> udt_socket \<Rightarrow> u32 \<times> udt_socket" where
  "out_loop iv 0 sent_bytes s = (sent_bytes, s)"
| "out_loop iv (Suc clamp) sent_bytes s =
     (case out_pass iv s of
        (n, sendalot, s) \<Rightarrow>
          if sendalot then out_loop iv clamp (sent_bytes + n) s else (sent_bytes + n, s))"

definition cb_output :: "indet \<Rightarrow> udt_socket \<Rightarrow> u32 \<times> udt_socket" where
  "cb_output iv s =
     (if m_state s = TCPS_CLOSED then (0, s)
      else let idle = (m_snd_max s = m_snd_una s);
               s = (if idle \<and> m_idle s \<ge> m_rxtcur s then slow_start s else s)
           in out_loop iv 10 0 s)"

section \<open>The invariant through output\<close>

lemma consume_loop_spec:
  assumes "consume_loop ops n s = (ops', n', s')" and "conn_ok c s" and "ops_fit ops"
  shows "conn_ok c s' \<and> n' + sum_list (map op_size ops') = n + sum_list (map op_size ops) \<and> ops_fit ops' \<and>
    send_ops s' = send_ops s \<and> pending_data s' = pending_data s"
  using assms
proof (induction ops n s rule: consume_loop.induct)
  case (1 n s)
  then show ?case by simp
next
  case (2 ops rest n s)
  obtain ok sb where ap: "append_data (send_buf ops) (ucast (m_maxseg s)) (snd_buf s) = (ok, sb)"
    by (cases "append_data (send_buf ops) (ucast (m_maxseg s)) (snd_buf s)")
  show ?case
  proof (cases ok)
    case False
    with 2 ap show ?thesis by (auto simp: Let_def)
  next
    case True
    have ap': "append_data (send_buf ops) (ucast (m_maxseg s)) (snd_buf s) = (True, sb)" using ap True by simp
    have g: "unat (ucast (m_maxseg s) :: u32) \<le> 65515" using 2(3) by (simp add: conn_ok_def udt_const)
    have l: "length (cbuf_bytes (send_buf ops)) < 2 ^ 32" "ops_fit rest" using 2(4) by (auto simp: ops_fit_def)
    have "buf_wf sb"
      using append_data_spec [OF ap' conn_ok_snd_wf [OF 2(3)] g l(1)] by metis
    then have "conn_ok c (emit (Post_io (send_handler ops) (udt_error Succeed) (buffer_size (send_buf ops)) [])
        (s\<lparr>snd_buf := sb\<rparr>))"
      using 2(3) by (simp add: conn_ok_snd_buf)
    from 2(1) [OF refl refl ap' [symmetric] _ _ this l(2)] 2(2) ap True show ?thesis
      by (auto simp: Let_def op_size_def emit_def)
  qed
qed

lemma consume_pending_data_ok: "conn_ok c s \<Longrightarrow> conn_ok c (snd (consume_pending_data s))"
proof -
  assume ok: "conn_ok c s"
  obtain ops n t where l: "consume_loop (send_ops s) 0 s = (ops, n, t)" by (cases "consume_loop (send_ops s) 0 s")
  have p: "pending_data s = sum_list (map op_size (send_ops s))" "ops_fit (send_ops s)"
    using ok by (simp_all add: conn_ok_def pending_ok_def)
  from consume_loop_spec [OF l ok p(2)] have "conn_ok c t" "ops_fit ops" "send_ops t = send_ops s"
    "pending_data t - n = sum_list (map op_size ops)"
    using p(1) by (auto simp: algebra_simps)
  then show ?thesis
    by (simp add: consume_pending_data_def l conn_ok_def timers_ok_def pending_ok_def)
qed

lemma find_snd_pkt_spec:
  "find_snd_pkt nxt pre ps = Some (pre', p, suf) \<Longrightarrow>
    \<exists>mid. pre' = pre @ mid \<and> ps = mid @ p # suf \<and> seq_ge (pseq p) nxt \<and> \<not> has_rexmt (pflags p) \<and>
      (\<forall>q \<in> set mid. seq_lt (pseq q) nxt \<or> has_rexmt (pflags q))"
proof (induction nxt pre ps rule: find_snd_pkt.induct)
  case (1 nxt pre)
  then show ?case by simp
next
  case (2 nxt pre p' ps)
  then show ?case by (fastforce simp: seq_ge_not_lt split: if_splits)
qed

lemma set_pflags_simps [simp]: "pseq (set_pflags f p) = pseq p" "plen (set_pflags f p) = plen p"
    "body (set_pflags f p) = body p" "pflags (set_pflags f p) = f" "uh_off (hdr (set_pflags f p)) = uh_off (hdr p)"
  by (simp_all add: set_pflags_def)

lemma pkt_ok_set_pflags [simp]: "pkt_ok (set_pflags f p) = pkt_ok p"
  by (simp add: pkt_ok_def pkt_mem_def)

lemma data_at_set_pflags: "pkt_ok p \<Longrightarrow> data_at (set_pflags f p) = data_at p"
  by (simp add: pkt_ok_def data_at_body)

lemma pdata_set_pflags: "pkt_ok p \<Longrightarrow> pdata (set_pflags f p) = pdata p"
  by (simp add: pdata_def data_at_set_pflags)

lemma buf_wf_set_pflags:
  "buf_wf b \<Longrightarrow> m_pkts b = pre @ p # suf \<Longrightarrow> buf_wf (b\<lparr>m_pkts := pre @ set_pflags f p # suf\<rparr>)"
  by (auto simp: buf_wf_def)

lemma get_snd_pkt_ok: "conn_ok c s \<Longrightarrow> conn_ok c (snd (get_snd_pkt len s))"
proof -
  assume ok: "conn_ok c s"
  have "buf_wf ((snd_buf s)\<lparr>m_pkts := pre @ set_pflags f p # suf\<rparr>)"
    if "find_snd_pkt (m_snd_nxt s) [] (m_pkts (snd_buf s)) = Some (pre, p, suf)" for pre p suf f
    using find_snd_pkt_spec [OF that] conn_ok_snd_wf [OF ok] by (auto intro: buf_wf_set_pflags)
  then show ?thesis
    using ok by (auto simp: get_snd_pkt_def Let_def conn_ok_snd_buf split: option.splits)
qed

lemma validate_first_pkt_ok: "conn_ok c s \<Longrightarrow> conn_ok c (validate_first_pkt s)"
proof -
  assume ok: "conn_ok c s"
  have "buf_wf ((snd_buf s)\<lparr>m_pkts := set_pflags 0 p # ps\<rparr>)" if "m_pkts (snd_buf s) = p # ps" for p ps
    using buf_wf_set_pflags [of "snd_buf s" "[]" p ps] conn_ok_snd_wf [OF ok] that by simp
  then show ?thesis
    using ok by (auto simp: validate_first_pkt_def Let_def conn_ok_snd_buf split: list.splits)
qed

lemma out_select_ok: "conn_ok c s \<Longrightarrow> out_select s = (pkt, sendalot, fl, t) \<Longrightarrow> conn_ok c t"
proof -
  assume ok: "conn_ok c s" and sel: "out_select s = (pkt, sendalot, fl, t)"
  define u where "u = (if pending_data s \<noteq> 0 \<and>
      (m_seq (snd_buf s) < word_of_int (sint (can_send_bytes s)) + m_snd_nxt s \<or> \<not> above_lowat (snd_buf s))
    then snd (consume_pending_data s) else s)"
  have u: "conn_ok c u" using ok by (simp add: u_def consume_pending_data_ok)
  have g: "conn_ok c (snd (get_snd_pkt n u))" for n by (rule get_snd_pkt_ok [OF u])
  have z: "conn_ok c (set_timer TCPT_REXMT 0 (u\<lparr>m_snd_nxt := v\<rparr>))" for v by (simp add: clear_timer_ok u)
  have l: "conn_ok c x \<Longrightarrow> conn_ok c (leave_persist x)" for x by (rule leave_persist_ok)
  from sel show ?thesis
    unfolding out_select_def u_def [symmetric] Let_def
    using g z u by (auto split: if_splits prod.splits intro!: l) (metis snd_conv)+
qed

lemma out_account_ok: "conn_ok c s \<Longrightarrow> conn_ok c (out_account fl len s)"
  unfolding out_account_def Let_def by (simp add: leave_persist_rexmt_ok)

lemma udp_output_ok [simp]: "conn_ok c (udp_output h d s) = conn_ok c s"
  by (simp add: udp_output_def)

lemma respond_ok [simp]: "conn_ok c (respond a q f s) = conn_ok c s" "conn_ok c (reset_peer s) = conn_ok c s"
  by (simp_all add: respond_def reset_peer_def)

lemma out_send_ok: "conn_ok c s \<Longrightarrow> conn_ok c (out_send rw fl pkt s)"
  unfolding out_send_def Let_def by (simp add: out_account_ok)

lemma out_pass_ok: "conn_ok c s \<Longrightarrow> out_pass iv s = (n, sendalot, t) \<Longrightarrow> conn_ok c t"
proof -
  assume ok: "conn_ok c s" and pass: "out_pass iv s = (n, sendalot, t)"
  obtain pkt sa fl u where sel: "out_select s = (pkt, sa, fl, u)" by (cases "out_select s")
  have u: "conn_ok c u" by (rule out_select_ok [OF ok sel])
  then have "can_persist u \<Longrightarrow> conn_ok c (enter_persist (u\<lparr>m_rxtshift := 0\<rparr>))"
    by (intro enter_persist_ok conn_ok_rxtshift) (auto simp: can_persist_def udt_const)
  with pass u sel show ?thesis
    by (auto simp: out_pass_def Let_def out_send_ok split: if_splits)
qed

lemma out_loop_ok: "conn_ok c s \<Longrightarrow> conn_ok c (snd (out_loop iv k n s))"
proof (induction iv k n s rule: out_loop.induct)
  case (1 iv n s)
  then show ?case by simp
next
  case (2 iv k n s)
  obtain m sa t where p: "out_pass iv s = (m, sa, t)" by (cases "out_pass iv s")
  with 2 out_pass_ok [OF 2(2) p] show ?case by simp
qed

lemma cb_output_ok: "conn_ok c s \<Longrightarrow> c \<le> full_cwnd \<Longrightarrow> conn_ok c (snd (cb_output iv s))"
  by (simp add: cb_output_def Let_def out_loop_ok slow_start_ok)

end
