(* ===== verification/Udt_Notify.thy ===== *)
theory Udt_Notify
  imports Udt_Output
begin

text \<open>
  The part of \<open>src/udt/udt_socket.cpp\<close> the control block calls back: delivery of received
  bytes to the waiting receive operations, \<open>on_readable\<close>, \<open>on_writable\<close>, \<open>on_connected\<close>,
  \<open>on_disconnected\<close> and \<open>cancel\<close>; and \<open>udt_cb::drop\<close>, which ends in a callback.
\<close>

section \<open>Delivery to receive operations\<close>

definition dispatch_recv_operation :: "recv_operation \<Rightarrow> udt_socket \<Rightarrow> bool \<times> udt_socket" where
  "dispatch_recv_operation ops s =
     (case copy (recv_buf ops) True (rcv_buf s) of
        (copied, bytes, rb) \<Rightarrow>
          let s = s\<lparr>rcv_buf := rb\<rparr>
          in if copied \<noteq> 0 \<or> is_error (get_lasterror s)
             then (True, emit (Post_io (recv_handler ops) (get_lasterror s) copied bytes) s)
             else (False, s))"

definition delay_recv_operation :: "udt_socket \<Rightarrow> udt_socket" where
  "delay_recv_operation s = emit Start_delay_timer s"

text \<open>The loop of \<open>recv_data\<close>: the operations left, whether one was completed, the state.\<close>

fun recv_loop :: "recv_operation list \<Rightarrow> bool \<Rightarrow> udt_socket \<Rightarrow> recv_operation list \<times> bool \<times> udt_socket" where
  "recv_loop [] out s = ([], out, s)"
| "recv_loop (ops # rest) out s =
     (if \<not> is_error (get_lasterror s) \<and> mbuf_size (recv_buf ops) > m_cc (rcv_buf s)
      then (ops # rest, out, delay_recv_operation s)
      else case dispatch_recv_operation ops s of
             (True, s) \<Rightarrow> recv_loop rest True s
           | (False, s) \<Rightarrow> (ops # rest, out, s))"

definition recv_data :: "indet \<Rightarrow> udt_socket \<Rightarrow> udt_socket" where
  "recv_data iv s =
     (if m_cc (rcv_buf s) = 0 \<and> \<not> is_error (get_lasterror s) then s
      else case recv_loop (recv_ops s) False s of
             (left, out, s) \<Rightarrow>
               let s = s\<lparr>recv_ops := left\<rparr>
               in if \<not> is_error (get_lasterror s) \<and> out then snd (cb_output iv s) else s)"

text \<open>The delay timer went off: deliver what there is. \<open>e\<close> is the timer's error code.\<close>

fun delayed_loop :: "recv_operation list \<Rightarrow> udt_socket \<Rightarrow> recv_operation list \<times> udt_socket" where
  "delayed_loop [] s = ([], s)"
| "delayed_loop (ops # rest) s =
     (case dispatch_recv_operation ops s of
        (True, s) \<Rightarrow> delayed_loop rest s
      | (False, s) \<Rightarrow> (ops # rest, s))"

definition handle_delay_recv_operation :: "error_code \<Rightarrow> udt_socket \<Rightarrow> udt_socket" where
  "handle_delay_recv_operation e s =
     (if e = asio_error Operation_aborted then s
      else case delayed_loop (recv_ops s) s of (left, s) \<Rightarrow> s\<lparr>recv_ops := left\<rparr>)"

section \<open>Callbacks\<close>

definition on_readable :: "indet \<Rightarrow> udt_socket \<Rightarrow> udt_socket" where
  "on_readable iv s = (if \<not> next_layer s then s else recv_data iv s)"

definition on_writable :: "indet \<Rightarrow> udt_socket \<Rightarrow> udt_socket" where
  "on_writable iv s =
     (if \<not> next_layer s then s
      else case consume_pending_data s of
             (consumed, s) \<Rightarrow> if consumed \<noteq> 0 then snd (cb_output iv s) else s)"

text \<open>\<open>do_probe_mtu\<close> calls through \<open>mtu_prober_\<close>: no result when the pointer is \<open>NULL\<close>.\<close>

definition do_probe_mtu :: "udt_socket \<Rightarrow> udt_socket option" where
  "do_probe_mtu s = (if mtu_prober s then Some (emit (Probe_mtu (peer_ep s)) s) else None)"

definition on_connected :: "udt_socket \<Rightarrow> udt_socket option" where
  "on_connected s =
     (if \<not> next_layer s then Some s
      else do {
        s \<leftarrow> (case connect_handler s of
                 Some h \<Rightarrow> Some ((emit (Post_connect h (get_lasterror s)) s)\<lparr>connect_handler := None\<rparr>)
               | None \<Rightarrow>
                   (case accept_handler s of
                      Some h \<Rightarrow> do_probe_mtu
                        ((emit (Post_accept h (get_lasterror s) (peer_ep s)) s)\<lparr>accept_handler := None\<rparr>)
                    | None \<Rightarrow> Some s));
        Some (s\<lparr>snd_buf := set_init_seq (m_snd_nxt s) (snd_buf s)\<rparr>)
      })"

definition cancel_next_layer :: "udt_socket \<Rightarrow> udt_socket" where
  "cancel_next_layer s =
     (let s = (if mtu_prober s then emit Cancel_mtu s else s);
          s = (if next_layer s then emit Cancel_layer s else s)
      in emit Cancel_delay_timer s)"

definition cancel :: "udt_socket \<Rightarrow> udt_socket" where
  "cancel s =
     (let s = cancel_next_layer s
      in s\<lparr>send_ops := [], recv_ops := [], accept_handler := None, connect_handler := None,
           shutdown_handler := None, pending_data := 0\<rparr>)"

fun post_all :: "send_operation list \<Rightarrow> error_code \<Rightarrow> udt_socket \<Rightarrow> udt_socket" where
  "post_all [] e s = s"
| "post_all (ops # rest) e s = post_all rest e (emit (Post_io (send_handler ops) e 0 []) s)"

definition on_disconnected :: "indet \<Rightarrow> udt_socket \<Rightarrow> udt_socket" where
  "on_disconnected iv s =
     (if \<not> next_layer s then s
      else let e = udt_error Disconnected;
               s = post_all (send_ops s) e s;
               s = recv_data iv s;
               s = (case connect_handler s of
                      Some h \<Rightarrow> emit (Post_connect h e) s
                    | None \<Rightarrow> (case accept_handler s of
                                 Some h \<Rightarrow> emit (Post_accept h e (peer_ep s)) s
                               | None \<Rightarrow> s));
               s = (case shutdown_handler s of Some h \<Rightarrow> emit (Post_shutdown h e) s | None \<Rightarrow> s)
           in cancel s)"

section \<open>Dropping the connection\<close>

definition cb_drop :: "indet \<Rightarrow> error_code \<Rightarrow> udt_socket \<Rightarrow> udt_socket" where
  "cb_drop iv e s =
     (let s = (if is_error e then s\<lparr>m_last_error := e\<rparr> else s);
          s = on_disconnected iv s
      in s\<lparr>m_state := TCPS_CLOSED\<rparr>)"

section \<open>The invariant through the callbacks\<close>

lemma copy_loop_cnt:
  assumes "copy_loop ps s n True = (k, out, rest)" and "sum_len ps < 2 ^ 32"
  shows "sum_len ps = unat k + sum_len rest"
  using assms
proof (induction ps arbitrary: s n k out rest)
  case Nil
  then show ?case by simp
next
  case (Cons p ps)
  show ?case
  proof (cases "n < ucast (plen p)")
    case True
    then have n: "unat n < unat (plen p)" by (simp add: word_less_nat_alt)
    then have "unat n < 2 ^ 16" using unat_u16_less [of "plen p"] by simp
    then have "unat (ucast n :: u16) = unat n" by (rule unat_ucast_32_16)
    then have "unat (plen (cut_front n p)) = unat (plen p) - unat n"
      using n by (simp add: cut_front_def unat_sub word_le_nat_alt)
    then show ?thesis using Cons.prems(1) True n by (auto simp: copy_loop_step)
  next
    case False
    obtain k' out' rest' where r: "copy_loop ps (s + ucast (plen p)) (n - ucast (plen p)) True = (k', out', rest')"
      by (cases "copy_loop ps (s + ucast (plen p)) (n - ucast (plen p)) True")
    have IH: "sum_len ps = unat k' + sum_len rest'" using Cons.IH [OF r] Cons.prems(2) by simp
    with Cons.prems(2) have "unat (ucast (plen p) + k') = unat (plen p) + unat k'"
      by (simp add: unat_word_ariths)
    with Cons.prems(1) False r IH show ?thesis by (auto simp: copy_loop_step split: if_splits)
  qed
qed

lemma copy_cnt:
  assumes "copy buf True b = (k, out, b')" and "buf_cnt b"
  shows "buf_cnt b' \<and> unat (m_cc b) = unat k + unat (m_cc b')"
proof (cases "m_pkts b = [] \<or> mbuf_size buf = 0 \<or> mbuf_null buf")
  case True
  with assms show ?thesis by (auto simp: copy_def)
next
  case False
  then obtain ps where l: "copy_loop (m_pkts b) (pseq (hd (m_pkts b))) (mbuf_size buf) True = (k, out, ps)"
    and b': "b' = b\<lparr>m_pkts := ps, m_cc := m_cc b - k\<rparr>"
    using assms(1) by (auto simp: copy_def split: prod.splits)
  have s: "sum_len (m_pkts b) = unat (m_cc b)" using assms(2) by (simp add: buf_cnt_def)
  have k: "unat (m_cc b) = unat k + sum_len ps"
    using copy_loop_cnt [OF l] s unat_u32_less [of "m_cc b"] by simp
  then have "k \<le> m_cc b" by (simp add: word_le_nat_alt)
  with k have "unat (m_cc b - k) = sum_len ps" by (simp add: unat_sub)
  with k assms(2) show ?thesis by (auto simp: buf_cnt_def b' word_le_nat_alt)
qed

lemma dispatch_ok: "conn_ok c s \<Longrightarrow> conn_ok c (snd (dispatch_recv_operation ops s))"
  using copy_cnt [OF _ conn_ok_rcv_cnt [of c s]]
  by (auto simp: dispatch_recv_operation_def Let_def conn_ok_rcv_buf split: prod.splits)

lemma recv_loop_ok: "conn_ok c s \<Longrightarrow> recv_loop ops b s = (ops', b', t) \<Longrightarrow> conn_ok c t"
proof (induction ops b s arbitrary: ops' b' t rule: recv_loop.induct)
  case (1 out s)
  then show ?case by simp
next
  case (2 ops rest out s)
  obtain d u where d: "dispatch_recv_operation ops s = (d, u)" by (cases "dispatch_recv_operation ops s")
  have "conn_ok c u" using dispatch_ok [OF 2(2), of ops] d by simp
  with 2 d show ?case by (auto simp: delay_recv_operation_def split: if_splits bool.splits)
qed

lemma recv_data_ok: "conn_ok c s \<Longrightarrow> c \<le> full_cwnd \<Longrightarrow> conn_ok c (recv_data iv s)"
  using recv_loop_ok by (auto simp: recv_data_def Let_def cb_output_ok split: prod.splits)

lemma delayed_loop_ok: "conn_ok c s \<Longrightarrow> delayed_loop ops s = (ops', t) \<Longrightarrow> conn_ok c t"
proof (induction ops s arbitrary: ops' t rule: delayed_loop.induct)
  case (1 s)
  then show ?case by simp
next
  case (2 ops rest s)
  obtain d u where d: "dispatch_recv_operation ops s = (d, u)" by (cases "dispatch_recv_operation ops s")
  have "conn_ok c u" using dispatch_ok [OF 2(2), of ops] d by simp
  with 2 d show ?case by (auto split: bool.splits)
qed

lemma handle_delay_ok: "conn_ok c s \<Longrightarrow> conn_ok c (handle_delay_recv_operation e s)"
  using delayed_loop_ok by (auto simp: handle_delay_recv_operation_def split: prod.splits)

lemma on_readable_ok: "conn_ok c s \<Longrightarrow> c \<le> full_cwnd \<Longrightarrow> conn_ok c (on_readable iv s)"
  by (simp add: on_readable_def recv_data_ok)

lemma on_writable_ok: "conn_ok c s \<Longrightarrow> c \<le> full_cwnd \<Longrightarrow> conn_ok c (on_writable iv s)"
proof -
  assume ok: "conn_ok c s" and c: "c \<le> full_cwnd"
  obtain n t where p: "consume_pending_data s = (n, t)" by (cases "consume_pending_data s")
  have "conn_ok c t" using consume_pending_data_ok [OF ok] p by simp
  with ok c p show ?thesis by (simp add: on_writable_def cb_output_ok)
qed

lemma do_probe_mtu_ok: "conn_ok c s \<Longrightarrow> do_probe_mtu s = Some t \<Longrightarrow> conn_ok c t"
  by (auto simp: do_probe_mtu_def split: if_splits)

lemma set_init_seq_ok: "conn_ok c s \<Longrightarrow> conn_ok c (s\<lparr>snd_buf := set_init_seq q (snd_buf s)\<rparr>)"
proof -
  assume ok: "conn_ok c s"
  have "buf_wf (set_init_seq q (snd_buf s))"
    using conn_ok_snd_wf [OF ok] by (simp add: buf_wf_def set_init_seq_def)
  with ok show ?thesis by (rule conn_ok_snd_buf)
qed

lemma on_connected_ok:
  assumes ok: "conn_ok c s" and run: "on_connected s = Some t"
  shows "conn_ok c t"
proof (cases "next_layer s")
  case False
  with ok run show ?thesis by (simp add: on_connected_def)
next
  case True
  then obtain u where u: "(case connect_handler s of
        Some h \<Rightarrow> Some ((emit (Post_connect h (get_lasterror s)) s)\<lparr>connect_handler := None\<rparr>)
      | None \<Rightarrow> (case accept_handler s of
          Some h \<Rightarrow> do_probe_mtu ((emit (Post_accept h (get_lasterror s) (peer_ep s)) s)\<lparr>accept_handler := None\<rparr>)
        | None \<Rightarrow> Some s)) = Some u"
    and t: "t = u\<lparr>snd_buf := set_init_seq (m_snd_nxt u) (snd_buf u)\<rparr>"
    using run by (auto simp: on_connected_def bind_eq_Some_conv)
  have "conn_ok c u"
    using u ok by (auto split: option.splits dest: do_probe_mtu_ok [of c, rotated])
  then show ?thesis unfolding t by (rule set_init_seq_ok)
qed

lemma cancel_next_layer_ok [simp]: "conn_ok c (cancel_next_layer s) = conn_ok c s"
  by (simp add: cancel_next_layer_def Let_def)

lemma cancel_ok: "conn_ok c s \<Longrightarrow> conn_ok c (cancel s)"
proof -
  assume "conn_ok c s"
  then have "conn_ok c (cancel_next_layer s)" by simp
  then show ?thesis
    unfolding cancel_def Let_def by (simp add: conn_ok_def timers_ok_def pending_ok_def ops_fit_def)
qed

lemma post_all_ok [simp]: "conn_ok c (post_all ops e s) = conn_ok c s"
  by (induction ops e s rule: post_all.induct) simp_all

lemma on_disconnected_ok: "conn_ok c s \<Longrightarrow> c \<le> full_cwnd \<Longrightarrow> conn_ok c (on_disconnected iv s)"
  by (simp add: on_disconnected_def Let_def cancel_ok recv_data_ok split: option.splits)

lemma cb_drop_ok: "conn_ok c s \<Longrightarrow> c \<le> full_cwnd \<Longrightarrow> conn_ok c (cb_drop iv e s)"
  by (simp add: cb_drop_def Let_def on_disconnected_ok)

end
