(* ===== verification/Udt_Input.thy ===== *)
theory Udt_Input
  imports Udt_Notify
begin

text \<open>
  \<open>src/udt/udt_cb_input.cpp\<close>: what a received datagram does to the connection. The functions
  are in the order of the file, \<open>cb_input\<close> last. A function with no result stands for a
  crash or for an access outside the option area of the header (a SACK option that claims
  more pairs than the header holds makes the code read and byte-swap memory behind it).
  The build modelled is the release build, where \<open>BOOST_ASSERT\<close> does nothing.
\<close>

section \<open>Reassembly\<close>

fun merge_loop :: "udt_packet list \<Rightarrow> udt_socket \<Rightarrow> udt_packet list \<times> udt_socket" where
  "merge_loop [] s = ([], s)"
| "merge_loop (p # ps) s =
     (if pseq p = m_rcv_nxt s
      then case append_pkt p (rcv_buf s) of
             (True, rb) \<Rightarrow> merge_loop ps (s\<lparr>rcv_buf := rb, m_rcv_nxt := m_rcv_nxt s + ucast (plen p)\<rparr>)
           | (False, _) \<Rightarrow> (p # ps, s)
      else (p # ps, s))"

definition merge_reasm_pkts :: "udt_socket \<Rightarrow> udt_socket" where
  "merge_reasm_pkts s =
     (let old_rcv_nxt = m_rcv_nxt s
      in case merge_loop (m_reasm_pkts (rcv_buf s)) s of
           (rest, s) \<Rightarrow>
             let s = (if old_rcv_nxt \<noteq> m_rcv_nxt s then set_flags TF_NOTIFY_READ s else s)
             in s\<lparr>rcv_buf := (rcv_buf s)\<lparr>m_reasm_pkts := rest\<rparr>\<rparr>)"

text \<open>Insertion before the first packet that is not earlier; none for a duplicate.\<close>

fun reasm_insert :: "udt_packet \<Rightarrow> udt_packet list \<Rightarrow> udt_packet list option" where
  "reasm_insert pkt [] = Some [pkt]"
| "reasm_insert pkt (q # qs) =
     (if seq_lt (pseq q) (pseq pkt) then map_option ((#) q) (reasm_insert pkt qs)
      else if pseq q = pseq pkt then None
      else Some (pkt # q # qs))"

definition tcp_reass :: "udt_packet \<Rightarrow> udt_socket \<Rightarrow> udt_socket" where
  "tcp_reass pkt s =
     (case reasm_insert pkt (m_reasm_pkts (rcv_buf s)) of
        None \<Rightarrow> s
      | Some q \<Rightarrow> merge_reasm_pkts (set_flags TF_PACKET_CONSUMED (s\<lparr>rcv_buf := (rcv_buf s)\<lparr>m_reasm_pkts := q\<rparr>\<rparr>)))"

definition TCP_REASS :: "udt_packet \<Rightarrow> udt_socket \<Rightarrow> udt_socket" where
  "TCP_REASS pkt s =
     (if pseq pkt = m_rcv_nxt s \<and> m_reasm_pkts (rcv_buf s) = []
      then case append_pkt pkt (rcv_buf s) of
             (False, _) \<Rightarrow> s
           | (True, rb) \<Rightarrow>
               let s = s\<lparr>rcv_buf := rb, m_rcv_nxt := m_rcv_nxt s + ucast (plen pkt)\<rparr>;
                   s = set_flags (TF_DELACK OR TF_PACKET_CONSUMED) s
               in if plen pkt \<noteq> 0 then set_flags TF_NOTIFY_READ s else s
      else set_flags TF_ACKNOW (tcp_reass pkt s))"

section \<open>Acknowledged data\<close>

text \<open>\<open>drop_snd_pkt\<close> for the iterator at \<open>p\<close> in \<open>pre @ p # suf\<close>.\<close>

definition drop_snd_pkt :: "udt_packet list \<Rightarrow> udt_packet \<Rightarrow> udt_packet list \<Rightarrow> udt_socket \<Rightarrow> udt_socket" where
  "drop_snd_pkt pre p suf s =
     (let s = (if has_rexmt (pflags p) then s\<lparr>m_retrans_data := m_retrans_data s - ucast (plen p)\<rparr> else s)
      in s\<lparr>snd_buf := drop_at pre p suf (snd_buf s)\<rparr>)"

fun drop_acked_loop :: "udt_seq \<Rightarrow> udt_packet list \<Rightarrow> u32 \<Rightarrow> udt_socket \<Rightarrow> u32 \<times> udt_socket" where
  "drop_acked_loop ack [] dropped s = (dropped, s)"
| "drop_acked_loop ack (p # ps) dropped s =
     (if seq_ge (pseq p) ack then (dropped, s)
      else drop_acked_loop ack ps (dropped + ucast (plen p)) (drop_snd_pkt [] p ps s))"

definition drop_acked_data :: "udt_seq \<Rightarrow> udt_socket \<Rightarrow> u32 \<times> udt_socket" where
  "drop_acked_data ack s =
     (case drop_acked_loop ack (m_pkts (snd_buf s)) 0 s of
        (dropped, s) \<Rightarrow> (dropped, update_snd_una ack s))"

section \<open>Header prediction\<close>

text \<open>The fast path: whether it took the packet, and the state.\<close>

definition do_header_prediction :: "indet \<Rightarrow> udt_packet \<Rightarrow> udt_socket \<Rightarrow> bool \<times> udt_socket" where
  "do_header_prediction iv pkt s =
     (let ti = hdr pkt;
          tiwin = ucast (uh_win ti) :: u32
      in if m_state s = TCPS_ESTABLISHED \<and>
            uh_flags ti AND (TH_SYN OR TH_FIN OR TH_RST OR TH_ACK) = TH_ACK \<and>
            uh_seq ti = m_rcv_nxt s \<and> tiwin \<noteq> 0 \<and> tiwin = m_snd_wnd s \<and> m_snd_nxt s = m_snd_max s
         then if uh_len ti = 0
              then if seq_gt (uh_ack ti) (m_snd_una s) \<and> seq_le (uh_ack ti) (m_snd_max s) \<and> is_cwnd_full_open s
                   then let s = snd (drop_acked_data (uh_ack ti) s);
                            s = reset_rexmt_timer s;
                            s = set_flags TF_NOTIFY_WRITE s
                        in (True, if m_cc (snd_buf s) \<noteq> 0 then snd (cb_output iv s) else s)
                   else (False, s)
              else if uh_ack ti = m_snd_una s \<and> m_reasm_pkts (rcv_buf s) = [] \<and> ucast (uh_len ti) \<le> acc (rcv_buf s)
              then case append_pkt pkt (rcv_buf s) of
                     (False, _) \<Rightarrow> (False, set_flags (TF_ACKNOW OR TF_NOTIFY_READ) s)
                   | (True, rb) \<Rightarrow>
                       (True, set_flags (TF_DELACK OR TF_NOTIFY_READ OR TF_PACKET_CONSUMED)
                                (s\<lparr>rcv_buf := rb, m_rcv_nxt := m_rcv_nxt s + ucast (uh_len ti)\<rparr>))
              else (False, s)
         else (False, s))"

section \<open>The receive window\<close>

definition drop_out_of_rcv_wnd_packet :: "udt_packet \<Rightarrow> udt_socket \<Rightarrow> bool \<times> udt_socket" where
  "drop_out_of_rcv_wnd_packet pkt s =
     (let ti = hdr pkt;
          win = sint (acc (rcv_buf s));
          win = (if win < 0 then 0 else win);
          s = s\<lparr>m_rcv_wnd := word_of_int (max win (sint (m_rcv_adv s - m_rcv_nxt s)))\<rparr>;
          todrop = sint (m_rcv_nxt s - uh_seq ti);
          todrop = (if has_flag (uh_flags ti) TH_SYN then to_i32 (todrop - 1) else todrop)
      in if todrop > 0 then (True, set_flags TF_ACKNOW s)
         else let todrop = sint ((uh_seq ti + ucast (uh_len ti)) - (m_rcv_nxt s + m_rcv_wnd s))
              in if todrop > 0 then (True, set_flags TF_ACKNOW s) else (False, s))"

section \<open>SYN\<close>

text \<open>Whether to stop, the packet with its sequence number moved past the SYN, the state.\<close>

definition handle_syn :: "udt_packet \<Rightarrow> udt_socket \<Rightarrow> bool \<times> udt_packet \<times> udt_socket" where
  "handle_syn pkt s =
     (let pkt = pkt\<lparr>hdr := (hdr pkt)\<lparr>uh_seq := uh_seq (hdr pkt) + 1\<rparr>\<rparr>;
          ti = hdr pkt;
          s = set_flags TF_ACKNOW s;
          s = s\<lparr>m_snd_wnd := ucast (uh_win ti), m_snd_wl1 := uh_seq ti - 1, m_snd_wl2 := uh_ack ti - 1\<rparr>;
          s = (if m_state s = TCPS_LISTEN then tcp_sendseqinit (s\<lparr>m_iss := s_iss\<rparr>) else s)
      in if m_state s = TCPS_LISTEN \<or> m_state s = TCPS_SYN_SENT \<or> m_state s = TCPS_SYN_RECEIVED
         then let s = tcp_rcvseqinit (s\<lparr>m_irs := uh_seq ti\<rparr>);
                  s = s\<lparr>m_state := TCPS_SYN_RECEIVED\<rparr>
              in (False, pkt, set_timer TCPT_KEEP TCPTV_KEEP_INIT s)
         else if m_state s = TCPS_ESTABLISHED
         then (False, pkt, set_timer TCPT_KEEP TCPTV_KEEP_INIT s)
         else (True, pkt, s))"

section \<open>Fast retransmit\<close>

definition can_fast_rexmt :: "udt_socket \<Rightarrow> bool" where
  "can_fast_rexmt s \<longleftrightarrow> m_dupacks s = s_tcprexmtthresh"

definition do_fast_rexmt :: "indet \<Rightarrow> u32 \<Rightarrow> udt_seq \<Rightarrow> udt_socket \<Rightarrow> udt_socket" where
  "do_fast_rexmt iv tick_count ack s =
     (let old_nxt = m_snd_nxt s;
          s = handle_packet_lost tick_count s;
          old_snd_cwnd = m_snd_cwnd s;
          s = set_timer TCPT_REXMT 0 s;
          s = s\<lparr>m_snd_nxt := ack\<rparr>;
          s = s\<lparr>m_snd_cwnd := bytes_inflight s + ucast (m_maxseg s)\<rparr>;
          s = validate_first_pkt s;
          s = snd (cb_output iv s)
      in s\<lparr>m_snd_cwnd := old_snd_cwnd, m_snd_nxt := old_nxt\<rparr>)"

section \<open>State changes on an acknowledgement of everything sent\<close>

definition update_ack_state :: "udt_socket \<Rightarrow> udt_socket option" where
  "update_ack_state s = do {
     s \<leftarrow> (case m_state s of
             TCPS_SYN_SENT \<Rightarrow> Some (set_flags TF_ACKNOW (s\<lparr>m_state := TCPS_SYN_RECEIVED\<rparr>))
           | TCPS_SYN_RECEIVED \<Rightarrow>
               (let s = s\<lparr>m_state := TCPS_ESTABLISHED\<rparr>;
                    s = (if m_rtt s \<noteq> 0 then xmit_timer (m_rtt s) s else s)
                in on_connected s)
           | _ \<Rightarrow> Some s);
     Some (if flag s TF_SENTFIN
           then (case m_state s of
                   TCPS_FIN_WAIT_1 \<Rightarrow> s\<lparr>m_state := TCPS_FIN_WAIT_2\<rparr>
                 | TCPS_CLOSING \<Rightarrow>
                     set_flags TF_NOTIFY_DROP
                       (set_timer TCPT_2MSL (2 * TCPTV_MSL) (canceltimers (s\<lparr>m_state := TCPS_TIME_WAIT\<rparr>)))
                 | TCPS_LAST_ACK \<Rightarrow> set_flags TF_NOTIFY_DROP (s\<lparr>m_state := TCPS_CLOSED\<rparr>)
                 | _ \<Rightarrow> s)
           else s)
   }"

section \<open>Notifications\<close>

definition commit_notifies :: "indet \<Rightarrow> udt_socket \<Rightarrow> udt_socket" where
  "commit_notifies iv s =
     (let s = (if flag s (TF_ACKNOW OR TF_NEED_OUTPUT) then snd (cb_output iv s) else s);
          s = (if flag s TF_NEED_RESET then clear_flags TF_NEED_RESET (reset_peer s) else s);
          s = (if flag s TF_NOTIFY_READ
               then clear_flags TF_NOTIFY_READ
                      (if above_lowat (rcv_buf s) \<or> TCPS_HAVERCVDFIN s then on_readable iv s else s)
               else s);
          s = (if flag s TF_NOTIFY_WRITE then clear_flags TF_NOTIFY_WRITE (on_writable iv s) else s)
      in if flag s TF_NOTIFY_DROP then clear_flags TF_NOTIFY_DROP (cb_drop iv (m_last_error s) s) else s)"

definition pkt_consumed :: "udt_socket \<Rightarrow> bool \<times> udt_socket" where
  "pkt_consumed s =
     (if flag s TF_PACKET_CONSUMED then (True, clear_flags TF_PACKET_CONSUMED s) else (False, s))"

section \<open>Options\<close>

text \<open>
  The loops over one block \<open>[begin_seq, end_seq)\<close>: the iterator is at the head of \<open>suf\<close>, and
  \<open>pre\<close> is what it passed. The result tells whether the iterator met the end of the list.
\<close>

fun sack_block :: "udt_seq \<Rightarrow> udt_seq \<Rightarrow> udt_packet list \<Rightarrow> udt_packet list \<Rightarrow> udt_socket \<Rightarrow>
    bool \<times> udt_packet list \<times> udt_packet list \<times> udt_socket" where
  "sack_block begin_seq end_seq pre [] s = (True, pre, [], s)"
| "sack_block begin_seq end_seq pre (p # ps) s =
     (if seq_lt (pseq p) begin_seq then sack_block begin_seq end_seq (pre @ [p]) ps s
      else if seq_le (pend p) end_seq then sack_block begin_seq end_seq pre ps (drop_snd_pkt pre p ps s)
      else (False, pre, p # ps, s))"

text \<open>The loop over the pairs, from the last one (the lowest block) to the first.\<close>

fun sack_blocks :: "pair_seq list \<Rightarrow> udt_packet list \<Rightarrow> udt_packet list \<Rightarrow> udt_socket \<Rightarrow> udt_socket" where
  "sack_blocks [] pre suf s = s"
| "sack_blocks (pr # prs) pre suf s =
     (case sack_block (fst pr) (snd pr) pre suf s of
        (True, _, _, s) \<Rightarrow> s
      | (False, pre, suf, s) \<Rightarrow> sack_blocks prs pre suf s)"

definition handle_option_sack :: "udt_option_sack \<Rightarrow> udt_socket \<Rightarrow> nat \<times> udt_socket" where
  "handle_option_sack opt_sack s =
     (case pair_seqs opt_sack of
        [] \<Rightarrow> (sizeof_udt_option, s)
      | pr # prs \<Rightarrow>
          (let s = update_snd_fack (snd pr) s
           in (sizeof_udt_option + sizeof_pair_seq * length (pr # prs),
               sack_blocks (rev (pr # prs)) [] (m_pkts (snd_buf s)) s)))"

definition handle_option_cwnd :: "udt_option_cwnd \<Rightarrow> udt_socket \<Rightarrow> nat \<times> udt_socket" where
  "handle_option_cwnd opt_cwnd s = (sizeof_udt_option_cwnd, s\<lparr>m_pcwnd := cwnd_val opt_cwnd\<rparr>)"

function handle_options :: "u8 list \<Rightarrow> udt_socket \<Rightarrow> udt_socket option" where
  "handle_options b s =
     (case b of
        k # l # rest \<Rightarrow>
          if k = TCPOPT_SACK
          then (case sack_of_mem b of
                  None \<Rightarrow> None
                | Some opt_sack \<Rightarrow>
                    (case handle_option_sack (sack_ntoh opt_sack) s of
                       (consumed, s) \<Rightarrow> handle_options (drop (consumed - 2) rest) s))
          else if k = TCPOPT_CWND
          then (case cwnd_of_mem b of
                  None \<Rightarrow> None
                | Some opt_cwnd \<Rightarrow>
                    (case handle_option_cwnd (opt_cwnd\<lparr>cwnd_val := bswap32 (cwnd_val opt_cwnd)\<rparr>) s of
                       (consumed, s) \<Rightarrow> handle_options (drop (consumed - 2) rest) s))
          else if k = TCPOPT_NOP then handle_options rest s
          else Some s
      | _ \<Rightarrow> Some s)"
  by pat_completeness auto
termination
  by (relation "measure (\<lambda>(b, s). length b)") auto

declare handle_options.simps [simp del]

section \<open>Acknowledgements\<close>

text \<open>
  The three parts of \<open>handle_ack\<close> behind its checks. Each tells whether to stop, and the
  state: an acknowledgement that repeats \<open>m_snd_una\<close>, one that acknowledges new data, and
  the choice between them.
\<close>

definition handle_same_ack :: "indet \<Rightarrow> u32 \<Rightarrow> udt_seq \<Rightarrow> u32 \<Rightarrow> udt_socket \<Rightarrow> bool \<times> udt_socket" where
  "handle_same_ack iv tick_count tiack tiwin s =
     (if tiwin \<noteq> m_snd_wnd s
      then (False, reset_rexmt_timer (set_flags TF_NEED_OUTPUT (update_snd_wnd tiwin s)))
      else let s = s\<lparr>m_dupacks := to_i16 (m_dupacks s + 1)\<rparr>
           in if m_timers s TCPT_REXMT = 0 then (False, reset_rexmt_timer (s\<lparr>m_dupacks := 0\<rparr>))
              else if can_fast_rexmt s then (True, do_fast_rexmt iv tick_count tiack (s\<lparr>m_rtt := 0\<rparr>))
              else if m_dupacks s > s_tcprexmtthresh then (True, set_flags TF_NEED_OUTPUT s)
              else (False, reset_rexmt_timer s))"

definition handle_new_ack :: "udt_seq \<Rightarrow> u32 \<Rightarrow> udt_socket \<Rightarrow> (bool \<times> udt_socket) option" where
  "handle_new_ack tiack tiwin s = do {
     s \<leftarrow> incr_snd_cwnd (set_flags TF_NOTIFY_WRITE s);
     let s = s\<lparr>m_dupacks := 0\<rparr>;
     let s = snd (drop_acked_data tiack s);
     let s = update_snd_wnd tiwin s;
     Some (False, reset_rexmt_timer (set_flags TF_NEED_OUTPUT s))
   }"

definition handle_valid_ack :: "indet \<Rightarrow> u32 \<Rightarrow> udt_packet \<Rightarrow> udt_socket \<Rightarrow> (bool \<times> udt_socket) option" where
  "handle_valid_ack iv tick_count pkt s =
     (let ti = hdr pkt;
          tiack = uh_ack ti;
          tiwin = ucast (uh_win ti) :: u32
      in do {
        s \<leftarrow> (if is_max_ack tiack s then update_ack_state s else Some s);
        s \<leftarrow> (if unat (uh_off ti) > sizeof_udt_hdr
                then handle_options (take (unat (uh_off ti) - sizeof_udt_hdr) (body pkt)) s
                else Some s);
        if tiack = m_snd_una s then Some (handle_same_ack iv tick_count tiack tiwin s)
        else handle_new_ack tiack tiwin s
      })"

text \<open>Whether to stop, and the state; no result when the options or \<open>incr_snd_cwnd\<close> have none.\<close>

definition handle_ack :: "indet \<Rightarrow> u32 \<Rightarrow> udt_packet \<Rightarrow> udt_socket \<Rightarrow> (bool \<times> udt_socket) option" where
  "handle_ack iv tick_count pkt s =
     (let tiack = uh_ack (hdr pkt)
      in if is_old_ack tiack s then Some (True, s)
         else if seq_gt tiack (m_snd_max s)
         then Some (True, set_flags (TF_NOTIFY_DROP OR TF_NEED_RESET) (s\<lparr>m_last_error := udt_error Malformed_packet\<rparr>))
         else handle_valid_ack iv tick_count pkt s)"

section \<open>FIN\<close>

definition handle_fin :: "udt_socket \<Rightarrow> udt_socket" where
  "handle_fin s =
     (let s = (if \<not> TCPS_HAVERCVDFIN s
               then (set_flags (TF_ACKNOW OR TF_NOTIFY_READ) (s\<lparr>m_rcv_nxt := m_rcv_nxt s + 1\<rparr>))
                      \<lparr>m_last_error := udt_error Eof\<rparr>
               else s)
      in if m_state s = TCPS_ESTABLISHED \<or> m_state s = TCPS_CLOSE_WAIT
         then s\<lparr>m_state := TCPS_CLOSE_WAIT\<rparr>
         else if m_state s = TCPS_FIN_WAIT_1 \<or> m_state s = TCPS_CLOSING
         then s\<lparr>m_state := TCPS_CLOSING\<rparr>
         else if m_state s = TCPS_FIN_WAIT_2 \<or> m_state s = TCPS_TIME_WAIT
         then set_flags TF_NOTIFY_DROP (set_timer TCPT_2MSL (2 * TCPTV_MSL) (s\<lparr>m_state := TCPS_TIME_WAIT\<rparr>))
         else s)"

section \<open>Input\<close>

text \<open>
  The part of \<open>input\<close> between the checks of the datagram and \<open>the_end\<close>: data, acknowledgement
  and FIN of an acceptable segment, then the segment with the checks before.
\<close>

definition input_data :: "indet \<Rightarrow> u32 \<Rightarrow> udt_packet \<Rightarrow> udt_socket \<Rightarrow> udt_socket option" where
  "input_data iv tick_count pkt s =
     (let s = (if plen pkt \<noteq> 0 \<or> has_flag (pflags pkt) (TH_SYN OR TH_FIN) then TCP_REASS pkt s else s);
          fin = buf_fin (rcv_buf s)
      in do {
        (stop, s) \<leftarrow> (if has_flag (pflags pkt) TH_ACK then handle_ack iv tick_count pkt s else Some (False, s));
        Some (if \<not> stop \<and> fin then handle_fin s else s)
      })"

definition input_segment :: "indet \<Rightarrow> u32 \<Rightarrow> udt_packet \<Rightarrow> udt_socket \<Rightarrow> udt_socket option" where
  "input_segment iv tick_count pkt s =
     (if m_state s = TCPS_CLOSED
      then Some (if \<not> has_rst (pflags pkt)
                 then set_flags (TF_NOTIFY_DROP OR TF_NEED_RESET) (s\<lparr>m_last_error := udt_error Connection_reset\<rparr>)
                 else s)
      else if has_flag (pflags pkt) TH_RST
      then Some (set_flags TF_NOTIFY_DROP (s\<lparr>m_last_error := udt_error Connection_reset\<rparr>))
      else case drop_out_of_rcv_wnd_packet pkt s of
        (True, s) \<Rightarrow> Some s
      | (False, s) \<Rightarrow>
        (case do_header_prediction iv pkt s of
          (True, s) \<Rightarrow> Some s
        | (False, s) \<Rightarrow>
          (case (if has_flag (pflags pkt) TH_SYN then handle_syn pkt s else (False, pkt, s)) of
            (True, pkt, s) \<Rightarrow> Some s
          | (False, pkt, s) \<Rightarrow> input_data iv tick_count pkt s)))"

definition cb_input :: "indet \<Rightarrow> u32 \<Rightarrow> u8 list \<Rightarrow> udt_socket \<Rightarrow> (bool \<times> udt_socket) option" where
  "cb_input iv tick_count bytes s =
     (if length bytes < sizeof_udt_hdr then Some (False, s)
      else let pkt = pkt_of_mem bytes in
      if has_hp (pflags pkt) then Some (False, s)
      else let pkt = pkt\<lparr>hdr := ntoh (hdr pkt)\<rparr> in
      if unat (plen pkt) + unat (uh_off (hdr pkt)) \<noteq> length bytes then Some (False, s)
      else let s = s\<lparr>m_pseq := pseq pkt, m_idle := 0\<rparr>;
               s = set_timer TCPT_KEEP s_keepidle s;
               s = update_rtt (uh_pseq (hdr pkt)) s
      in do {
        s \<leftarrow> input_segment iv tick_count pkt s;
        Some (pkt_consumed (commit_notifies iv s))
      })"

section \<open>The invariant through input\<close>

lemma append_pkt_cnt: "append_pkt p b = (True, b') \<Longrightarrow> buf_cnt b \<Longrightarrow> buf_cnt b'"
proof -
  assume a: "append_pkt p b = (True, b')" and c: "buf_cnt b"
  note f = append_pkt_cc [OF a]
  have "m_cc b \<le> m_hiwat b" using c by (simp add: buf_cnt_def)
  from cc_plus [OF this f(5)] f(1-3) c show ?thesis by (simp add: buf_cnt_def)
qed

lemma buf_cnt_reasm [simp]: "buf_cnt (b\<lparr>m_reasm_pkts := q\<rparr>) = buf_cnt b"
  by (simp add: buf_cnt_def)

lemma merge_loop_ok: "conn_ok c s \<Longrightarrow> merge_loop ps s = (rest, t) \<Longrightarrow> conn_ok c t"
proof (induction ps s arbitrary: rest t rule: merge_loop.induct)
  case (1 s)
  then show ?case by simp
next
  case (2 p ps s)
  show ?case
  proof (cases "pseq p = m_rcv_nxt s \<and> fst (append_pkt p (rcv_buf s))")
    case False
    with 2 show ?thesis by (auto split: if_splits bool.splits prod.splits)
  next
    case True
    then obtain rb where rb: "append_pkt p (rcv_buf s) = (True, rb)" by (cases "append_pkt p (rcv_buf s)") auto
    have "buf_cnt rb" by (rule append_pkt_cnt [OF rb conn_ok_rcv_cnt [OF 2(2)]])
    then have "conn_ok c (s\<lparr>rcv_buf := rb, m_rcv_nxt := m_rcv_nxt s + ucast (plen p)\<rparr>)"
      using 2(2) by (simp add: conn_ok_rcv_buf)
    from 2(1) [OF _ rb [symmetric] _ this] 2(3) True rb show ?thesis by simp
  qed
qed

lemma conn_ok_reasm: "conn_ok c s \<Longrightarrow> conn_ok c (s\<lparr>rcv_buf := (rcv_buf s)\<lparr>m_reasm_pkts := q\<rparr>\<rparr>)"
  by (simp add: conn_ok_rcv_buf conn_ok_rcv_cnt)

lemma merge_reasm_pkts_ok: "conn_ok c s \<Longrightarrow> conn_ok c (merge_reasm_pkts s)"
proof -
  assume ok: "conn_ok c s"
  obtain rest t where m: "merge_loop (m_reasm_pkts (rcv_buf s)) s = (rest, t)"
    by (cases "merge_loop (m_reasm_pkts (rcv_buf s)) s")
  have "conn_ok c t" by (rule merge_loop_ok [OF ok m])
  then show ?thesis by (simp add: merge_reasm_pkts_def m Let_def conn_ok_reasm)
qed

lemma tcp_reass_ok: "conn_ok c s \<Longrightarrow> conn_ok c (tcp_reass pkt s)"
  by (simp add: tcp_reass_def merge_reasm_pkts_ok conn_ok_reasm split: option.splits)

lemma TCP_REASS_ok: "conn_ok c s \<Longrightarrow> conn_ok c (TCP_REASS pkt s)"
proof -
  assume ok: "conn_ok c s"
  obtain b rb where a: "append_pkt pkt (rcv_buf s) = (b, rb)" by (cases "append_pkt pkt (rcv_buf s)")
  have "b \<Longrightarrow> conn_ok c (s\<lparr>rcv_buf := rb\<rparr>)"
    using append_pkt_cnt [OF _ conn_ok_rcv_cnt [OF ok]] a ok by (simp add: conn_ok_rcv_buf)
  then show ?thesis
    using ok a by (simp add: TCP_REASS_def Let_def tcp_reass_ok split: bool.splits)
qed

lemma drop_snd_pkt_ok:
  "conn_ok c s \<Longrightarrow> m_pkts (snd_buf s) = pre @ p # suf \<Longrightarrow> conn_ok c (drop_snd_pkt pre p suf s)"
  using drop_at_wf [of "snd_buf s" pre p suf] conn_ok_snd_wf [of c s]
  by (auto simp: drop_snd_pkt_def Let_def intro!: conn_ok_snd_buf)

lemma drop_snd_pkt_pkts [simp]: "m_pkts (snd_buf (drop_snd_pkt pre p suf s)) = pre @ suf"
  by (simp add: drop_snd_pkt_def Let_def)

lemma drop_acked_loop_ok:
  "conn_ok c s \<Longrightarrow> m_pkts (snd_buf s) = ps \<Longrightarrow> conn_ok c (snd (drop_acked_loop ack ps n s))"
proof (induction ack ps n s rule: drop_acked_loop.induct)
  case (1 ack n s)
  then show ?case by simp
next
  case (2 ack p ps n s)
  then show ?case using drop_snd_pkt_ok [of c s "[]" p ps] by simp
qed

lemma drop_acked_data_ok: "conn_ok c s \<Longrightarrow> conn_ok c (snd (drop_acked_data ack s))"
proof -
  assume ok: "conn_ok c s"
  obtain n t where l: "drop_acked_loop ack (m_pkts (snd_buf s)) 0 s = (n, t)"
    by (cases "drop_acked_loop ack (m_pkts (snd_buf s)) 0 s")
  have "conn_ok c t" using drop_acked_loop_ok [OF ok refl, of ack 0] l by simp
  then show ?thesis by (simp add: drop_acked_data_def l update_snd_ok)
qed

lemma do_header_prediction_ok:
  "conn_ok c s \<Longrightarrow> c \<le> full_cwnd \<Longrightarrow> conn_ok c (snd (do_header_prediction iv pkt s))"
proof -
  assume ok: "conn_ok c s" and c: "c \<le> full_cwnd"
  obtain b rb where a: "append_pkt pkt (rcv_buf s) = (b, rb)" by (cases "append_pkt pkt (rcv_buf s)")
  have "b \<Longrightarrow> conn_ok c (s\<lparr>rcv_buf := rb\<rparr>)"
    using append_pkt_cnt [OF _ conn_ok_rcv_cnt [OF ok]] a ok by (simp add: conn_ok_rcv_buf)
  with ok c a show ?thesis
    unfolding do_header_prediction_def Let_def
    by (simp add: cb_output_ok reset_rexmt_timer_ok drop_acked_data_ok split: bool.splits)
qed

lemma drop_out_of_rcv_wnd_packet_ok: "conn_ok c s \<Longrightarrow> conn_ok c (snd (drop_out_of_rcv_wnd_packet pkt s))"
  by (simp add: drop_out_of_rcv_wnd_packet_def Let_def)

lemma keep_init_ok: "conn_ok c s \<Longrightarrow> conn_ok c (set_timer TCPT_KEEP TCPTV_KEEP_INIT s)"
    "conn_ok c s \<Longrightarrow> conn_ok c (set_timer TCPT_KEEP s_keepidle s)"
    "conn_ok c s \<Longrightarrow> conn_ok c (set_timer TCPT_KEEP s_keepintvl s)"
    "conn_ok c s \<Longrightarrow> conn_ok c (set_timer TCPT_2MSL (2 * TCPTV_MSL) s)"
  by (simp_all add: set_timer_ok udt_const)

lemma handle_syn_ok: "conn_ok c s \<Longrightarrow> conn_ok c (snd (snd (handle_syn pkt s)))"
  by (simp add: handle_syn_def Let_def keep_init_ok tcp_seqinit_ok)

lemma do_fast_rexmt_ok: "conn_ok full_cwnd s \<Longrightarrow> conn_ok full_cwnd (do_fast_rexmt iv tick ack s)"
proof -
  assume ok: "conn_ok full_cwnd s"
  define u where "u = set_timer TCPT_REXMT 0 (handle_packet_lost tick s)\<lparr>m_snd_nxt := ack\<rparr>"
  have h: "conn_ok full_cwnd (handle_packet_lost tick s)" by (rule handle_packet_lost_ok [OF ok])
  then have u: "conn_ok full_cwnd u" by (simp add: u_def clear_timer_ok)
  have "unat (ucast (m_maxseg u) :: u32) = 918" using u by (simp add: conn_ok_def udt_const)
  then have "unat (bytes_inflight u + ucast (m_maxseg u)) < full_cwnd + 2 ^ 31"
    using bytes_inflight_less [of u] by (simp add: unat_word_ariths udt_const)
  then have "conn_ok 0 (u\<lparr>m_snd_cwnd := bytes_inflight u + ucast (m_maxseg u)\<rparr>)"
    by (intro conn_ok_cwnd [OF u]) simp_all
  then have v: "conn_ok 0 (snd (cb_output iv (validate_first_pkt (u\<lparr>m_snd_cwnd := bytes_inflight u + ucast (m_maxseg u)\<rparr>))))"
    by (simp add: cb_output_ok validate_first_pkt_ok)
  have "conn_ok full_cwnd (snd (cb_output iv (validate_first_pkt (u\<lparr>m_snd_cwnd := bytes_inflight u + ucast (m_maxseg u)\<rparr>)))
      \<lparr>m_snd_cwnd := m_snd_cwnd (handle_packet_lost tick s)\<rparr>)"
    by (rule conn_ok_cwnd [OF v]) (use h in \<open>simp_all add: conn_ok_def\<close>)
  then show ?thesis by (simp add: do_fast_rexmt_def Let_def u_def)
qed

lemma update_ack_state_ok: "conn_ok c s \<Longrightarrow> update_ack_state s = Some t \<Longrightarrow> conn_ok c t"
proof -
  assume ok: "conn_ok c s" and run: "update_ack_state s = Some t"
  then obtain u where u: "(case m_state s of
        TCPS_SYN_SENT \<Rightarrow> Some (set_flags TF_ACKNOW (s\<lparr>m_state := TCPS_SYN_RECEIVED\<rparr>))
      | TCPS_SYN_RECEIVED \<Rightarrow>
          (let s = s\<lparr>m_state := TCPS_ESTABLISHED\<rparr>;
               s = (if m_rtt s \<noteq> 0 then xmit_timer (m_rtt s) s else s)
           in on_connected s)
      | _ \<Rightarrow> Some s) = Some u"
    and t: "t = (if flag u TF_SENTFIN
           then (case m_state u of
                   TCPS_FIN_WAIT_1 \<Rightarrow> u\<lparr>m_state := TCPS_FIN_WAIT_2\<rparr>
                 | TCPS_CLOSING \<Rightarrow>
                     set_flags TF_NOTIFY_DROP
                       (set_timer TCPT_2MSL (2 * TCPTV_MSL) (canceltimers (u\<lparr>m_state := TCPS_TIME_WAIT\<rparr>)))
                 | TCPS_LAST_ACK \<Rightarrow> set_flags TF_NOTIFY_DROP (u\<lparr>m_state := TCPS_CLOSED\<rparr>)
                 | _ \<Rightarrow> u)
           else u)"
    unfolding update_ack_state_def bind_eq_Some_conv by auto
  have "conn_ok c u"
    using u ok by (cases "m_state s")
      (auto simp: Let_def xmit_timer_ok split: if_splits elim: on_connected_ok [rotated])
  then show ?thesis unfolding t by (cases "m_state u") (simp_all add: keep_init_ok canceltimers_ok)
qed

lemma commit_notifies_ok: "conn_ok c s \<Longrightarrow> c \<le> full_cwnd \<Longrightarrow> conn_ok c (commit_notifies iv s)"
  unfolding commit_notifies_def Let_def
  by (simp add: cb_output_ok on_readable_ok on_writable_ok cb_drop_ok)

lemma pkt_consumed_ok: "conn_ok c s \<Longrightarrow> conn_ok c (snd (pkt_consumed s))"
  by (simp add: pkt_consumed_def)

lemma sack_block_ok:
  "conn_ok c s \<Longrightarrow> m_pkts (snd_buf s) = pre @ suf \<Longrightarrow> sack_block b e pre suf s = (stop, pre', suf', t) \<Longrightarrow>
    conn_ok c t \<and> m_pkts (snd_buf t) = pre' @ suf'"
proof (induction b e pre suf s arbitrary: stop pre' suf' t rule: sack_block.induct)
  case (1 b e pre s)
  then show ?case by simp
next
  case (2 b e pre p ps s)
  then show ?case using drop_snd_pkt_ok [of c s pre p ps] by (auto split: if_splits)
qed

lemma sack_blocks_ok: "conn_ok c s \<Longrightarrow> m_pkts (snd_buf s) = pre @ suf \<Longrightarrow> conn_ok c (sack_blocks prs pre suf s)"
proof (induction prs pre suf s rule: sack_blocks.induct)
  case (1 pre suf s)
  then show ?case by simp
next
  case (2 pr prs pre suf s)
  obtain stop pre' suf' t where b: "sack_block (fst pr) (snd pr) pre suf s = (stop, pre', suf', t)"
    by (cases "sack_block (fst pr) (snd pr) pre suf s")
  note r = sack_block_ok [OF 2(2,3) b]
  show ?case
  proof (cases stop)
    case True
    with b r show ?thesis by simp
  next
    case False
    with 2(1) [OF b [symmetric]] b r show ?thesis by simp
  qed
qed

lemma handle_option_sack_ok: "conn_ok c s \<Longrightarrow> conn_ok c (snd (handle_option_sack o' s))"
  by (auto simp: handle_option_sack_def Let_def update_snd_ok update_snd_fack_def
      intro!: sack_blocks_ok split: list.splits)

text \<open>A property of the state that both option handlers keep is kept by the whole parser.\<close>

lemma handle_options_keeps:
  assumes "handle_options b s = Some t" and "P s"
    and sack: "\<And>o' s. P s \<Longrightarrow> P (snd (handle_option_sack o' s))"
    and cwnd: "\<And>o' s. P s \<Longrightarrow> P (snd (handle_option_cwnd o' s))"
  shows "P t"
  using assms(1,2)
proof (induction "length b" arbitrary: b s rule: less_induct)
  case less
  show ?case
  proof (cases "length b < 2")
    case True
    then have "handle_options b s = Some s" by (subst handle_options.simps) (auto split: list.splits)
    with less show ?thesis by simp
  next
    case False
    then obtain k l rest where b: "b = k # l # rest" by (cases b; cases "tl b") auto
    have IH: "handle_options (drop n rest) u = Some t \<Longrightarrow> P u \<Longrightarrow> P t" for n u
      by (rule less(1) [of "drop n rest" u]) (simp add: b)
    have IH0: "handle_options rest u = Some t \<Longrightarrow> P u \<Longrightarrow> P t" for u using IH [of 0 u] by simp
    have s1: "handle_option_sack o' s = (n, u) \<Longrightarrow> P u" for o' n u using sack [OF less(3), of o'] by simp
    have s2: "handle_option_cwnd o' s = (n, u) \<Longrightarrow> P u" for o' n u using cwnd [OF less(3), of o'] by simp
    from less(2) show ?thesis
      unfolding b by (subst (asm) handle_options.simps)
        (use less(3) in \<open>auto split: if_splits option.splits prod.splits dest!: s1 s2 intro: IH IH0\<close>)
  qed
qed

lemma handle_options_ok: "conn_ok c s \<Longrightarrow> handle_options b s = Some t \<Longrightarrow> conn_ok c t"
  by (erule handle_options_keeps) (simp_all add: handle_option_sack_ok handle_option_cwnd_def)

lemma handle_same_ack_ok: "conn_ok full_cwnd s \<Longrightarrow> conn_ok full_cwnd (snd (handle_same_ack iv tick a w s))"
  by (simp add: handle_same_ack_def Let_def reset_rexmt_timer_ok update_snd_ok do_fast_rexmt_ok)

lemma handle_new_ack_ok:
  assumes "conn_ok full_cwnd s"
  shows "\<exists>t. handle_new_ack a w s = Some (False, t) \<and> conn_ok full_cwnd t"
proof -
  obtain u where "incr_snd_cwnd (set_flags TF_NOTIFY_WRITE s) = Some u" "conn_ok full_cwnd u"
    using incr_snd_cwnd_ok [of "set_flags TF_NOTIFY_WRITE s"] assms by auto
  then show ?thesis
    by (simp add: handle_new_ack_def reset_rexmt_timer_ok update_snd_ok drop_acked_data_ok)
qed

lemma handle_valid_ack_ok:
  assumes ok: "conn_ok full_cwnd s" and run: "handle_valid_ack iv tick pkt s = Some (stop, t)"
  shows "conn_ok full_cwnd t"
proof -
  let ?ti = "hdr pkt"
  from run obtain u v where u: "(if is_max_ack (uh_ack ?ti) s then update_ack_state s else Some s) = Some u"
    and v: "(if unat (uh_off ?ti) > sizeof_udt_hdr
       then handle_options (take (unat (uh_off ?ti) - sizeof_udt_hdr) (body pkt)) u else Some u) = Some v"
    and r: "(if uh_ack ?ti = m_snd_una v then Some (handle_same_ack iv tick (uh_ack ?ti) (ucast (uh_win ?ti)) v)
       else handle_new_ack (uh_ack ?ti) (ucast (uh_win ?ti)) v) = Some (stop, t)"
    unfolding handle_valid_ack_def Let_def bind_eq_Some_conv by blast
  have "conn_ok full_cwnd u" using u ok by (auto split: if_splits elim: update_ack_state_ok [rotated])
  then have v: "conn_ok full_cwnd v" using v by (auto split: if_splits elim: handle_options_ok [rotated])
  show ?thesis
    using r handle_same_ack_ok [OF v, of iv tick "uh_ack ?ti" "ucast (uh_win ?ti)"]
      handle_new_ack_ok [OF v, of "uh_ack ?ti" "ucast (uh_win ?ti)"]
    by (auto split: if_splits)
qed

lemma handle_ack_ok:
  "conn_ok full_cwnd s \<Longrightarrow> handle_ack iv tick pkt s = Some (stop, t) \<Longrightarrow> conn_ok full_cwnd t"
  by (auto simp: handle_ack_def Let_def split: if_splits elim: handle_valid_ack_ok [rotated])

lemma handle_fin_ok: "conn_ok c s \<Longrightarrow> conn_ok c (handle_fin s)"
  unfolding handle_fin_def Let_def by (simp add: keep_init_ok)

lemma input_data_ok:
  assumes ok: "conn_ok full_cwnd s" and run: "input_data iv tick pkt s = Some t"
  shows "conn_ok full_cwnd t"
proof -
  define u where "u = (if plen pkt \<noteq> 0 \<or> has_flag (pflags pkt) (TH_SYN OR TH_FIN) then TCP_REASS pkt s else s)"
  have u: "conn_ok full_cwnd u" using ok by (simp add: u_def TCP_REASS_ok)
  from run obtain stop v where
    v: "(if has_flag (pflags pkt) TH_ACK then handle_ack iv tick pkt u else Some (False, u)) = Some (stop, v)"
    and t: "t = (if \<not> stop \<and> buf_fin (rcv_buf u) then handle_fin v else v)"
    unfolding input_data_def Let_def u_def [symmetric] bind_eq_Some_conv by auto
  have "conn_ok full_cwnd v" using v u by (auto split: if_splits elim: handle_ack_ok [rotated])
  then show ?thesis using t by (simp add: handle_fin_ok)
qed

lemma input_segment_ok:
  assumes ok: "conn_ok full_cwnd s" and run: "input_segment iv tick pkt s = Some t"
  shows "conn_ok full_cwnd t"
proof (cases "m_state s = TCPS_CLOSED \<or> has_flag (pflags pkt) TH_RST")
  case True
  with ok run show ?thesis by (auto simp: input_segment_def split: if_splits)
next
  case False
  obtain d0 s0 where s0: "drop_out_of_rcv_wnd_packet pkt s = (d0, s0)" by (cases "drop_out_of_rcv_wnd_packet pkt s")
  obtain d1 s1 where s1: "do_header_prediction iv pkt s0 = (d1, s1)" by (cases "do_header_prediction iv pkt s0")
  obtain d2 pkt2 s2 where s2: "(if has_flag (pflags pkt) TH_SYN then handle_syn pkt s1 else (False, pkt, s1)) = (d2, pkt2, s2)"
    by (cases "if has_flag (pflags pkt) TH_SYN then handle_syn pkt s1 else (False, pkt, s1)")
  have o0: "conn_ok full_cwnd s0" using drop_out_of_rcv_wnd_packet_ok [OF ok, of pkt] s0 by simp
  then have o1: "conn_ok full_cwnd s1" using do_header_prediction_ok [OF o0, of iv pkt] s1 by simp
  then have o2: "conn_ok full_cwnd s2" using handle_syn_ok [OF o1, of pkt] s2 by (auto split: if_splits)
  from run False s0 s1 s2 have "t = s0 \<or> t = s1 \<or> t = s2 \<or> input_data iv tick pkt2 s2 = Some t"
    by (auto simp: input_segment_def split: bool.splits)
  then show ?thesis using o0 o1 input_data_ok [OF o2] o2 by auto
qed

lemma cb_input_ok:
  assumes ok: "conn_ok full_cwnd s" and run: "cb_input iv tick bytes s = Some (consumed, t)"
  shows "conn_ok full_cwnd t"
proof (cases "t = s")
  case False
  let ?pkt = "(pkt_of_mem bytes)\<lparr>hdr := ntoh (hdr (pkt_of_mem bytes))\<rparr>"
  let ?u = "update_rtt (uh_pseq (hdr ?pkt)) (set_timer TCPT_KEEP s_keepidle (s\<lparr>m_pseq := pseq ?pkt, m_idle := 0\<rparr>))"
  from run False obtain v where "input_segment iv tick ?pkt ?u = Some v" and t: "(consumed, t) = pkt_consumed (commit_notifies iv v)"
    by (auto simp: cb_input_def Let_def bind_eq_Some_conv split: if_splits)
  moreover have "conn_ok full_cwnd ?u" using ok by (intro update_rtt_ok keep_init_ok) simp
  ultimately have "conn_ok full_cwnd v" by (blast intro: input_segment_ok)
  then have "conn_ok full_cwnd (snd (pkt_consumed (commit_notifies iv v)))"
    by (intro pkt_consumed_ok commit_notifies_ok) simp_all
  then show ?thesis by (simp flip: t)
qed (use ok in simp)

text \<open>Only acknowledgements can fault: a segment without one is always processed.\<close>

lemma input_segment_total:
  assumes "\<not> has_flag (pflags pkt) TH_ACK"
  shows "\<exists>t. input_segment iv tick pkt s = Some t"
proof -
  have f: "pflags (fst (snd (handle_syn pkt u))) = pflags pkt" for u by (simp add: handle_syn_def Let_def)
  have d: "\<exists>t. input_data iv tick p u = Some t" if "pflags p = pflags pkt" for p u
    using assms that by (simp add: input_data_def Let_def)
  have "\<exists>t. input_data iv tick p v = Some t" if "handle_syn pkt u = (False, p, v)" for p u v
    using d [of p v] f [of u] that by simp
  then show ?thesis
    using d [of pkt] by (auto simp: input_segment_def split: prod.splits bool.splits if_splits)
qed

lemma cb_input_total:
  "\<not> has_flag (pflags (pkt_of_mem bytes)) TH_ACK \<Longrightarrow> \<exists>c t. cb_input iv tick bytes s = Some (c, t)"
proof -
  assume a: "\<not> has_flag (pflags (pkt_of_mem bytes)) TH_ACK"
  let ?pkt = "(pkt_of_mem bytes)\<lparr>hdr := ntoh (hdr (pkt_of_mem bytes))\<rparr>"
  have "\<exists>t. input_segment iv tick ?pkt u = Some t" for u by (rule input_segment_total) (use a in simp)
  then show ?thesis by (auto simp: cb_input_def Let_def) (metis bind.bind_lunit prod.exhaust)
qed

end
