(* ===== verification/Udt_Conn.thy ===== *)
theory Udt_Conn
  imports Udt_Input
begin

text \<open>
  \<open>src/udt/udt_timo.cpp\<close> and \<open>src/udt/udt_usrreq.cpp\<close>: what the two periodic timers do to the
  connection, and the user's requests to it (connect, accept, close, shutdown).
\<close>

section \<open>Timers\<close>

definition handle_fast_timo :: "indet \<Rightarrow> udt_socket \<Rightarrow> udt_socket" where
  "handle_fast_timo iv s =
     (if flag s TF_DELACK
      then snd (cb_output iv (set_flags TF_ACKNOW (clear_flags TF_DELACK s)))
      else s)"

text \<open>The flags of the packets before the first one that was never sent.\<close>

fun clear_pkt_flags :: "udt_seq \<Rightarrow> udt_packet list \<Rightarrow> udt_packet list" where
  "clear_pkt_flags snd_max [] = []"
| "clear_pkt_flags snd_max (p # ps) =
     (if seq_ge (pseq p) snd_max then p # ps else set_pflags 0 p # clear_pkt_flags snd_max ps)"

definition clear_snd_buf_flags :: "udt_socket \<Rightarrow> udt_socket" where
  "clear_snd_buf_flags s =
     s\<lparr>snd_buf := (snd_buf s)\<lparr>m_pkts := clear_pkt_flags (m_snd_max s) (m_pkts (snd_buf s))\<rparr>,
       m_retrans_data := 0\<rparr>"

definition UDT_KEEPALIVE :: u32 where [udt_const]: "UDT_KEEPALIVE = 1"

text \<open>What a timer does when it runs out, one case of the switch each.\<close>

definition timo_2msl :: "indet \<Rightarrow> udt_socket \<Rightarrow> udt_socket" where
  "timo_2msl iv s = cb_drop iv (udt_error Timed_out) s"

text \<open>The new retransmission value, and forgetting the round-trip estimate when it is losing badly.\<close>

definition rexmt_backoff :: "udt_socket \<Rightarrow> udt_socket" where
  "rexmt_backoff s =
     (let s = s\<lparr>m_rxtcur := rexmt_timer_value s\<rparr>;
          s = set_timer TCPT_REXMT (m_rxtcur s) s
      in if m_rxtshift s > TCP_MAXRXTSHIFT div 4
         then s\<lparr>m_rttvar := to_i16 (m_rttvar s + drop_bit TCP_RTT_SHIFT (m_srtt s)), m_srtt := 0\<rparr>
         else s)"

definition timo_rexmt :: "indet \<Rightarrow> u32 \<Rightarrow> udt_socket \<Rightarrow> udt_socket" where
  "timo_rexmt iv tick_count s =
     (let s = s\<lparr>m_rxtshift := to_i16 (m_rxtshift s + 1)\<rparr>
      in if m_rxtshift s > TCP_MAXRXTSHIFT
         then cb_drop iv (udt_error Timed_out) (s\<lparr>m_rxtshift := TCP_MAXRXTSHIFT\<rparr>)
         else let s = rexmt_backoff s;
                  s = s\<lparr>m_snd_fack := m_snd_una s, m_snd_nxt := m_snd_una s, m_rtt := 0\<rparr>;
                  s = handle_packet_lost tick_count s;
                  s = clear_snd_buf_flags s
              in snd (cb_output iv s))"

definition timo_persist :: "indet \<Rightarrow> udt_socket \<Rightarrow> udt_socket" where
  "timo_persist iv s =
     (let s = validate_first_pkt (enter_persist s);
          s = snd (cb_output iv (s\<lparr>m_force := True\<rparr>))
      in s\<lparr>m_force := False\<rparr>)"

definition timo_keep :: "indet \<Rightarrow> udt_socket \<Rightarrow> udt_socket" where
  "timo_keep iv s =
     (if m_state s < TCPS_ESTABLISHED then cb_drop iv (udt_error Timed_out) s
      else if m_state s \<le> TCPS_CLOSE_WAIT \<and> so_options s AND UDT_KEEPALIVE \<noteq> 0
      then if m_idle s \<ge> s_keepidle + s_maxidle then cb_drop iv (udt_error Timed_out) s
           else set_timer TCPT_KEEP s_keepintvl (respond (m_rcv_nxt s) (m_snd_una s - 1) TH_ACK s)
      else set_timer TCPT_KEEP s_keepidle s)"

definition timer_expired :: "indet \<Rightarrow> u32 \<Rightarrow> tcp_timer \<Rightarrow> udt_socket \<Rightarrow> udt_socket" where
  "timer_expired iv tick_count t s =
     (case t of
        TCPT_2MSL \<Rightarrow> timo_2msl iv s
      | TCPT_REXMT \<Rightarrow> timo_rexmt iv tick_count s
      | TCPT_PERSIST \<Rightarrow> timo_persist iv s
      | TCPT_KEEP \<Rightarrow> timo_keep iv s)"

definition tick_timer :: "indet \<Rightarrow> u32 \<Rightarrow> tcp_timer \<Rightarrow> udt_socket \<Rightarrow> udt_socket" where
  "tick_timer iv tick_count t s =
     (if m_timers s t \<noteq> 0
      then let s = set_timer t (to_i16 (m_timers s t - 1)) s
           in if m_timers s t = 0 then timer_expired iv tick_count t s else s
      else s)"

definition handle_slow_timo :: "indet \<Rightarrow> u32 \<Rightarrow> udt_socket \<Rightarrow> udt_socket" where
  "handle_slow_timo iv tick_count s =
     (let s = fold (tick_timer iv tick_count) all_timers s;
          s = (if m_rtt s \<noteq> 0 then s\<lparr>m_rtt := to_i16 (m_rtt s + 1)\<rparr> else s)
      in s\<lparr>m_idle := to_i16 (m_idle s + 1), m_tick := m_tick s + 1\<rparr>)"

section \<open>User requests\<close>

text \<open>The result is the returned \<open>int\<close> and the state.\<close>

definition cb_connect :: "indet \<Rightarrow> udt_socket \<Rightarrow> int \<times> udt_socket" where
  "cb_connect iv s =
     (if m_state s \<noteq> TCPS_CLOSED then (- 1, s)
      else let s = s\<lparr>m_state := TCPS_SYN_SENT\<rparr>;
               s = set_timer TCPT_KEEP TCPTV_KEEP_INIT s;
               s = tcp_sendseqinit (s\<lparr>m_iss := s_iss\<rparr>)
           in (0, snd (cb_output iv s)))"

definition cb_accept :: "udt_socket \<Rightarrow> int \<times> udt_socket" where
  "cb_accept s = (if m_state s \<noteq> TCPS_CLOSED then (- 1, s) else (0, s\<lparr>m_state := TCPS_LISTEN\<rparr>))"

definition cb_close :: "udt_socket \<Rightarrow> int \<times> udt_socket" where
  "cb_close s =
     (let s = canceltimers (s\<lparr>m_state := TCPS_CLOSED\<rparr>);
          s = emit (Stop_timer 200) (s\<lparr>m_fast_timer := False\<rparr>)
      in (0, emit (Stop_timer 500) (s\<lparr>m_slow_timer := False\<rparr>)))"

definition cb_shutdown :: "indet \<Rightarrow> udt_socket \<Rightarrow> int \<times> udt_socket" where
  "cb_shutdown iv s =
     (case m_state s of
        TCPS_ESTABLISHED \<Rightarrow> (0, snd (cb_output iv (s\<lparr>m_state := TCPS_FIN_WAIT_1\<rparr>)))
      | TCPS_CLOSE_WAIT \<Rightarrow> (0, snd (cb_output iv (s\<lparr>m_state := TCPS_LAST_ACK\<rparr>)))
      | _ \<Rightarrow> (- 1, s))"

section \<open>The invariant through timers and user requests\<close>

lemma handle_fast_timo_ok: "conn_ok c s \<Longrightarrow> c \<le> full_cwnd \<Longrightarrow> conn_ok c (handle_fast_timo iv s)"
  by (simp add: handle_fast_timo_def cb_output_ok)

lemma sum_len_clear_pkt_flags [simp]: "sum_len (clear_pkt_flags m ps) = sum_len ps"
  by (induction m ps rule: clear_pkt_flags.induct) simp_all

lemma clear_pkt_flags_pkt_ok: "\<forall>p \<in> set ps. pkt_ok p \<Longrightarrow> p \<in> set (clear_pkt_flags m ps) \<Longrightarrow> pkt_ok p"
  by (induction m ps rule: clear_pkt_flags.induct) (auto split: if_splits)

lemma clear_snd_buf_flags_ok: "conn_ok c s \<Longrightarrow> conn_ok c (clear_snd_buf_flags s)"
proof -
  assume ok: "conn_ok c s"
  have "buf_wf ((snd_buf s)\<lparr>m_pkts := clear_pkt_flags (m_snd_max s) (m_pkts (snd_buf s))\<rparr>)"
    using conn_ok_snd_wf [OF ok] by (auto simp: buf_wf_def dest: clear_pkt_flags_pkt_ok)
  then show ?thesis using ok by (simp add: clear_snd_buf_flags_def conn_ok_snd_buf)
qed

lemma conn_ok_rxtcur:
  "conn_ok c s \<Longrightarrow> TCPTV_MIN \<le> k \<Longrightarrow> k \<le> TCPTV_REXMTMAX \<Longrightarrow> conn_ok c (s\<lparr>m_rxtcur := k\<rparr>)"
  by (simp add: conn_ok_def timers_ok_def pending_ok_def)

lemma rexmt_backoff_ok:
  assumes ok: "conn_ok c s" and persist: "m_timers s TCPT_PERSIST = 0"
  shows "conn_ok c (rexmt_backoff s)"
proof -
  let ?u = "s\<lparr>m_rxtcur := rexmt_timer_value s\<rparr>"
  have "uint (m_rttmin s) = TCPTV_MIN" using ok by (simp add: conn_ok_def timers_ok_def)
  note b = rexmt_timer_value_bounds [OF this]
  have "conn_ok c ?u" using b by (intro conn_ok_rxtcur [OF ok]) simp_all
  moreover have "m_timers ?u TCPT_PERSIST = 0" using persist by simp
  ultimately have "conn_ok c (set_timer TCPT_REXMT (m_rxtcur ?u) ?u)" by (rule start_rexmt_ok)
  then show ?thesis by (simp add: rexmt_backoff_def Let_def)
qed

lemma timo_rexmt_ok:
  assumes ok: "conn_ok full_cwnd s" and persist: "m_timers s TCPT_PERSIST = 0"
  shows "conn_ok full_cwnd (timo_rexmt iv tick s)"
proof -
  have sh: "0 \<le> m_rxtshift s" "m_rxtshift s \<le> 12"
    using ok by (simp_all add: conn_ok_def timers_ok_def TCP_MAXRXTSHIFT_def)
  then have k: "to_i16 (m_rxtshift s + 1) = m_rxtshift s + 1" by (simp add: to_i16_id)
  show ?thesis
  proof (cases "m_rxtshift s + 1 > TCP_MAXRXTSHIFT")
    case True
    have "conn_ok full_cwnd (s\<lparr>m_rxtshift := TCP_MAXRXTSHIFT\<rparr>)"
      by (rule conn_ok_rxtshift [OF ok]) (simp_all add: TCP_MAXRXTSHIFT_def)
    then have "conn_ok full_cwnd (cb_drop iv (udt_error Timed_out) (s\<lparr>m_rxtshift := TCP_MAXRXTSHIFT\<rparr>))"
      by (rule cb_drop_ok) simp
    with True show ?thesis by (simp add: timo_rexmt_def Let_def k)
  next
    case False
    define u where "u = rexmt_backoff (s\<lparr>m_rxtshift := m_rxtshift s + 1\<rparr>)"
    have "conn_ok full_cwnd (s\<lparr>m_rxtshift := m_rxtshift s + 1\<rparr>)"
      by (rule conn_ok_rxtshift [OF ok]) (use sh False in simp_all)
    then have "conn_ok full_cwnd u" unfolding u_def by (rule rexmt_backoff_ok) (simp add: persist)
    then have "conn_ok full_cwnd (handle_packet_lost tick (u\<lparr>m_snd_fack := m_snd_una u, m_snd_nxt := m_snd_una u, m_rtt := 0\<rparr>))"
      by (intro handle_packet_lost_ok) simp
    then have "conn_ok full_cwnd (snd (cb_output iv (clear_snd_buf_flags
        (handle_packet_lost tick (u\<lparr>m_snd_fack := m_snd_una u, m_snd_nxt := m_snd_una u, m_rtt := 0\<rparr>)))))"
      by (intro cb_output_ok clear_snd_buf_flags_ok) simp_all
    with False show ?thesis by (simp add: timo_rexmt_def Let_def k u_def)
  qed
qed

lemma timo_persist_ok:
  "conn_ok full_cwnd s \<Longrightarrow> m_timers s TCPT_REXMT = 0 \<Longrightarrow> conn_ok full_cwnd (timo_persist iv s)"
  by (simp add: timo_persist_def Let_def cb_output_ok validate_first_pkt_ok enter_persist_ok)

lemma timo_keep_ok: "conn_ok full_cwnd s \<Longrightarrow> conn_ok full_cwnd (timo_keep iv s)"
  by (simp add: timo_keep_def cb_drop_ok keep_init_ok)

lemma timer_expired_ok:
  assumes "conn_ok full_cwnd s" and "t = TCPT_REXMT \<Longrightarrow> m_timers s TCPT_PERSIST = 0"
    and "t = TCPT_PERSIST \<Longrightarrow> m_timers s TCPT_REXMT = 0"
  shows "conn_ok full_cwnd (timer_expired iv tick t s)"
  using assms by (cases t) (simp_all add: timer_expired_def timo_rexmt_ok timo_persist_ok timo_keep_ok
      timo_2msl_def cb_drop_ok)

lemma tick_timer_ok:
  assumes ok: "conn_ok full_cwnd s"
  shows "conn_ok full_cwnd (tick_timer iv tick t s)"
proof (cases "m_timers s t = 0")
  case True
  with ok show ?thesis by (simp add: tick_timer_def)
next
  case False
  have r: "0 \<le> m_timers s t" "m_timers s t \<le> 14400"
    using ok by (cases t; simp add: conn_ok_def timers_ok_def udt_const)+
  then have d: "to_i16 (m_timers s t - 1) = m_timers s t - 1" by (simp add: to_i16_id)
  let ?u = "set_timer t (m_timers s t - 1) s"
  have x: "m_timers s TCPT_REXMT = 0 \<or> m_timers s TCPT_PERSIST = 0" using ok by (simp add: conn_ok_def timers_ok_def)
  have u: "conn_ok full_cwnd ?u"
    using ok False r by (cases t) (auto simp: conn_ok_def timers_ok_def pending_ok_def set_timer_def)
  have "conn_ok full_cwnd (timer_expired iv tick t ?u)"
    by (rule timer_expired_ok [OF u]) (use x False in \<open>auto simp: set_timer_def\<close>)
  with u False show ?thesis by (simp add: tick_timer_def Let_def d)
qed

lemma handle_slow_timo_ok: "conn_ok full_cwnd s \<Longrightarrow> conn_ok full_cwnd (handle_slow_timo iv tick s)"
  by (simp add: handle_slow_timo_def Let_def all_timers_def tick_timer_ok)

lemma cb_connect_ok: "conn_ok c s \<Longrightarrow> c \<le> full_cwnd \<Longrightarrow> conn_ok c (snd (cb_connect iv s))"
  by (simp add: cb_connect_def Let_def cb_output_ok tcp_seqinit_ok keep_init_ok)

lemma cb_accept_ok: "conn_ok c s \<Longrightarrow> conn_ok c (snd (cb_accept s))"
  by (simp add: cb_accept_def)

lemma cb_shutdown_ok: "conn_ok c s \<Longrightarrow> c \<le> full_cwnd \<Longrightarrow> conn_ok c (snd (cb_shutdown iv s))"
  by (cases "m_state s") (simp_all add: cb_shutdown_def cb_output_ok)

end
