(* ===== verification/Udt_Socket.thy ===== *)
theory Udt_Socket
  imports Udt_Conn
begin

text \<open>
  The rest of \<open>src/udt/udt_socket.cpp\<close>: construction, the asynchronous operations of the user,
  the completion of the receive and of the MTU probe, options and closing; and the socket as
  one event-driven machine.
\<close>

section \<open>Construction\<close>

text \<open>
  The constructor. \<open>m_seq\<close> of the two buffers is uninitialised (parameters). There is no
  control block yet; its fields are written by \<open>create\<close> before anything reads them.
\<close>

definition udt_socket_init :: "udt_seq \<Rightarrow> udt_seq \<Rightarrow> udt_socket" where
  "udt_socket_init seq0 seq1 =
     \<lparr>m_state = TCPS_CLOSED, m_force = False, m_maxseg = 0, m_flags = 0, m_snd_una = 0, m_snd_nxt = 0,
      m_snd_fack = 0, m_retrans_data = 0, m_iss = 0, m_pseq = 0, m_rcv_wnd = 0, m_rcv_nxt = 0, m_irs = 0,
      m_rcv_adv = 0, m_snd_max = 0, m_rxtshift = 0, m_rxtcur = 0, m_rtt = 0, m_rtseq = 0, m_srtt = 0,
      m_rttvar = 0, m_rttmin = 0, m_idle = 0, m_tick = 0, m_timers = (\<lambda>_. 0), m_fast_timer = False,
      m_slow_timer = False, m_snd_wl1 = 0, m_snd_wl2 = 0, m_snd_wnd = 0, m_dupacks = 0, m_snd_cwnd = 0,
      m_pcwnd = 0, m_max_sndwnd = 0, m_tstamp_first = 0, m_tstamp_second = 0, m_tstamp_third = 0,
      m_last_error = no_error,
      next_layer = False, remote_ep = \<lparr>ep_addr = 0, ep_port = 0\<rparr>, peer_ep = \<lparr>ep_addr = 0, ep_port = 0\<rparr>,
      send_ops = [], snd_buf = udt_snd_buf_init seq0, recv_ops = [], rcv_buf = udt_rcv_buf_init seq1,
      connect_handler = None, accept_handler = None, shutdown_handler = None, mtu_prober = False,
      pending_data = 0, rcv_pkt = False, so_options = 0, effects = []\<rparr>"

text \<open>\<open>bound\<close> tells whether the UDP socket handed in has a local endpoint.\<close>

definition create :: "bool \<Rightarrow> udt_seq \<Rightarrow> udt_socket \<Rightarrow> error_code \<times> udt_socket" where
  "create bound fack0 s =
     (if next_layer s then (udt_error Alread_created, s)
      else if \<not> bound then (udt_error Not_bind, s)
      else let s = cb_init fack0 (s\<lparr>so_options := 0, next_layer := True\<rparr>)
           in (udt_error Succeed, s\<lparr>mtu_prober := True\<rparr>))"

section \<open>Receiving datagrams\<close>

text \<open>\<open>data_len + sizeof(udt_hdr)\<close>: the size of the buffer a datagram is received into.\<close>

definition rcv_capacity :: nat where [udt_const]:
  "rcv_capacity = (1500 - MIN_ALL_HEADERS_SIZE) + sizeof_udt_hdr"

definition do_receive :: "udt_socket \<Rightarrow> udt_socket" where
  "do_receive s = (if \<not> next_layer s then s else emit Async_receive (s\<lparr>rcv_pkt := True\<rparr>))"

text \<open>
  \<open>ep\<close> is the sender asio stored in \<open>remote_ep_\<close>, \<open>bytes\<close> what it wrote to \<open>rcv_pkt_\<close>.
\<close>

definition handle_receive ::
  "indet \<Rightarrow> u32 \<Rightarrow> error_code \<Rightarrow> udp_endpoint \<Rightarrow> u8 list \<Rightarrow> udt_socket \<Rightarrow> udt_socket option" where
  "handle_receive iv tick_count e ep bytes s =
     (if \<not> next_layer s then Some s
      else if \<not> is_error e
      then do {
        let s = s\<lparr>remote_ep := ep\<rparr>;
        s \<leftarrow> (if remote_ep s = peer_ep s
                then map_option (\<lambda>(consumed, s). if consumed then s\<lparr>rcv_pkt := False\<rparr> else s)
                       (cb_input iv tick_count bytes s)
                else Some s);
        Some (do_receive s)
      }
      else let s = s\<lparr>rcv_pkt := False\<rparr>
           in Some (if e \<noteq> udt_error Operation_aborted then on_disconnected iv s else s))"

definition handle_mtu :: "udt_socket \<Rightarrow> udt_socket" where
  "handle_mtu s =
     (if \<not> next_layer s then s
      else let s = (if mtu_prober s then emit Delete_mtu (s\<lparr>mtu_prober := False\<rparr>) else s)
           in set_mtu 1006 s)"

section \<open>Operations of the user\<close>

definition async_connect :: "indet \<Rightarrow> udp_endpoint \<Rightarrow> handler \<Rightarrow> udt_socket \<Rightarrow> udt_socket option" where
  "async_connect iv rep h s =
     (if \<not> next_layer s then Some s
      else do {
        s \<leftarrow> do_probe_mtu (s\<lparr>connect_handler := Some h, peer_ep := rep\<rparr>);
        Some (snd (cb_connect iv (do_receive s)))
      })"

definition async_accept :: "udp_endpoint \<Rightarrow> handler \<Rightarrow> udt_socket \<Rightarrow> udt_socket" where
  "async_accept rep h s =
     (if \<not> next_layer s then s
      else snd (cb_accept (do_receive (s\<lparr>accept_handler := Some h, peer_ep := rep\<rparr>))))"

definition async_send :: "indet \<Rightarrow> const_buffer \<Rightarrow> handler \<Rightarrow> udt_socket \<Rightarrow> udt_socket" where
  "async_send iv cbuf h s =
     (if \<not> next_layer s then s
      else if buffer_size cbuf = 0 \<or> cbuf_null cbuf \<or> is_error (get_lasterror s)
      then emit (Post_io h (get_lasterror s) 0 []) s
      else let s = s\<lparr>send_ops := send_ops s @ [\<lparr>send_buf = cbuf, send_handler = h\<rparr>],
                     pending_data := pending_data s + buffer_size cbuf\<rparr>
           in case consume_pending_data s of
                (consumed, s) \<Rightarrow> if consumed \<noteq> 0 then snd (cb_output iv s) else s)"

definition async_receive :: "indet \<Rightarrow> mutable_buffer \<Rightarrow> handler \<Rightarrow> udt_socket \<Rightarrow> udt_socket" where
  "async_receive iv buf h s =
     (if \<not> next_layer s then s
      else if mbuf_size buf = 0 \<or> mbuf_null buf \<or> is_error (get_lasterror s)
      then emit (Post_io h (get_lasterror s) 0 []) s
      else recv_data iv (s\<lparr>recv_ops := recv_ops s @ [\<lparr>recv_buf = buf, recv_handler = h\<rparr>]\<rparr>))"

definition async_shutdown :: "indet \<Rightarrow> handler \<Rightarrow> udt_socket \<Rightarrow> udt_socket" where
  "async_shutdown iv h s =
     (if \<not> next_layer s then s else snd (cb_shutdown iv (s\<lparr>shutdown_handler := Some h\<rparr>)))"

definition close :: "udt_socket \<Rightarrow> udt_socket" where
  "close s =
     (if \<not> next_layer s then s
      else let s = cancel s;
               s = s\<lparr>next_layer := False\<rparr>;
               s = (if mtu_prober s then emit Delete_mtu (s\<lparr>mtu_prober := False\<rparr>) else s);
               s = snd (cb_close s)
           in s\<lparr>snd_buf := buf_clear (snd_buf s), rcv_buf := rcv_buf_clear (rcv_buf s)\<rparr>)"

datatype sockopt = Opt_keepalive | Opt_snd_buf | Opt_rcv_buf | Opt_other

definition setsockopt :: "sockopt \<Rightarrow> u32 \<Rightarrow> udt_socket \<Rightarrow> int \<times> udt_socket" where
  "setsockopt optname v s =
     (case optname of
        Opt_keepalive \<Rightarrow> (0, if v \<noteq> 0 then s\<lparr>so_options := so_options s OR UDT_KEEPALIVE\<rparr>
                              else s\<lparr>so_options := so_options s AND NOT UDT_KEEPALIVE\<rparr>)
      | Opt_snd_buf \<Rightarrow> (0, s\<lparr>snd_buf := set_hiwat v (snd_buf s)\<rparr>)
      | Opt_rcv_buf \<Rightarrow> (0, s\<lparr>rcv_buf := set_hiwat v (rcv_buf s)\<rparr>)
      | Opt_other \<Rightarrow> (- 1, s))"

text \<open>The result code with the value and the length it stores, if it does.\<close>

definition getsockopt :: "sockopt \<Rightarrow> udt_socket \<Rightarrow> int \<times> (u32 \<times> int) option" where
  "getsockopt optname s =
     (case optname of
        Opt_keepalive \<Rightarrow> (0, Some (so_options s AND UDT_KEEPALIVE, 4))
      | Opt_snd_buf \<Rightarrow> (0, Some (m_hiwat (snd_buf s), 4))
      | Opt_rcv_buf \<Rightarrow> (0, Some (m_hiwat (rcv_buf s), 4))
      | Opt_other \<Rightarrow> (- 1, None))"

section \<open>The socket as a machine\<close>

text \<open>
  The events the \<open>io_service\<close> and the user produce, one at a time. A timer's event comes only
  while the timer runs; a datagram never exceeds the buffer it is received into.
\<close>

datatype socket_event =
    Create bool udt_seq
  | Connect udp_endpoint handler
  | Accept udp_endpoint handler
  | Send const_buffer handler
  | Receive mutable_buffer handler
  | Shutdown handler
  | Cancel
  | Close
  | Set_option sockopt u32
  | Datagram error_code udp_endpoint "u8 list" u32
  | Mtu_result
  | Delay_expired error_code
  | Fast_tick
  | Slow_tick u32

fun socket_step :: "indet \<Rightarrow> udt_socket \<Rightarrow> socket_event \<Rightarrow> udt_socket option" where
  "socket_step iv s (Create bound fack0) = Some (snd (create bound fack0 s))"
| "socket_step iv s (Connect rep h) = async_connect iv rep h s"
| "socket_step iv s (Accept rep h) = Some (async_accept rep h s)"
| "socket_step iv s (Send cbuf h) = Some (async_send iv cbuf h s)"
| "socket_step iv s (Receive buf h) = Some (async_receive iv buf h s)"
| "socket_step iv s (Shutdown h) = Some (async_shutdown iv h s)"
| "socket_step iv s Cancel = Some (cancel s)"
| "socket_step iv s Close = Some (close s)"
| "socket_step iv s (Set_option optname v) = Some (snd (setsockopt optname v s))"
| "socket_step iv s (Datagram e ep bytes tick_count) =
     handle_receive iv tick_count e ep (take rcv_capacity bytes) s"
| "socket_step iv s Mtu_result = Some (handle_mtu s)"
| "socket_step iv s (Delay_expired e) = Some (handle_delay_recv_operation e s)"
| "socket_step iv s Fast_tick = Some (if m_fast_timer s then handle_fast_timo iv s else s)"
| "socket_step iv s (Slow_tick tick_count) = Some (if m_slow_timer s then handle_slow_timo iv tick_count s else s)"

section \<open>The invariant of the machine\<close>

text \<open>
  Before \<open>create\<close> and after \<open>close\<close> the socket holds nothing and no timer of its own runs; in
  between the invariant of the connection holds.
\<close>

definition idle_ok :: "udt_socket \<Rightarrow> bool" where
  "idle_ok s \<longleftrightarrow> \<not> next_layer s \<and> send_ops s = [] \<and> recv_ops s = [] \<and> pending_data s = 0 \<and>
     connect_handler s = None \<and> accept_handler s = None \<and> shutdown_handler s = None \<and>
     \<not> m_fast_timer s \<and> \<not> m_slow_timer s \<and> \<not> mtu_prober s \<and>
     buf_wf (snd_buf s) \<and> buf_cnt (rcv_buf s)"

definition socket_ok :: "udt_socket \<Rightarrow> bool" where
  "socket_ok s \<longleftrightarrow> conn_ok full_cwnd s \<or> idle_ok s"

text \<open>
  The events a client may produce: a high-water mark is not set below the bytes already
  buffered, and a caller's memory fits the address space.
\<close>

fun proper_event :: "udt_socket \<Rightarrow> socket_event \<Rightarrow> bool" where
  "proper_event s (Set_option Opt_snd_buf v) \<longleftrightarrow> m_cc (snd_buf s) \<le> v"
| "proper_event s (Set_option Opt_rcv_buf v) \<longleftrightarrow> m_cc (rcv_buf s) \<le> v"
| "proper_event s (Send cbuf h) \<longleftrightarrow> length (cbuf_bytes cbuf) < 2 ^ 32"
| "proper_event s _ \<longleftrightarrow> True"

definition proper_step :: "indet \<Rightarrow> udt_socket \<Rightarrow> socket_event \<Rightarrow> udt_socket option" where
  "proper_step iv s e = (if proper_event s e then socket_step iv s e else None)"

definition socket_start :: "udt_socket \<Rightarrow> bool" where
  "socket_start s \<longleftrightarrow> s = udt_socket_init (m_seq (snd_buf s)) (m_seq (rcv_buf s))"

lemma buf_wf_cnt: "buf_wf b \<Longrightarrow> buf_cnt b"
  by (simp add: buf_wf_def buf_cnt_def)

lemma conn_ok_next_layer: "conn_ok c s \<Longrightarrow> next_layer s"
  by (simp add: conn_ok_def)

lemma socket_start_ok: "socket_start s \<Longrightarrow> socket_ok s"
proof -
  have "idle_ok (udt_socket_init a b)" for a b
    by (simp add: idle_ok_def udt_socket_init_def buf_wf_def buf_cnt_def udt_snd_buf_init_def udt_rcv_buf_init_def)
  then show "socket_start s \<Longrightarrow> socket_ok s" unfolding socket_start_def socket_ok_def by metis
qed

lemma cb_init_ok: "idle_ok s \<Longrightarrow> next_layer t \<Longrightarrow> send_ops t = send_ops s \<Longrightarrow> pending_data t = pending_data s \<Longrightarrow>
    snd_buf t = snd_buf s \<Longrightarrow> rcv_buf t = rcv_buf s \<Longrightarrow> conn_ok full_cwnd (cb_init f t)"
  unfolding cb_init_def Let_def
  by (simp add: conn_ok_def idle_ok_def timers_ok_def pending_ok_def ops_fit_def canceltimers_def set_timer_def
      emit_def min_cwnd_def TCPT_RANGESET_def to_i16_def udt_const)

lemma create_ok: "socket_ok s \<Longrightarrow> socket_ok (snd (create bound f s))"
proof (cases "next_layer s \<or> \<not> bound")
  case True
  then show "socket_ok s \<Longrightarrow> socket_ok (snd (create bound f s))" by (auto simp: create_def)
next
  case False
  assume "socket_ok s"
  with False have i: "idle_ok s" by (auto simp: socket_ok_def conn_ok_def)
  have "conn_ok full_cwnd (cb_init f (s\<lparr>so_options := 0, next_layer := True\<rparr>))"
    by (rule cb_init_ok [OF i]) simp_all
  with False show ?thesis by (simp add: create_def socket_ok_def)
qed

lemma do_receive_ok [simp]: "conn_ok c (do_receive s) = conn_ok c s"
  by (simp add: do_receive_def)

lemma handle_receive_ok:
  assumes ok: "conn_ok full_cwnd s" and run: "handle_receive iv tick e ep bytes s = Some t"
  shows "conn_ok full_cwnd t"
proof -
  have nl: "next_layer s" by (rule conn_ok_next_layer [OF ok])
  show ?thesis
  proof (cases "is_error e")
    case True
    with nl ok run show ?thesis by (auto simp: handle_receive_def Let_def on_disconnected_ok split: if_splits)
  next
    case False
    let ?u = "s\<lparr>remote_ep := ep\<rparr>"
    from run nl False obtain v where
      v: "(if ep = peer_ep s then map_option (\<lambda>(consumed, s). if consumed then s\<lparr>rcv_pkt := False\<rparr> else s)
           (cb_input iv tick bytes ?u) else Some ?u) = Some v" and t: "t = do_receive v"
      by (auto simp: handle_receive_def Let_def bind_eq_Some_conv)
    have u: "conn_ok full_cwnd ?u" using ok by simp
    have "conn_ok full_cwnd v"
    proof (cases "ep = peer_ep s")
      case True
      with v obtain b w where w: "cb_input iv tick bytes ?u = Some (b, w)" "v = (if b then w\<lparr>rcv_pkt := False\<rparr> else w)"
        by auto
      with cb_input_ok [OF u w(1)] show ?thesis by simp
    qed (use v u in simp)
    then show ?thesis by (simp add: t)
  qed
qed

lemma s_mss_eq: "ucast (1006 - word_of_nat MAX_ALL_HEADERS_SIZE :: u32) = s_mss"
  by (simp add: udt_const)

lemma handle_mtu_ok: "conn_ok c s \<Longrightarrow> conn_ok c (handle_mtu s)"
proof -
  have m: "conn_ok c u \<Longrightarrow> conn_ok c (set_mtu 1006 u)" for u
    by (simp add: set_mtu_def s_mss_eq) (simp add: conn_ok_def timers_ok_def pending_ok_def)
  show "conn_ok c s \<Longrightarrow> conn_ok c (handle_mtu s)" by (simp add: handle_mtu_def Let_def m)
qed

lemma async_connect_ok: "conn_ok full_cwnd s \<Longrightarrow> async_connect iv rep h s = Some t \<Longrightarrow> conn_ok full_cwnd t"
  by (auto simp: async_connect_def bind_eq_Some_conv do_probe_mtu_def cb_connect_ok split: if_splits)

lemma async_accept_ok: "conn_ok c s \<Longrightarrow> conn_ok c (async_accept rep h s)"
  by (simp add: async_accept_def cb_accept_ok)

lemma async_send_ok:
  assumes ok: "conn_ok c s" and c: "c \<le> full_cwnd" and len: "length (cbuf_bytes cbuf) < 2 ^ 32"
  shows "conn_ok c (async_send iv cbuf h s)"
proof -
  let ?u = "s\<lparr>send_ops := send_ops s @ [\<lparr>send_buf = cbuf, send_handler = h\<rparr>],
             pending_data := pending_data s + buffer_size cbuf\<rparr>"
  have u: "conn_ok c ?u"
    using ok len by (auto simp: conn_ok_def timers_ok_def pending_ok_def ops_fit_def op_size_def)
  obtain n t where p: "consume_pending_data ?u = (n, t)" by (cases "consume_pending_data ?u")
  have "conn_ok c t" using consume_pending_data_ok [OF u] p by simp
  with ok c p show ?thesis by (simp add: async_send_def Let_def cb_output_ok)
qed

lemma async_receive_ok: "conn_ok c s \<Longrightarrow> c \<le> full_cwnd \<Longrightarrow> conn_ok c (async_receive iv buf h s)"
  by (simp add: async_receive_def recv_data_ok)

lemma async_shutdown_ok: "conn_ok c s \<Longrightarrow> c \<le> full_cwnd \<Longrightarrow> conn_ok c (async_shutdown iv h s)"
  by (simp add: async_shutdown_def cb_shutdown_ok)

lemma close_idle: "conn_ok c s \<Longrightarrow> idle_ok (close s)"
  by (simp add: conn_ok_def idle_ok_def close_def cancel_def cancel_next_layer_def cb_close_def emit_def
      canceltimers_def set_timer_def rcv_buf_clear_def Let_def)
    (simp add: buf_cnt_def buf_clear_def)

lemma setsockopt_ok:
  assumes "socket_ok s" and "proper_event s (Set_option opt v)"
  shows "socket_ok (snd (setsockopt opt v s))"
proof (cases opt)
  case Opt_snd_buf
  with assms show ?thesis
    by (auto simp: setsockopt_def set_hiwat_def socket_ok_def conn_ok_def idle_ok_def timers_ok_def pending_ok_def buf_wf_def)
next
  case Opt_rcv_buf
  with assms show ?thesis
    by (auto simp: setsockopt_def set_hiwat_def socket_ok_def conn_ok_def idle_ok_def timers_ok_def pending_ok_def buf_cnt_def)
qed (use assms in \<open>auto simp: setsockopt_def socket_ok_def idle_ok_def\<close>)

text \<open>Events that find the socket idle change nothing that matters.\<close>

lemma idle_step_ok:
  assumes i: "idle_ok s" and step: "socket_step iv s e = Some t" and p: "proper_event s e"
  shows "socket_ok t"
proof -
  have ok: "socket_ok s" using i by (simp add: socket_ok_def)
  have nl: "\<not> next_layer s" using i by (simp add: idle_ok_def)
  have c: "idle_ok (cancel s)"
    using i by (simp add: idle_ok_def cancel_def cancel_next_layer_def emit_def Let_def)
  show ?thesis
  proof (cases e)
    case (Create bound f)
    with step create_ok [OF ok] show ?thesis by auto
  next
    case (Set_option opt v)
    with step setsockopt_ok [OF ok] p show ?thesis by auto
  next
    case Cancel
    with step c show ?thesis by (auto simp: socket_ok_def)
  next
    case (Delay_expired err)
    with step i ok show ?thesis by (auto simp: handle_delay_recv_operation_def idle_ok_def socket_ok_def split: if_splits)
  qed (use step nl i ok in \<open>auto simp: async_connect_def async_accept_def async_send_def async_receive_def
      async_shutdown_def close_def handle_receive_def handle_mtu_def idle_ok_def split: if_splits\<close>)
qed

lemma conn_step_ok:
  assumes ok: "conn_ok full_cwnd s" and step: "socket_step iv s e = Some t" and p: "proper_event s e"
  shows "socket_ok t"
proof (cases e)
  case (Create bound f)
  with step create_ok [of s] ok show ?thesis by (auto simp: socket_ok_def)
next
  case (Set_option opt v)
  with step setsockopt_ok [of s] ok p show ?thesis by (auto simp: socket_ok_def)
next
  case Close
  with step close_idle [OF ok] show ?thesis by (auto simp: socket_ok_def)
next
  case (Send cbuf h)
  with step p async_send_ok [OF ok] show ?thesis by (auto simp: socket_ok_def)
qed (use step ok in \<open>auto simp: socket_ok_def async_accept_ok async_receive_ok async_shutdown_ok cancel_ok
      handle_mtu_ok handle_delay_ok handle_fast_timo_ok handle_slow_timo_ok split: if_splits
      dest: async_connect_ok handle_receive_ok\<close>)

interpretation sock: machine socket_start "proper_step iv" socket_ok for iv
proof
  show "socket_ok s" if "socket_start s" for s using that by (rule socket_start_ok)
  show "socket_ok t" if "socket_ok s" "proper_step iv s e = Some t" for s e t
    using that idle_step_ok conn_step_ok by (auto simp: proper_step_def socket_ok_def [of s] split: if_splits)
qed

section \<open>Properties\<close>

lemma reachable_conn:
  "socket_start s \<Longrightarrow> run (proper_step iv) s es = Some t \<Longrightarrow> next_layer t \<Longrightarrow> conn_ok full_cwnd t"
  using sock.run_inv [of s iv es t] by (auto simp: socket_ok_def idle_ok_def)

definition example_open :: udt_socket where
  "example_open = snd (create True 0 (udt_socket_init 0 0))"

lemma example_open_run: "run (proper_step iv) (udt_socket_init 0 0) [Create True 0] = Some example_open"
  by (simp add: proper_step_def example_open_def)

lemma example_open_layer: "next_layer example_open"
  by (simp add: example_open_def create_def udt_socket_init_def cb_init_def canceltimers_def set_timer_def emit_def
      Let_def)

lemma example_start: "socket_start (udt_socket_init a b)"
  by (simp add: socket_start_def udt_socket_init_def udt_snd_buf_init_def udt_rcv_buf_init_def)

text \<open>C10. On every socket reached from construction by any events, the retransmission and the
  persist timer are never running together, the backoff index is inside its 13-entry table, and
  the retransmission value stays between one and sixteen seconds.\<close>

theorem timers_never_both:
  assumes "socket_start s" and "run (proper_step iv) s es = Some t" and "next_layer t"
  shows "(m_timers t TCPT_REXMT = 0 \<or> m_timers t TCPT_PERSIST = 0) \<and>
    0 \<le> m_rxtshift t \<and> nat (m_rxtshift t) < length s_tcp_backoff \<and>
    TCPTV_MIN \<le> m_rxtcur t \<and> m_rxtcur t \<le> TCPTV_REXMTMAX \<and>
    0 \<le> m_timers t TCPT_REXMT \<and> m_timers t TCPT_REXMT \<le> TCPTV_REXMTMAX \<and>
    0 \<le> m_timers t TCPT_PERSIST \<and> m_timers t TCPT_PERSIST \<le> TCPTV_PERSMAX"
  using reachable_conn [OF assms]
  by (auto simp: conn_ok_def timers_ok_def s_tcp_backoff_def TCP_MAXRXTSHIFT_def)

theorem timers_never_both_witness:
  "run (proper_step (\<lambda>_. 0)) (udt_socket_init 0 0) [Create True 0] = Some example_open \<and>
   (m_timers example_open TCPT_REXMT = 0 \<or> m_timers example_open TCPT_PERSIST = 0)"
  using timers_never_both [OF example_start example_open_run example_open_layer] example_open_run by simp

text \<open>C11. On every reachable socket both buffers count exactly the bytes of the packets they
  hold and never hold more than their high-water mark, so the space they report is exact.\<close>

theorem buffers_count_exactly:
  assumes "socket_start s" and "run (proper_step iv) s es = Some t"
  shows "unat (m_cc (snd_buf t)) = sum_len (m_pkts (snd_buf t)) \<and> m_cc (snd_buf t) \<le> m_hiwat (snd_buf t) \<and>
    unat (m_cc (rcv_buf t)) = sum_len (m_pkts (rcv_buf t)) \<and> m_cc (rcv_buf t) \<le> m_hiwat (rcv_buf t) \<and>
    unat (acc (snd_buf t)) = unat (m_hiwat (snd_buf t)) - sum_len (m_pkts (snd_buf t))"
proof -
  have "buf_wf (snd_buf t) \<and> buf_cnt (rcv_buf t)"
    using sock.run_inv [OF assms] by (auto simp: socket_ok_def conn_ok_def idle_ok_def)
  then show ?thesis by (simp add: buf_wf_def buf_cnt_def unat_acc)
qed

theorem buffers_count_exactly_witness:
  "run (proper_step (\<lambda>_. 0)) (udt_socket_init 0 0) [Create True 0] = Some example_open \<and>
   unat (m_cc (snd_buf example_open)) = sum_len (m_pkts (snd_buf example_open))"
  using buffers_count_exactly [OF example_start example_open_run] example_open_run by simp

text \<open>On every reachable open socket \<open>pending_data\<close>, which \<open>output\<close> and the persist timer
  rely on, is the total size of the queued send operations.\<close>

theorem pending_is_queued:
  assumes "socket_start s" and "run (proper_step iv) s es = Some t" and "next_layer t"
  shows "pending_data t = sum_list (map (\<lambda>ops. buffer_size (send_buf ops)) (send_ops t))"
  using reachable_conn [OF assms] by (simp add: conn_ok_def pending_ok_def op_size_def [abs_def])

theorem pending_is_queued_witness:
  "run (proper_step (\<lambda>_. 0)) (udt_socket_init 0 0) [Create True 0] = Some example_open \<and>
   pending_data example_open = sum_list (map (\<lambda>ops. buffer_size (send_buf ops)) (send_ops example_open))"
  using pending_is_queued [OF example_start example_open_run example_open_layer] example_open_run by simp

text \<open>C12. On every reachable open socket the congestion window holds at least eight segments of
  918 bytes, so growing it never divides by zero and always has a result within its cap.\<close>

theorem cwnd_never_starves:
  assumes "socket_start s" and "run (proper_step iv) s es = Some t" and "next_layer t"
  shows "m_maxseg t = 918 \<and> 7344 \<le> unat (m_snd_cwnd t) \<and>
    (\<exists>u. incr_snd_cwnd t = Some u \<and> 7344 \<le> unat (m_snd_cwnd u) \<and> unat (m_snd_cwnd u) \<le> 65535)"
proof -
  have ok: "conn_ok full_cwnd t" by (rule reachable_conn [OF assms])
  obtain u where "incr_snd_cwnd t = Some u" "conn_ok full_cwnd u" "unat (m_snd_cwnd u) \<le> 65535"
    using incr_snd_cwnd_ok [OF ok] by blast
  with ok show ?thesis by (simp add: conn_ok_def udt_const)
qed

theorem cwnd_never_starves_witness:
  "run (proper_step (\<lambda>_. 0)) (udt_socket_init 0 0) [Create True 0] = Some example_open \<and>
   7344 \<le> unat (m_snd_cwnd example_open)"
  using cwnd_never_starves [OF example_start example_open_run example_open_layer] example_open_run by simp

text \<open>C13. A reachable socket that is not open holds no queued operation, no handler, no running
  timer and no MTU prober: nothing of the deleted control block can be called back.\<close>

theorem closed_is_idle:
  assumes "socket_start s" and "run (proper_step iv) s es = Some t" and "\<not> next_layer t"
  shows "send_ops t = [] \<and> recv_ops t = [] \<and> pending_data t = 0 \<and> connect_handler t = None \<and>
    accept_handler t = None \<and> shutdown_handler t = None \<and> \<not> m_fast_timer t \<and> \<not> m_slow_timer t \<and> \<not> mtu_prober t"
  using sock.run_inv [OF assms(1,2)] assms(3) by (auto simp: socket_ok_def conn_ok_def idle_ok_def)

theorem closed_is_idle_witness:
  "\<exists>t. run (proper_step (\<lambda>_. 0)) (udt_socket_init 0 0)
      [Create True 0, Receive \<lparr>mbuf_null = False, mbuf_size = 4\<rparr> 1, Close] = Some t \<and> recv_ops t = []"
proof -
  let ?es = "[Create True 0, Receive \<lparr>mbuf_null = False, mbuf_size = 4\<rparr> 1, Close]"
  obtain t where t: "run (proper_step (\<lambda>_. 0)) (udt_socket_init 0 0) ?es = Some t"
    by (simp add: proper_step_def)
  moreover have "\<not> next_layer (close s)" for s
    by (simp add: close_def cb_close_def canceltimers_def set_timer_def emit_def Let_def)
  then have "\<not> next_layer t" using t by (auto simp: proper_step_def)
  ultimately show ?thesis using closed_is_idle [OF example_start t] by blast
qed

end
