(* ===== verification/Udt_Receive.thy ===== *)
theory Udt_Receive
  imports Udt_Socket
begin

text \<open>
  Reliable delivery, receiver's side. The peer's byte stream is a list \<open>S\<close> numbered from a base
  \<open>b\<close>; a data segment carries a piece of it. Whatever segments arrive, in whatever order and
  how often, and whatever else happens on the socket meanwhile, the bytes handed to the
  receive operations followed by the bytes buffered are a prefix of \<open>S\<close> that ends at \<open>m_rcv_nxt\<close>.
\<close>

section \<open>What the receiver's side consists of\<close>

fun io_bytes :: "effect \<Rightarrow> u8 list" where
  "io_bytes (Post_io h e n bytes) = bytes"
| "io_bytes _ = []"

definition delivered :: "udt_socket \<Rightarrow> u8 list" where
  "delivered s = concat (map io_bytes (effects s))"

text \<open>
  \<open>eof_known\<close>: the end of the stream has been recorded as the last error, or told to the handler
  of an operation.
\<close>

fun eof_post :: "effect \<Rightarrow> bool" where
  "eof_post (Post_io h e n bytes) \<longleftrightarrow> e = udt_error Eof"
| "eof_post _ \<longleftrightarrow> False"

definition eof_told :: "udt_socket \<Rightarrow> bool" where
  "eof_told s \<longleftrightarrow> list_ex eof_post (effects s)"

definition eof_known :: "udt_socket \<Rightarrow> bool" where
  "eof_known s \<longleftrightarrow> m_last_error s = udt_error Eof \<or> eof_told s"

definition rx_view :: "udt_socket \<Rightarrow> udt_seq \<times> udt_rcv_buf \<times> u8 list \<times> bool" where
  "rx_view s = (m_rcv_nxt s, rcv_buf s, delivered s, eof_known s)"

lemma udt_error_eq [simp]: "udt_error v = udt_error w \<longleftrightarrow> v = w"
  by (simp add: udt_error_def)

lemma no_error_not_eof [simp]: "no_error \<noteq> udt_error Eof"
  by (simp add: no_error_def udt_error_def)

lemma delivered_emit [simp]: "delivered (emit e s) = delivered s @ io_bytes e"
  by (simp add: delivered_def emit_def)

lemma rx_view_frame [simp]:
    "rx_view (s\<lparr>m_state := x0\<rparr>) = rx_view s"
    "rx_view (s\<lparr>m_force := x1\<rparr>) = rx_view s"
    "rx_view (s\<lparr>m_maxseg := x2\<rparr>) = rx_view s"
    "rx_view (s\<lparr>m_flags := x3\<rparr>) = rx_view s"
    "rx_view (s\<lparr>m_snd_una := x4\<rparr>) = rx_view s"
    "rx_view (s\<lparr>m_snd_nxt := x5\<rparr>) = rx_view s"
    "rx_view (s\<lparr>m_snd_fack := x6\<rparr>) = rx_view s"
    "rx_view (s\<lparr>m_retrans_data := x7\<rparr>) = rx_view s"
    "rx_view (s\<lparr>m_iss := x8\<rparr>) = rx_view s"
    "rx_view (s\<lparr>m_pseq := x9\<rparr>) = rx_view s"
    "rx_view (s\<lparr>m_rcv_wnd := x10\<rparr>) = rx_view s"
    "rx_view (s\<lparr>m_irs := x11\<rparr>) = rx_view s"
    "rx_view (s\<lparr>m_rcv_adv := x12\<rparr>) = rx_view s"
    "rx_view (s\<lparr>m_snd_max := x13\<rparr>) = rx_view s"
    "rx_view (s\<lparr>m_rxtshift := x14\<rparr>) = rx_view s"
    "rx_view (s\<lparr>m_rxtcur := x15\<rparr>) = rx_view s"
    "rx_view (s\<lparr>m_rtt := x16\<rparr>) = rx_view s"
    "rx_view (s\<lparr>m_rtseq := x17\<rparr>) = rx_view s"
    "rx_view (s\<lparr>m_srtt := x18\<rparr>) = rx_view s"
    "rx_view (s\<lparr>m_rttvar := x19\<rparr>) = rx_view s"
    "rx_view (s\<lparr>m_rttmin := x20\<rparr>) = rx_view s"
    "rx_view (s\<lparr>m_idle := x21\<rparr>) = rx_view s"
    "rx_view (s\<lparr>m_tick := x22\<rparr>) = rx_view s"
    "rx_view (s\<lparr>m_timers := x23\<rparr>) = rx_view s"
    "rx_view (s\<lparr>m_fast_timer := x24\<rparr>) = rx_view s"
    "rx_view (s\<lparr>m_slow_timer := x25\<rparr>) = rx_view s"
    "rx_view (s\<lparr>m_snd_wl1 := x26\<rparr>) = rx_view s"
    "rx_view (s\<lparr>m_snd_wl2 := x27\<rparr>) = rx_view s"
    "rx_view (s\<lparr>m_snd_wnd := x28\<rparr>) = rx_view s"
    "rx_view (s\<lparr>m_dupacks := x29\<rparr>) = rx_view s"
    "rx_view (s\<lparr>m_snd_cwnd := x30\<rparr>) = rx_view s"
    "rx_view (s\<lparr>m_pcwnd := x31\<rparr>) = rx_view s"
    "rx_view (s\<lparr>m_max_sndwnd := x32\<rparr>) = rx_view s"
    "rx_view (s\<lparr>m_tstamp_first := x33\<rparr>) = rx_view s"
    "rx_view (s\<lparr>m_tstamp_second := x34\<rparr>) = rx_view s"
    "rx_view (s\<lparr>m_tstamp_third := x35\<rparr>) = rx_view s"
    "rx_view (s\<lparr>next_layer := x37\<rparr>) = rx_view s"
    "rx_view (s\<lparr>remote_ep := x38\<rparr>) = rx_view s"
    "rx_view (s\<lparr>peer_ep := x39\<rparr>) = rx_view s"
    "rx_view (s\<lparr>send_ops := x40\<rparr>) = rx_view s"
    "rx_view (s\<lparr>snd_buf := x41\<rparr>) = rx_view s"
    "rx_view (s\<lparr>recv_ops := x42\<rparr>) = rx_view s"
    "rx_view (s\<lparr>connect_handler := x43\<rparr>) = rx_view s"
    "rx_view (s\<lparr>accept_handler := x44\<rparr>) = rx_view s"
    "rx_view (s\<lparr>shutdown_handler := x45\<rparr>) = rx_view s"
    "rx_view (s\<lparr>mtu_prober := x46\<rparr>) = rx_view s"
    "rx_view (s\<lparr>pending_data := x47\<rparr>) = rx_view s"
    "rx_view (s\<lparr>rcv_pkt := x48\<rparr>) = rx_view s"
    "rx_view (s\<lparr>so_options := x49\<rparr>) = rx_view s"
  by (simp_all add: rx_view_def delivered_def eof_known_def eof_told_def)

lemma eof_told_emit [simp]: "eof_told (emit e s) \<longleftrightarrow> eof_told s \<or> eof_post e"
  by (auto simp: eof_told_def emit_def)

lemma eof_known_emit [simp]: "eof_known (emit e s) \<longleftrightarrow> eof_known s \<or> eof_post e"
  by (auto simp: eof_known_def emit_def eof_told_def)

lemma rx_view_emit [simp]: "io_bytes e = [] \<Longrightarrow> \<not> eof_post e \<Longrightarrow> rx_view (emit e s) = rx_view s"
  by (simp add: rx_view_def) (simp add: emit_def)

lemma rx_view_post_last [simp]: "rx_view (emit (Post_io h (get_lasterror s) n []) s) = rx_view s"
  by (simp add: rx_view_def) (auto simp: emit_def get_lasterror_def eof_known_def)

lemma rx_view_flags [simp]: "rx_view (set_flags f s) = rx_view s" "rx_view (clear_flags f s) = rx_view s"
    "rx_view (set_timer t v s) = rx_view s"
  by (simp_all add: set_flags_def clear_flags_def set_timer_def)

section \<open>Sending leaves it alone\<close>

lemma rx_view_state [simp]: "rx_view (slow_start s) = rx_view s" "rx_view (decr_snd_cwnd s) = rx_view s"
    "rx_view (update_snd_una a s) = rx_view s" "rx_view (update_snd_fack a s) = rx_view s"
    "rx_view (update_snd_wnd w s) = rx_view s" "rx_view (reset_rexmt_timer s) = rx_view s"
    "rx_view (leave_persist s) = rx_view s" "rx_view (canceltimers s) = rx_view s"
    "rx_view (xmit_timer r s) = rx_view s" "rx_view (enter_persist s) = rx_view s"
    "rx_view (tcp_sendseqinit s) = rx_view s" "rx_view (set_mtu m s) = rx_view s"
  by (simp_all add: slow_start_def decr_snd_cwnd_def update_snd_una_def update_snd_fack_def update_snd_wnd_def
      reset_rexmt_timer_def leave_persist_def canceltimers_def xmit_timer_def enter_persist_def
      tcp_sendseqinit_def set_mtu_def Let_def)

lemma rx_view_state2 [simp]: "rx_view (handle_packet_lost t s) = rx_view s" "rx_view (update_rtt a s) = rx_view s"
  by (simp_all add: handle_packet_lost_def update_rtt_def Let_def)

lemma rx_view_incr: "incr_snd_cwnd s = Some t \<Longrightarrow> rx_view t = rx_view s"
  by (auto simp: incr_snd_cwnd_def Let_def split: if_splits)

lemma rx_view_consume_loop: "consume_loop ops n s = (ops', n', t) \<Longrightarrow> rx_view t = rx_view s"
  by (induction ops n s arbitrary: ops' n' t rule: consume_loop.induct)
    (auto simp: Let_def split: prod.splits bool.splits)

lemma rx_view_consume [simp]: "rx_view (snd (consume_pending_data s)) = rx_view s"
  by (auto simp: consume_pending_data_def dest: rx_view_consume_loop split: prod.splits)

lemma rx_view_pkts [simp]: "rx_view (snd (get_snd_pkt n s)) = rx_view s" "rx_view (validate_first_pkt s) = rx_view s"
  by (simp_all add: get_snd_pkt_def validate_first_pkt_def Let_def split: option.splits list.splits prod.splits)

lemma rx_view_get_snd_pkt: "get_snd_pkt n s = (p, t) \<Longrightarrow> rx_view t = rx_view s"
  by (metis rx_view_pkts(1) snd_conv)

lemma rx_view_out_select: "out_select s = (p, a, f, t) \<Longrightarrow> rx_view t = rx_view s"
  unfolding out_select_def Let_def by (auto split: if_splits prod.splits dest!: rx_view_get_snd_pkt)

lemma rx_view_out [simp]: "rx_view (udp_output h d s) = rx_view s" "rx_view (respond a q f s) = rx_view s"
    "rx_view (reset_peer s) = rx_view s" "rx_view (out_account fl len s) = rx_view s"
  by (simp_all add: udp_output_def respond_def reset_peer_def out_account_def Let_def)

lemma rx_view_out_send [simp]: "rx_view (out_send rw fl pkt s) = rx_view s"
  by (simp add: out_send_def Let_def)

lemma rx_view_out_pass: "out_pass iv s = (n, a, t) \<Longrightarrow> rx_view t = rx_view s"
  by (auto simp: out_pass_def Let_def split: prod.splits if_splits dest: rx_view_out_select)

lemma rx_view_out_loop [simp]: "rx_view (snd (out_loop iv k n s)) = rx_view s"
  by (induction iv k n s rule: out_loop.induct) (auto split: prod.splits dest: rx_view_out_pass)

lemma rx_view_cb_output [simp]: "rx_view (snd (cb_output iv s)) = rx_view s"
  by (simp add: cb_output_def Let_def)

lemma rx_view_on_connected: "on_connected s = Some t \<Longrightarrow> rx_view t = rx_view s"
  by (auto simp: on_connected_def do_probe_mtu_def bind_eq_Some_conv split: if_splits option.splits)

lemma rx_view_drop_snd [simp]: "rx_view (drop_snd_pkt pre p suf s) = rx_view s"
  by (simp add: drop_snd_pkt_def Let_def)

lemma rx_view_drop_acked_loop: "rx_view (snd (drop_acked_loop a ps n s)) = rx_view s"
  by (induction a ps n s rule: drop_acked_loop.induct) simp_all

lemma rx_view_drop_acked [simp]: "rx_view (snd (drop_acked_data a s)) = rx_view s"
  using rx_view_drop_acked_loop [of a "m_pkts (snd_buf s)" 0 s]
  by (auto simp: drop_acked_data_def split: prod.splits)

lemma rx_view_do_fast_rexmt [simp]: "rx_view (do_fast_rexmt iv t a s) = rx_view s"
  by (simp add: do_fast_rexmt_def Let_def)

lemma rx_view_sack_block: "sack_block b e pre suf s = (stop, pre', suf', t) \<Longrightarrow> rx_view t = rx_view s"
  by (induction b e pre suf s arbitrary: stop pre' suf' t rule: sack_block.induct) (auto split: if_splits)

lemma rx_view_sack_blocks [simp]: "rx_view (sack_blocks prs pre suf s) = rx_view s"
  by (induction prs pre suf s rule: sack_blocks.induct) (auto split: prod.splits bool.splits dest: rx_view_sack_block)

lemma rx_view_handle_options: "handle_options b s = Some t \<Longrightarrow> rx_view t = rx_view s"
  by (erule handle_options_keeps [where P = "\<lambda>t. rx_view t = rx_view s"])
    (simp_all add: handle_option_sack_def handle_option_cwnd_def Let_def split: list.splits)

lemma rx_view_update_ack_state: "update_ack_state s = Some t \<Longrightarrow> rx_view t = rx_view s"
  unfolding update_ack_state_def Let_def bind_eq_Some_conv
  by (elim exE conjE) (cases "m_state s"; auto split: if_splits tcp_state.splits dest!: rx_view_on_connected)

lemma rx_view_same_ack [simp]: "rx_view (snd (handle_same_ack iv t a w s)) = rx_view s"
  by (simp add: handle_same_ack_def Let_def)

lemma rx_view_new_ack: "handle_new_ack a w s = Some (stop, t) \<Longrightarrow> rx_view t = rx_view s"
  by (auto simp: handle_new_ack_def bind_eq_Some_conv dest: rx_view_incr)

lemma rx_view_handle_ack:
  "handle_ack iv tick pkt s = Some (stop, t) \<Longrightarrow> is_old_ack (uh_ack (hdr pkt)) s \<or> \<not> seq_gt (uh_ack (hdr pkt)) (m_snd_max s) \<Longrightarrow>
    rx_view t = rx_view s"
  unfolding handle_ack_def handle_valid_ack_def Let_def bind_eq_Some_conv
  by (auto simp: bind_eq_Some_conv split: if_splits dest!: rx_view_update_ack_state rx_view_handle_options
      rx_view_new_ack) (metis rx_view_same_ack snd_conv)+

section \<open>The stream and its segments\<close>

text \<open>
  \<open>F\<close> tells whether the peer has ended his stream: then no byte follows \<open>S\<close>, and a FIN takes the
  sequence number behind its last byte.
\<close>

definition in_stream :: "udt_seq \<Rightarrow> u8 list \<Rightarrow> bool \<Rightarrow> udt_packet \<Rightarrow> bool" where
  "in_stream b S F p \<longleftrightarrow> pkt_ok p \<and> (has_fin (pflags p) \<longrightarrow> F \<and> off b (pseq p) + unat (plen p) = length S) \<and>
     off b (pseq p) + unat (plen p) \<le> length S \<and> pdata p = take (unat (plen p)) (drop (off b (pseq p)) S)"

text \<open>
  The receiver has \<open>n\<close> bytes of the stream in order; \<open>f\<close> is by how much \<open>m_rcv_nxt\<close> is beyond
  them. That happens behind a FIN only, and the end is known to the user only then.
\<close>

definition rx_at :: "udt_seq \<Rightarrow> u8 list \<Rightarrow> bool \<Rightarrow> nat \<Rightarrow> nat \<Rightarrow> udt_seq \<times> udt_rcv_buf \<times> u8 list \<times> bool \<Rightarrow> bool" where
  "rx_at b S F n f = (\<lambda>(nxt, rb, d, eof).
     n \<le> length S \<and> (f \<noteq> 0 \<longrightarrow> F \<and> n = length S) \<and> (eof \<longrightarrow> f \<noteq> 0) \<and>
     nxt = b + word_of_nat n + word_of_nat f \<and> d @ payload (m_pkts rb) = take n S \<and>
     contig (b + word_of_nat n - word_of_nat (sum_len (m_pkts rb))) (m_pkts rb) \<and>
     (\<forall>p \<in> set (m_pkts rb). has_fin (pflags p) \<longrightarrow> F \<and> n = length S))"

definition rx_inv :: "udt_seq \<Rightarrow> u8 list \<Rightarrow> bool \<Rightarrow> nat \<Rightarrow> udt_seq \<times> udt_rcv_buf \<times> u8 list \<times> bool \<Rightarrow> bool" where
  "rx_inv b S F j = (\<lambda>(nxt, rb, d, eof). length S < 2 ^ 32 \<and> (F \<longrightarrow> length S + 4 < 2 ^ 31) \<and> j \<le> 2 \<and> buf_wf rb \<and>
     (\<forall>p \<in> set (m_reasm_pkts rb). in_stream b S F p) \<and> (\<exists>n f. f \<le> j \<and> rx_at b S F n f (nxt, rb, d, eof)))"

definition rx_ok :: "udt_seq \<Rightarrow> u8 list \<Rightarrow> bool \<Rightarrow> nat \<Rightarrow> udt_socket \<Rightarrow> bool" where
  "rx_ok b S F j s \<longleftrightarrow> rx_inv b S F j (rx_view s)"

lemma rx_ok_view: "rx_view t = rx_view s \<Longrightarrow> rx_ok b S F j s \<Longrightarrow> rx_ok b S F j t"
  by (simp add: rx_ok_def)

lemma rx_ok_tuple: "rx_ok b S F j s \<longleftrightarrow> rx_inv b S F j (m_rcv_nxt s, rcv_buf s, delivered s, eof_known s)"
  by (simp add: rx_ok_def rx_view_def)

lemma rx_ok_le: "rx_ok b S F j s \<Longrightarrow> j \<le> k \<Longrightarrow> k \<le> 2 \<Longrightarrow> rx_ok b S F k s"
  unfolding rx_ok_tuple rx_inv_def prod.case by (blast intro: order_trans)

text \<open>Recording another error than the end of the stream.\<close>

lemma rx_ok_error: "rx_ok b S F j s \<Longrightarrow> x \<noteq> udt_error Eof \<Longrightarrow> rx_ok b S F j (s\<lparr>m_last_error := x\<rparr>)"
  unfolding rx_ok_tuple rx_inv_def rx_at_def by (fastforce simp: eof_known_def eof_told_def delivered_def)

lemma rx_view_rcv [simp]: "rx_view (s\<lparr>rcv_buf := rb\<rparr>) = (m_rcv_nxt s, rb, delivered s, eof_known s)"
    "rx_view (s\<lparr>m_rcv_nxt := q\<rparr>) = (q, rcv_buf s, delivered s, eof_known s)"
  by (simp_all add: rx_view_def delivered_def eof_known_def eof_told_def)

lemma delivered_rcv [simp]: "delivered (s\<lparr>rcv_buf := rb\<rparr>) = delivered s" "delivered (s\<lparr>m_rcv_nxt := q\<rparr>) = delivered s"
    "delivered (set_flags f s) = delivered s"
  by (simp_all add: delivered_def set_flags_def)

lemma eof_known_rcv [simp]: "eof_known (s\<lparr>rcv_buf := rb\<rparr>) = eof_known s" "eof_known (s\<lparr>m_rcv_nxt := q\<rparr>) = eof_known s"
    "eof_known (set_flags f s) = eof_known s"
  by (simp_all add: eof_known_def eof_told_def set_flags_def)

lemma off_of_nat: "n < 2 ^ 32 \<Longrightarrow> off b (b + word_of_nat n) = n"
  using off_add [of b b n] by simp

text \<open>A segment that is next in order ends where the receiver then is; none is next behind a FIN.\<close>

lemma rx_at_append:
  assumes at: "rx_at b S F n f (nxt, rb0, d, eof)" and p: "in_stream b S F p" and nxt: "pseq p = nxt"
    and app: "append_pkt p rb0 = (True, rb)" and l: "length S < 2 ^ 32" "F \<longrightarrow> length S + 4 < 2 ^ 31" "f \<le> 2"
  shows "f = 0 \<and> rx_at b S F (n + unat (plen p)) 0 (nxt + ucast (plen p), rb, d, eof)"
proof -
  note at' = at [unfolded rx_at_def prod.case]
  have n: "n \<le> length S" "nxt = b + word_of_nat (n + f)" "d @ payload (m_pkts rb0) = take n S"
    and f: "f \<noteq> 0 \<Longrightarrow> F \<and> n = length S"
    and c: "contig (b + word_of_nat n - word_of_nat (sum_len (m_pkts rb0))) (m_pkts rb0)"
    using at' by (auto simp: add.assoc)
  note g = append_pkt_cc [OF app]
  have "n + f < 2 ^ 32" using n(1) f l by (cases "f = 0") auto
  then have o': "off b (pseq p) = n + f" unfolding nxt n(2) by (rule off_of_nat)
  have pd: "n + f + unat (plen p) \<le> length S" "pdata p = take (unat (plen p)) (drop (n + f) S)"
      "has_fin (pflags p) \<longrightarrow> F \<and> n + f + unat (plen p) = length S"
    using p by (simp_all add: in_stream_def o')
  have f0: "f = 0" using pd(1) f by (cases "f = 0") auto
  have e: "nxt + ucast (plen p) = b + word_of_nat (n + unat (plen p))" by (simp add: n(2) f0 add.assoc)
  have "take n S @ pdata p = take (n + unat (plen p)) S" using pd(2) by (simp add: f0 take_add)
  then have d: "d @ payload (m_pkts rb) = take (n + unat (plen p)) S" using n(3) by (simp add: g(1) flip: append_assoc)
  have ctg: "contig (b + word_of_nat (n + unat (plen p)) - word_of_nat (sum_len (m_pkts rb))) (m_pkts rb)"
    using c nxt by (simp add: n(2) f0 g(1) contig_append algebra_simps)
  have fin: "\<forall>q \<in> set (m_pkts rb). has_fin (pflags q) \<longrightarrow> F \<and> n + unat (plen p) = length S"
    using at' pd(1,3) by (auto simp: g(1) f0)
  have "rx_at b S F (n + unat (plen p)) 0 (nxt + ucast (plen p), rb, d, eof)"
    unfolding rx_at_def prod.case e using pd(1) d ctg fin at' f0 by simp
  with f0 show ?thesis by simp
qed

lemma rx_inv_append:
  assumes ok: "rx_inv b S F j (nxt, rb0, d, eof)" and p: "in_stream b S F p" and nxt: "pseq p = nxt"
    and app: "append_pkt p rb0 = (True, rb)"
  shows "rx_inv b S F j (nxt + ucast (plen p), rb, d, eof)"
proof -
  from ok obtain n f where at: "rx_at b S F n f (nxt, rb0, d, eof)" and f: "f \<le> j" and j: "j \<le> 2"
    and l: "length S < 2 ^ 32" "F \<longrightarrow> length S + 4 < 2 ^ 31" and wf: "buf_wf rb0"
    and rs: "\<forall>p \<in> set (m_reasm_pkts rb0). in_stream b S F p"
    by (auto simp: rx_inv_def)
  have "f \<le> 2" using f j by simp
  note a = rx_at_append [OF at p nxt app l this]
  have more: "m_reasm_pkts rb = m_reasm_pkts rb0" using app by (auto simp: append_pkt_def split: if_splits)
  have "pkt_ok p" using p by (simp add: in_stream_def)
  then have "buf_wf rb" by (rule append_pkt_wf [OF app wf])
  with a l j rs show ?thesis unfolding rx_inv_def prod.case more by blast
qed

lemma rx_inv_reasm:
  "rx_inv b S F j (nxt, rb, d, eof) \<Longrightarrow> \<forall>p \<in> set q. in_stream b S F p \<Longrightarrow> rx_inv b S F j (nxt, rb\<lparr>m_reasm_pkts := q\<rparr>, d, eof)"
  by (auto simp: rx_inv_def rx_at_def buf_wf_def)

lemma rx_inv_reasmD: "rx_inv b S F j (nxt, rb, d, eof) \<Longrightarrow> \<forall>p \<in> set (m_reasm_pkts rb). in_stream b S F p"
  by (auto simp: rx_inv_def)

lemma merge_loop_rx:
  "rx_ok b S F j s \<Longrightarrow> \<forall>p \<in> set ps. in_stream b S F p \<Longrightarrow> merge_loop ps s = (rest, t) \<Longrightarrow>
    rx_ok b S F j t \<and> set rest \<subseteq> set ps"
proof (induction ps s arbitrary: rest t rule: merge_loop.induct)
  case (1 s)
  then show ?case by simp
next
  case (2 p ps s)
  show ?case
  proof (cases "pseq p = m_rcv_nxt s \<and> fst (append_pkt p (rcv_buf s))")
    case False
    with 2 show ?thesis by (auto split: if_splits bool.splits prod.splits)
  next
    case True
    then obtain rb where rb: "append_pkt p (rcv_buf s) = (True, rb)" by (cases "append_pkt p (rcv_buf s)") auto
    let ?u = "s\<lparr>rcv_buf := rb, m_rcv_nxt := m_rcv_nxt s + ucast (plen p)\<rparr>"
    have p: "in_stream b S F p" and nxt: "pseq p = m_rcv_nxt s" using 2(3) True by auto
    have "rx_ok b S F j ?u"
      using rx_inv_append [OF 2(2) [unfolded rx_ok_tuple] p nxt rb] by (simp add: rx_ok_def)
    from 2(1) [OF _ rb [symmetric] _ this] 2(3,4) True rb show ?thesis by auto
  qed
qed

lemma merge_reasm_pkts_rx:
  assumes ok: "rx_ok b S F j s"
  shows "rx_ok b S F j (merge_reasm_pkts s)"
proof -
  obtain rest t where m: "merge_loop (m_reasm_pkts (rcv_buf s)) s = (rest, t)"
    by (cases "merge_loop (m_reasm_pkts (rcv_buf s)) s")
  have q: "\<forall>p \<in> set (m_reasm_pkts (rcv_buf s)). in_stream b S F p"
    using ok unfolding rx_ok_tuple by (rule rx_inv_reasmD)
  from merge_loop_rx [OF ok q m] have r: "rx_ok b S F j t" "\<forall>p \<in> set rest. in_stream b S F p" using q by auto
  define u where "u = (if m_rcv_nxt s \<noteq> m_rcv_nxt t then set_flags TF_NOTIFY_READ t else t)"
  have u: "m_rcv_nxt u = m_rcv_nxt t" "rcv_buf u = rcv_buf t" "delivered u = delivered t" "eof_known u = eof_known t"
    by (simp_all add: u_def) (simp_all add: set_flags_def)
  have "rx_ok b S F j (u\<lparr>rcv_buf := (rcv_buf u)\<lparr>m_reasm_pkts := rest\<rparr>\<rparr>)"
    using rx_inv_reasm [OF r(1) [unfolded rx_ok_tuple] r(2)] by (simp add: rx_ok_def u)
  then show ?thesis by (simp add: merge_reasm_pkts_def m Let_def u_def)
qed

lemma reasm_insert_set: "reasm_insert p qs = Some q \<Longrightarrow> set q = insert p (set qs)"
  by (induction p qs arbitrary: q rule: reasm_insert.induct) (auto split: if_splits)

lemma tcp_reass_rx:
  assumes ok: "rx_ok b S F j s" and p: "in_stream b S F p"
  shows "rx_ok b S F j (tcp_reass p s)"
proof (cases "reasm_insert p (m_reasm_pkts (rcv_buf s))")
  case None
  with ok show ?thesis by (simp add: tcp_reass_def)
next
  case (Some q)
  have "\<forall>p \<in> set q. in_stream b S F p"
    using reasm_insert_set [OF Some] p rx_inv_reasmD [OF ok [unfolded rx_ok_tuple]] by auto
  from rx_inv_reasm [OF ok [unfolded rx_ok_tuple] this]
  have "rx_ok b S F j (set_flags TF_PACKET_CONSUMED (s\<lparr>rcv_buf := (rcv_buf s)\<lparr>m_reasm_pkts := q\<rparr>\<rparr>))"
    by (simp add: rx_ok_def)
  then show ?thesis by (simp add: tcp_reass_def Some merge_reasm_pkts_rx)
qed

text \<open>The step both the fast path and \<open>TCP_REASS\<close> take for the segment that is next.\<close>

lemma rx_ok_next:
  assumes ok: "rx_ok b S F j s" and p: "in_stream b S F p" and nxt: "pseq p = m_rcv_nxt s"
    and app: "append_pkt p (rcv_buf s) = (True, rb)"
  shows "rx_ok b S F j (s\<lparr>rcv_buf := rb, m_rcv_nxt := m_rcv_nxt s + ucast (plen p)\<rparr>)"
  using rx_inv_append [OF ok [unfolded rx_ok_tuple] p nxt app] by (simp add: rx_ok_def)

lemma rx_ok_flags [simp]: "rx_ok b S F j (set_flags f s) = rx_ok b S F j s" "rx_ok b S F j (clear_flags f s) = rx_ok b S F j s"
  by (simp_all add: rx_ok_def)

lemma TCP_REASS_rx:
  assumes ok: "rx_ok b S F j s" and p: "in_stream b S F p"
  shows "rx_ok b S F j (TCP_REASS p s)"
proof (cases "pseq p = m_rcv_nxt s \<and> m_reasm_pkts (rcv_buf s) = []")
  case False
  then have "TCP_REASS p s = set_flags TF_ACKNOW (tcp_reass p s)" by (auto simp: TCP_REASS_def)
  then show ?thesis by (simp add: tcp_reass_rx [OF ok p])
next
  case True
  obtain c rb where a: "append_pkt p (rcv_buf s) = (c, rb)" by (cases "append_pkt p (rcv_buf s)")
  show ?thesis
  proof (cases c)
    case False
    with True a ok show ?thesis by (simp add: TCP_REASS_def)
  next
    case c: True
    then have "rx_ok b S F j (s\<lparr>rcv_buf := rb, m_rcv_nxt := m_rcv_nxt s + ucast (plen p)\<rparr>)"
      using True a by (intro rx_ok_next [OF ok p]) auto
    then have "rx_ok b S F j (set_flags f (s\<lparr>rcv_buf := rb, m_rcv_nxt := m_rcv_nxt s + ucast (plen p)\<rparr>))" for f
      by simp
    with True a c show ?thesis unfolding TCP_REASS_def Let_def by (cases "plen p = 0") simp_all
  qed
qed

lemma do_header_prediction_rx:
  assumes ok: "rx_ok b S F j s" and p: "plen p \<noteq> 0 \<Longrightarrow> in_stream b S F p"
  shows "rx_ok b S F j (snd (do_header_prediction iv p s))"
proof -
  obtain c rb where a: "append_pkt p (rcv_buf s) = (c, rb)" by (cases "append_pkt p (rcv_buf s)")
  have n: "rx_ok b S F j (set_flags f (s\<lparr>rcv_buf := rb, m_rcv_nxt := m_rcv_nxt s + ucast (plen p)\<rparr>))"
    if "c" "pseq p = m_rcv_nxt s" "plen p \<noteq> 0" for f
    using rx_ok_next [OF ok p that(2)] a that(1,3) by simp
  show ?thesis
  proof (cases "plen p = 0")
    case True
    have "rx_view (snd (do_header_prediction iv p s)) = rx_view s"
      using True unfolding do_header_prediction_def Let_def by simp
    with ok show ?thesis by (rule rx_ok_view [rotated])
  next
    case False
    with ok a n show ?thesis unfolding do_header_prediction_def Let_def by (auto split: bool.splits)
  qed
qed

section \<open>Handing bytes to the user\<close>

lemma copy_loop_flags:
  "copy_loop ps s n True = (k, out, rest) \<Longrightarrow> pflags ` set rest \<subseteq> pflags ` set ps"
proof (induction ps arbitrary: s n k out rest)
  case Nil
  then show ?case by simp
next
  case (Cons p ps)
  obtain k' out' rest' where r: "copy_loop ps (s + ucast (plen p)) (n - ucast (plen p)) True = (k', out', rest')"
    by (cases "copy_loop ps (s + ucast (plen p)) (n - ucast (plen p)) True")
  have "pflags (cut_front n p) = pflags p" by (simp add: cut_front_def)
  with Cons.prems Cons.IH [OF r] r show ?case by (auto simp: copy_loop_step split: if_splits)
qed

lemma copy_flags:
  assumes "copy buf True rb = (k, out, rb')" and "\<forall>p \<in> set (m_pkts rb). has_fin (pflags p) \<longrightarrow> P"
  shows "\<forall>p \<in> set (m_pkts rb'). has_fin (pflags p) \<longrightarrow> P"
proof -
  have "pflags ` set (m_pkts rb') \<subseteq> pflags ` set (m_pkts rb)"
    using assms(1) by (auto simp: copy_def split: if_splits prod.splits dest!: copy_loop_flags)
  with assms(2) show ?thesis by fastforce
qed

lemma copy_reasm: "copy buf e rb = (k, out, rb') \<Longrightarrow> m_reasm_pkts rb' = m_reasm_pkts rb"
  by (auto simp: copy_def split: if_splits prod.splits)

lemma copy_nothing: "copy buf True rb = (0, out, rb') \<Longrightarrow> buf_wf rb \<Longrightarrow> contig q (m_pkts rb) \<Longrightarrow> out = []"
proof (cases "mbuf_null buf")
  case False
  assume c: "copy buf True rb = (0, out, rb')" and wf: "buf_wf rb" "contig q (m_pkts rb)"
  note sp = copy_spec [OF c wf False]
  have "length (payload (m_pkts rb)) = unat (m_cc rb)" using wf(1) by (simp add: buf_wf_def length_payload)
  then have "length out = 0" using sp(1,2) by simp
  then show ?thesis by simp
qed (auto simp: copy_null)

lemma rx_at_copy:
  assumes at: "rx_at b S F n f (nxt, rb, d, eof)" and wf: "buf_wf rb" and c: "copy buf True rb = (k, out, rb')"
  shows "rx_at b S F n f (nxt, rb', d @ out, eof) \<and> buf_wf rb'"
proof (cases "mbuf_null buf")
  case True
  with at wf c show ?thesis by (auto simp: copy_null)
next
  case False
  define s where "s = b + word_of_nat n - word_of_nat (sum_len (m_pkts rb))"
  have ctg: "contig s (m_pkts rb)" using at by (simp add: rx_at_def s_def)
  note sp = copy_spec [OF c wf ctg False]
  have fin: "\<forall>p \<in> set (m_pkts rb'). has_fin (pflags p) \<longrightarrow> F \<and> n = length S"
    by (rule copy_flags [OF c]) (use at in \<open>simp add: rx_at_def\<close>)
  have cnt: "unat (m_cc rb) = sum_len (m_pkts rb)" "unat (m_cc rb') = sum_len (m_pkts rb')"
    using wf sp(5) by (auto simp: buf_wf_def)
  have "unat (m_cc rb) = unat k + unat (m_cc rb')"
    using copy_cnt [OF c] wf by (auto simp: buf_wf_def buf_cnt_def)
  then have "word_of_nat (sum_len (m_pkts rb)) = k + word_of_nat (sum_len (m_pkts rb'))"
    using cnt by (metis of_nat_add of_nat_unat ucast_id)
  then have "s + k = b + word_of_nat n - word_of_nat (sum_len (m_pkts rb'))" by (simp add: s_def)
  then have "contig (b + word_of_nat n - word_of_nat (sum_len (m_pkts rb'))) (m_pkts rb')" using sp(4) by simp
  moreover have "out @ payload (m_pkts rb') = payload (m_pkts rb)" using sp(2,3) by simp
  ultimately show ?thesis using at fin sp(5) by (simp add: rx_at_def)
qed

lemma rx_inv_copy:
  assumes ok: "rx_inv b S F j (nxt, rb, d, eof)" and c: "copy buf True rb = (k, out, rb')"
  shows "rx_inv b S F j (nxt, rb', d @ out, eof) \<and> (k = 0 \<longrightarrow> out = [])"
proof -
  from ok obtain n f where at: "rx_at b S F n f (nxt, rb, d, eof)" and f: "f \<le> j" and wf: "buf_wf rb"
    by (auto simp: rx_inv_def)
  from rx_at_copy [OF at wf c] f ok have "rx_inv b S F j (nxt, rb', d @ out, eof)"
    unfolding rx_inv_def prod.case copy_reasm [OF c] by blast
  moreover have "out = []" if "k = 0" using copy_nothing c that wf at by (auto simp: rx_at_def)
  ultimately show ?thesis by simp
qed

lemma dispatch_rx: "rx_ok b S F j s \<Longrightarrow> rx_ok b S F j (snd (dispatch_recv_operation ops s))"
proof -
  assume ok: "rx_ok b S F j s"
  obtain k out rb where c: "copy (recv_buf ops) True (rcv_buf s) = (k, out, rb)"
    by (cases "copy (recv_buf ops) True (rcv_buf s)")
  have r: "rx_inv b S F j (m_rcv_nxt s, rb, delivered s @ out, eof_known s)" "k = 0 \<Longrightarrow> out = []"
    using rx_inv_copy [OF ok [unfolded rx_ok_tuple] c] by simp_all
  have p: "rx_view (emit (Post_io h (get_lasterror s) n out) (s\<lparr>rcv_buf := rb\<rparr>)) =
      (m_rcv_nxt s, rb, delivered s @ out, eof_known s)" for h n
    by (simp add: rx_view_def) (auto simp: emit_def get_lasterror_def eof_known_def)
  have "get_lasterror (s\<lparr>rcv_buf := rb\<rparr>) = get_lasterror s" by (simp add: get_lasterror_def)
  then show ?thesis using r p by (cases "k = 0") (simp_all add: dispatch_recv_operation_def c Let_def rx_ok_def)
qed

lemma recv_loop_rx: "rx_ok b S F j s \<Longrightarrow> recv_loop ops x s = (ops', x', t) \<Longrightarrow> rx_ok b S F j t"
proof (induction ops x s arbitrary: ops' x' t rule: recv_loop.induct)
  case (1 out s)
  then show ?case by simp
next
  case (2 ops rest out s)
  obtain d u where d: "dispatch_recv_operation ops s = (d, u)" by (cases "dispatch_recv_operation ops s")
  have "rx_ok b S F j u" using dispatch_rx [OF 2(2), of ops] d by simp
  with 2 d show ?case by (auto simp: delay_recv_operation_def rx_ok_def split: if_splits bool.splits)
qed

lemma recv_data_rx: "rx_ok b S F j s \<Longrightarrow> rx_ok b S F j (recv_data iv s)"
proof -
  assume ok: "rx_ok b S F j s"
  obtain ops x t where r: "recv_loop (recv_ops s) False s = (ops, x, t)" by (cases "recv_loop (recv_ops s) False s")
  from recv_loop_rx [OF ok r] show ?thesis using ok by (simp add: recv_data_def r Let_def) (simp add: rx_ok_def)
qed

lemma delayed_loop_rx: "rx_ok b S F j s \<Longrightarrow> delayed_loop ops s = (ops', t) \<Longrightarrow> rx_ok b S F j t"
proof (induction ops s arbitrary: ops' t rule: delayed_loop.induct)
  case (1 s)
  then show ?case by simp
next
  case (2 ops rest s)
  obtain d u where d: "dispatch_recv_operation ops s = (d, u)" by (cases "dispatch_recv_operation ops s")
  have "rx_ok b S F j u" using dispatch_rx [OF 2(2), of ops] d by simp
  with 2 d show ?case by (auto split: bool.splits)
qed

lemma handle_delay_rx: "rx_ok b S F j s \<Longrightarrow> rx_ok b S F j (handle_delay_recv_operation e s)"
  using delayed_loop_rx [of b S F j s "recv_ops s"]
  by (simp add: handle_delay_recv_operation_def split: prod.splits) (simp add: rx_ok_def)

lemma on_readable_rx: "rx_ok b S F j s \<Longrightarrow> rx_ok b S F j (on_readable iv s)"
  by (simp add: on_readable_def recv_data_rx)

lemma rx_view_on_writable [simp]: "rx_view (on_writable iv s) = rx_view s"
  using rx_view_consume [of s] by (auto simp: on_writable_def split: prod.splits simp del: rx_view_consume)

lemma rx_view_cancel [simp]: "rx_view (cancel s) = rx_view s"
  by (simp add: cancel_def cancel_next_layer_def Let_def)

lemma rx_view_post_all [simp]: "e \<noteq> udt_error Eof \<Longrightarrow> rx_view (post_all ops e s) = rx_view s"
  by (induction ops e s rule: post_all.induct) simp_all

lemma on_disconnected_rx: "rx_ok b S F j s \<Longrightarrow> rx_ok b S F j (on_disconnected iv s)"
proof -
  assume ok: "rx_ok b S F j s"
  then have "rx_ok b S F j (post_all (send_ops s) (udt_error Disconnected) s)" by (simp add: rx_ok_def)
  from recv_data_rx [OF this] ok show ?thesis
    by (simp add: on_disconnected_def Let_def rx_ok_def split: option.splits)
qed

lemma cb_drop_rx: "rx_ok b S F j s \<Longrightarrow> e \<noteq> udt_error Eof \<or> e = m_last_error s \<Longrightarrow> rx_ok b S F j (cb_drop iv e s)"
proof -
  assume ok: "rx_ok b S F j s" and e: "e \<noteq> udt_error Eof \<or> e = m_last_error s"
  have "s\<lparr>m_last_error := m_last_error s\<rparr> = s" by simp
  with ok e rx_ok_error [OF ok, of e] have "rx_ok b S F j (if is_error e then s\<lparr>m_last_error := e\<rparr> else s)" by metis
  from on_disconnected_rx [OF this] show ?thesis by (simp add: cb_drop_def Let_def rx_ok_def)
qed

section \<open>Input\<close>

lemma rx_okI: "rx_ok b S F j s \<Longrightarrow> rx_view t = rx_view s \<Longrightarrow> rx_ok b S F j t"
  by (simp add: rx_ok_def)

lemma commit_notifies_rx: "rx_ok b S F j s \<Longrightarrow> rx_ok b S F j (commit_notifies iv s)"
proof -
  assume ok: "rx_ok b S F j s"
  obtain s1 where s1: "s1 = (if flag s (TF_ACKNOW OR TF_NEED_OUTPUT) then snd (cb_output iv s) else s)" by simp
  obtain s2 where s2: "s2 = (if flag s1 TF_NEED_RESET then clear_flags TF_NEED_RESET (reset_peer s1) else s1)" by simp
  obtain s3 where s3: "s3 = (if flag s2 TF_NOTIFY_READ
      then clear_flags TF_NOTIFY_READ (if above_lowat (rcv_buf s2) \<or> TCPS_HAVERCVDFIN s2 then on_readable iv s2 else s2)
      else s2)" by simp
  obtain s4 where s4: "s4 = (if flag s3 TF_NOTIFY_WRITE then clear_flags TF_NOTIFY_WRITE (on_writable iv s3) else s3)" by simp
  have "rx_ok b S F j s2" by (rule rx_okI [OF ok]) (simp add: s2 s1)
  then have "rx_ok b S F j s3" by (simp add: s3 on_readable_rx)
  then have "rx_ok b S F j s4" by (rule rx_okI) (simp add: s4)
  moreover have "commit_notifies iv s = (if flag s4 TF_NOTIFY_DROP
      then clear_flags TF_NOTIFY_DROP (cb_drop iv (m_last_error s4) s4) else s4)"
    unfolding commit_notifies_def Let_def s4 s3 s2 s1 by (rule refl)
  ultimately show ?thesis by (simp add: cb_drop_rx)
qed

lemma rx_view_window [simp]: "rx_view (snd (drop_out_of_rcv_wnd_packet pkt s)) = rx_view s"
  by (simp add: drop_out_of_rcv_wnd_packet_def Let_def)

text \<open>
  A FIN in the receive buffer is handled with \<open>m_rcv_nxt\<close> behind all data; it moves it by one, as
  long as the state does not tell that it was seen before.
\<close>

lemma handle_fin_rx:
  assumes ok: "rx_ok b S F j s" and fin: "buf_fin (rcv_buf s)" and j: "j < 2"
  shows "rx_ok b S F (Suc j) (handle_fin s)"
proof -
  from fin obtain p where p: "p \<in> set (m_pkts (rcv_buf s))" "has_fin (pflags p)"
    using last_in_set by (auto simp: buf_fin_def split: if_splits)
  from ok obtain n f where at: "rx_at b S F n f (m_rcv_nxt s, rcv_buf s, delivered s, eof_known s)" and f: "f \<le> j"
    and i: "length S < 2 ^ 32" "F \<longrightarrow> length S + 4 < 2 ^ 31" "buf_wf (rcv_buf s)" "\<forall>p \<in> set (m_reasm_pkts (rcv_buf s)). in_stream b S F p"
    by (auto simp: rx_ok_tuple rx_inv_def)
  have n: "F \<and> n = length S" using at p by (auto simp: rx_at_def)
  let ?u = "(set_flags (TF_ACKNOW OR TF_NOTIFY_READ) (s\<lparr>m_rcv_nxt := m_rcv_nxt s + 1\<rparr>))\<lparr>m_last_error := udt_error Eof\<rparr>"
  have "rx_at b S F n (Suc f) (m_rcv_nxt s + 1, rcv_buf s, delivered s, True)"
    using at n by (auto simp: rx_at_def add.assoc)
  then have "rx_inv b S F (Suc j) (m_rcv_nxt s + 1, rcv_buf s, delivered s, True)"
    using i f j unfolding rx_inv_def prod.case by (intro conjI exI [of _ n] exI [of _ "Suc f"]) auto
  moreover have "rx_view ?u = (m_rcv_nxt s + 1, rcv_buf s, delivered s, True)"
    by (simp add: rx_view_def eof_known_def set_flags_def delivered_def)
  ultimately have u: "rx_ok b S F (Suc j) ?u" by (simp add: rx_ok_def)
  have s: "rx_ok b S F (Suc j) s" by (rule rx_ok_le [OF ok]) (use j in simp_all)
  define w where "w = (if \<not> TCPS_HAVERCVDFIN s then ?u else s)"
  have "rx_view (handle_fin s) = rx_view w"
    unfolding handle_fin_def w_def [symmetric] Let_def by simp
  moreover have "rx_ok b S F (Suc j) w" using u s by (simp add: w_def)
  ultimately show ?thesis by (simp add: rx_ok_def)
qed

lemma rx_ok_handle_ack:
  "rx_ok b S F j s \<Longrightarrow> handle_ack iv tick pkt s = Some (stop, t) \<Longrightarrow> rx_ok b S F j t \<and> (\<not> stop \<longrightarrow> rcv_buf t = rcv_buf s)"
proof (cases "seq_gt (uh_ack (hdr pkt)) (m_snd_max s) \<and> \<not> is_old_ack (uh_ack (hdr pkt)) s")
  case True
  assume ok: "rx_ok b S F j s" and run: "handle_ack iv tick pkt s = Some (stop, t)"
  have "rx_ok b S F j (s\<lparr>m_last_error := udt_error Malformed_packet\<rparr>)" by (rule rx_ok_error [OF ok]) simp
  with True run show ?thesis by (auto simp: handle_ack_def rx_ok_def)
next
  case False
  assume ok: "rx_ok b S F j s" and run: "handle_ack iv tick pkt s = Some (stop, t)"
  then have "rx_view t = rx_view s" using False by (auto intro: rx_view_handle_ack)
  with ok show ?thesis by (simp add: rx_ok_def) (simp add: rx_view_def)
qed

lemma input_data_rx:
  assumes ok: "rx_ok b S F 1 s" and p: "plen pkt \<noteq> 0 \<or> has_fin (pflags pkt) \<Longrightarrow> in_stream b S F pkt"
    and fl: "has_syn (pflags pkt) \<Longrightarrow> in_stream b S F pkt" and run: "input_data iv tick pkt s = Some t"
  shows "rx_ok b S F 2 t"
proof -
  define u where "u = (if plen pkt \<noteq> 0 \<or> has_flag (pflags pkt) (TH_SYN OR TH_FIN) then TCP_REASS pkt s else s)"
  have u: "rx_ok b S F 1 u" using ok p fl by (auto simp: u_def TCP_REASS_rx flag_simps has_syn_def has_fin_def)
  from run obtain stop v where
    v: "(if has_flag (pflags pkt) TH_ACK then handle_ack iv tick pkt u else Some (False, u)) = Some (stop, v)"
    and t: "t = (if \<not> stop \<and> buf_fin (rcv_buf u) then handle_fin v else v)"
    unfolding input_data_def Let_def u_def [symmetric] bind_eq_Some_conv by auto
  have o1: "rx_ok b S F 1 v \<and> (\<not> stop \<longrightarrow> rcv_buf v = rcv_buf u)"
    using v u rx_ok_handle_ack [OF u] by (auto split: if_splits)
  then have "rx_ok b S F 2 v" by (auto intro: rx_ok_le)
  with o1 t handle_fin_rx [of b S F 1 v] show ?thesis by (auto simp: numeral_2_eq_2)
qed

text \<open>
  The sequence numbers of all datagrams of a stream that has ended are at most one beyond it, or
  just before it (keepalive probes). A segment the window check lets pass shows that
  \<open>m_rcv_nxt\<close> is not further than one beyond the stream either.
\<close>

definition near :: "udt_seq \<Rightarrow> u8 list \<Rightarrow> udt_packet \<Rightarrow> bool" where
  "near b S p \<longleftrightarrow> off b (pseq p) \<le> length S + 1 \<or> pseq p = b - 1"

lemma near_mono: "near b S p \<Longrightarrow> near b (S @ T) p"
  by (auto simp: near_def)

lemma window_passes:
  assumes ok: "rx_ok b S F 2 s" and nr: "F \<Longrightarrow> near b S pkt" and syn: "has_syn (pflags pkt) \<Longrightarrow> pseq pkt = b - 1"
    and w: "drop_out_of_rcv_wnd_packet pkt s = (False, t)"
  shows "rx_ok b S F 1 t"
proof -
  have v: "rx_view t = rx_view s" using rx_view_window [of pkt s] w by simp
  from ok obtain n f where at: "rx_at b S F n f (m_rcv_nxt s, rcv_buf s, delivered s, eof_known s)" and f: "f \<le> 2"
    and i: "length S < 2 ^ 32" "F \<longrightarrow> length S + 4 < 2 ^ 31" "buf_wf (rcv_buf s)" "\<forall>p \<in> set (m_reasm_pkts (rcv_buf s)). in_stream b S F p"
    by (auto simp: rx_ok_tuple rx_inv_def)
  have "f \<le> 1"
  proof (rule ccontr)
    assume "\<not> f \<le> 1"
    then have f2: "f = 2" using f by simp
    then have F: "F" "n = length S" and l: "length S + 4 < 2 ^ 31" and nxt: "m_rcv_nxt s = b + word_of_nat (length S + 2)"
      using at i by (auto simp: rx_at_def add.assoc)
    have td: "\<not> has_syn (pflags pkt) \<Longrightarrow> sint (m_rcv_nxt s - pseq pkt) \<le> 0"
        "has_syn (pflags pkt) \<Longrightarrow> to_i32 (sint (m_rcv_nxt s - pseq pkt) - 1) \<le> 0"
      using w by (simp_all add: drop_out_of_rcv_wnd_packet_def has_syn_def Let_def split: if_splits)
    from nr [OF F(1)] consider (inside) "off b (pseq pkt) \<le> length S + 1" | (probe) "pseq pkt = b - 1" by (auto simp: near_def)
    then show False
    proof cases
      case inside
      have o': "off b (m_rcv_nxt s) = length S + 2" unfolding nxt by (rule off_of_nat) (use l in simp)
      have "off b (b - 1) = 2 ^ 32 - 1" by (simp add: off_def unsigned_minus_1_eq_mask mask_eq_exp_minus_1)
      then have "\<not> has_syn (pflags pkt)" using syn inside l by auto
      moreover have "sint (m_rcv_nxt s - pseq pkt) = int (length S + 2) - int (off b (pseq pkt))"
        using inside l sint_off_diff [of b "m_rcv_nxt s" "pseq pkt"] by (simp add: o' in_window_def)
      ultimately show False using td(1) inside by simp
    next
      case probe
      have "m_rcv_nxt s = (b - 1) + word_of_nat (length S + 3)" by (simp add: nxt)
      then have "off (b - 1) (m_rcv_nxt s) = length S + 3"
        using l off_of_nat [of "length S + 3" "b - 1"] by simp
      then have e: "sint (m_rcv_nxt s - pseq pkt) = int (length S + 3)"
        using l sint_off_diff [of "b - 1" "m_rcv_nxt s" "pseq pkt"] by (simp add: probe in_window_def)
      have "to_i32 (int (length S + 3) - 1) = int (length S + 2)"
        using l by (simp add: to_i32_def signed_take_bit_int_eq_self)
      with td e show False by (cases "has_syn (pflags pkt)") simp_all
    qed
  qed
  with at i have "rx_ok b S F 1 s" unfolding rx_ok_tuple rx_inv_def by auto
  with v show ?thesis by (simp add: rx_ok_def)
qed

definition parse_datagram :: "u8 list \<Rightarrow> udt_packet" where
  "parse_datagram bytes = (pkt_of_mem bytes)\<lparr>hdr := ntoh (hdr (pkt_of_mem bytes))\<rparr>"

text \<open>
  A datagram of an established connection: data of the stream if any, and FIN only at its end; or a
  late SYN of the handshake, whose number is the one before the first byte.
\<close>

definition carries :: "udt_seq \<Rightarrow> u8 list \<Rightarrow> bool \<Rightarrow> udt_packet \<Rightarrow> bool" where
  "carries b S F p \<longleftrightarrow>
     (if has_syn (pflags p) then pkt_ok p \<and> plen p = 0 \<and> \<not> has_fin (pflags p) \<and> pseq p = b - 1
      else plen p \<noteq> 0 \<or> has_fin (pflags p) \<longrightarrow> in_stream b S F p)"

definition stream_datagram :: "udt_seq \<Rightarrow> u8 list \<Rightarrow> bool \<Rightarrow> u8 list \<Rightarrow> bool" where
  "stream_datagram b S F bytes \<longleftrightarrow> carries b S F (parse_datagram bytes) \<and> (F \<longrightarrow> near b S (parse_datagram bytes))"

text \<open>The connection has the peer's SYN, or has been closed; in the other states a SYN starts over.\<close>

definition synced :: "tcp_state \<Rightarrow> bool" where
  "synced st \<longleftrightarrow> st \<notin> {TCPS_LISTEN, TCPS_SYN_SENT, TCPS_SYN_RECEIVED}"

text \<open>A late SYN passes as an empty segment at the start of the stream.\<close>

lemma late_syn:
  assumes "carries b S F pkt" and "has_syn (pflags pkt)" and "synced (m_state s)" and "handle_syn pkt s = (d, pkt', t)"
  shows "rx_view t = rx_view s" "in_stream b S F pkt'"
proof -
  let ?q = "pkt\<lparr>hdr := (hdr pkt)\<lparr>uh_seq := uh_seq (hdr pkt) + 1\<rparr>\<rparr>"
  have q: "pkt' = ?q" and t: "rx_view t = rx_view s"
    using assms(3,4) by (auto simp: handle_syn_def synced_def Let_def set_flags_def split: if_splits)
  show "rx_view t = rx_view s" by (rule t)
  have "pkt_ok ?q" using assms(1,2) by (simp add: carries_def pkt_ok_def pkt_mem_def)
  moreover have "length (pdata ?q) = 0" using length_pdata [OF calculation] assms(1,2) by (simp add: carries_def)
  ultimately show "in_stream b S F pkt'" using assms(1,2) by (simp add: q in_stream_def carries_def)
qed

lemma input_segment_rx:
  assumes ok: "rx_ok b S F 2 s" and p: "carries b S F pkt" and nr: "F \<Longrightarrow> near b S pkt"
    and st: "has_syn (pflags pkt) \<Longrightarrow> synced (m_state s)" and run: "input_segment iv tick pkt s = Some t"
  shows "rx_ok b S F 2 t"
proof (cases "m_state s = TCPS_CLOSED \<or> has_flag (pflags pkt) TH_RST")
  case True
  have "rx_ok b S F 2 (s\<lparr>m_last_error := udt_error Connection_reset\<rparr>)" by (rule rx_ok_error [OF ok]) simp
  with run True ok show ?thesis by (auto simp: input_segment_def rx_ok_def split: if_splits)
next
  case False
  obtain d0 s0 where s0: "drop_out_of_rcv_wnd_packet pkt s = (d0, s0)" by (cases "drop_out_of_rcv_wnd_packet pkt s")
  show ?thesis
  proof (cases d0)
    case True
    have "rx_view s0 = rx_view s" using rx_view_window [of pkt s] s0 by simp
    with ok run False s0 True show ?thesis by (simp add: input_segment_def rx_ok_def)
  next
    case pass: False
    obtain d1 s1 where s1: "do_header_prediction iv pkt s0 = (d1, s1)" by (cases "do_header_prediction iv pkt s0")
    have o0: "rx_ok b S F 1 s0"
      by (rule window_passes [OF ok nr]) (use s0 pass p in \<open>simp_all add: carries_def split: if_splits\<close>)
    show ?thesis
    proof (cases "has_syn (pflags pkt)")
      case syn: True
      have "uh_flags (hdr pkt) AND (TH_SYN OR TH_FIN OR TH_RST OR TH_ACK) \<noteq> TH_ACK"
      proof
        assume "uh_flags (hdr pkt) AND (TH_SYN OR TH_FIN OR TH_RST OR TH_ACK) = TH_ACK"
        then have "uh_flags (hdr pkt) AND ((TH_SYN OR TH_FIN OR TH_RST OR TH_ACK) AND TH_SYN) = TH_ACK AND TH_SYN"
          by (simp only: and.assoc [symmetric])
        with syn show False by (simp add: has_syn_def has_flag_def udt_const)
      qed
      then have e1: "d1 = False" "s1 = s0" using s1 by (auto simp: do_header_prediction_def Let_def)
      have e0: "m_state s0 = m_state s" using s0 by (auto simp: drop_out_of_rcv_wnd_packet_def Let_def set_flags_def split: if_splits)
      obtain d2 q s2 where s2: "handle_syn pkt s0 = (d2, q, s2)" by (cases "handle_syn pkt s0")
      have l: "rx_view s2 = rx_view s0" "in_stream b S F q" using late_syn [OF p syn _ s2] st [OF syn] e0 by auto
      then have o2: "rx_ok b S F 1 s2" using o0 by (simp add: rx_ok_def)
      from run False s0 s1 s2 syn pass e1 have "t = s2 \<or> input_data iv tick q s2 = Some t"
        by (auto simp: input_segment_def has_syn_def split: bool.splits)
      then show ?thesis using o2 input_data_rx [OF o2 l(2) l(2)] rx_ok_le [OF o2, of 2] by auto
    next
      case no: False
      then have i: "plen pkt \<noteq> 0 \<or> has_fin (pflags pkt) \<Longrightarrow> in_stream b S F pkt" using p by (simp add: carries_def)
      have o1: "rx_ok b S F 1 s1" using do_header_prediction_rx [OF o0, of pkt iv] i s1 by simp
      from run False s0 s1 no pass have "t = s1 \<or> input_data iv tick pkt s1 = Some t"
        by (auto simp: input_segment_def has_syn_def split: bool.splits)
      then show ?thesis using o1 input_data_rx [OF o1 i] no rx_ok_le [OF o1, of 2] by auto
    qed
  qed
qed

lemma cb_input_rx:
  assumes ok: "rx_ok b S F 2 s" and dg: "stream_datagram b S F bytes"
    and st: "has_syn (pflags (parse_datagram bytes)) \<Longrightarrow> synced (m_state s)" and run: "cb_input iv tick bytes s = Some (consumed, t)"
  shows "rx_ok b S F 2 t"
proof (cases "t = s")
  case False
  let ?pkt = "parse_datagram bytes"
  let ?u = "update_rtt (uh_pseq (hdr ?pkt)) (set_timer TCPT_KEEP s_keepidle (s\<lparr>m_pseq := pseq ?pkt, m_idle := 0\<rparr>))"
  from run False obtain v where v: "input_segment iv tick ?pkt ?u = Some v"
    and t: "(consumed, t) = pkt_consumed (commit_notifies iv v)"
    by (auto simp: cb_input_def parse_datagram_def Let_def bind_eq_Some_conv split: if_splits)
  have u: "rx_ok b S F 2 ?u" by (rule rx_okI [OF ok]) simp
  have m: "m_state ?u = m_state s" by (simp add: update_rtt_def xmit_timer_def set_timer_def Let_def)
  have "rx_ok b S F 2 v" by (rule input_segment_rx [OF u _ _ _ v]) (use dg st m in \<open>auto simp: stream_datagram_def\<close>)
  then have "rx_ok b S F 2 (snd (pkt_consumed (commit_notifies iv v)))"
    by (simp add: pkt_consumed_def commit_notifies_rx)
  then show ?thesis by (simp flip: t)
qed (use ok in simp)

section \<open>Every event of the socket\<close>

text \<open>
  The events of the open phase: the datagrams of the peer are those of his stream (anything
  may come from elsewhere), late ones with SYN while no handshake is going on, and the socket is
  neither closed nor created anew.
\<close>

fun rx_event :: "udt_seq \<Rightarrow> u8 list \<Rightarrow> bool \<Rightarrow> udt_socket \<Rightarrow> socket_event \<Rightarrow> bool" where
  "rx_event b S F s (Datagram e ep bytes tick_count) \<longleftrightarrow>
     is_error e \<or> ep \<noteq> peer_ep s \<or> stream_datagram b S F (take rcv_capacity bytes) \<and>
       (has_syn (pflags (parse_datagram (take rcv_capacity bytes))) \<longrightarrow> synced (m_state s))"
| "rx_event b S F s Close \<longleftrightarrow> False"
| "rx_event b S F s (Create bound fack0) \<longleftrightarrow> False"
| "rx_event b S F s e \<longleftrightarrow> True"

definition rx_step :: "indet \<Rightarrow> udt_seq \<Rightarrow> u8 list \<Rightarrow> bool \<Rightarrow> udt_socket \<Rightarrow> socket_event \<Rightarrow> udt_socket option" where
  "rx_step iv b S F s e = (if rx_event b S F s e then proper_step iv s e else None)"

definition rx_start :: "udt_seq \<Rightarrow> u8 list \<Rightarrow> bool \<Rightarrow> udt_socket \<Rightarrow> bool" where
  "rx_start b S F s \<longleftrightarrow> length S < 2 ^ 32 \<and> (F \<longrightarrow> length S + 4 < 2 ^ 31) \<and> m_rcv_nxt s = b \<and>
     buf_wf (rcv_buf s) \<and> m_cc (rcv_buf s) = 0 \<and> contig b (m_pkts (rcv_buf s)) \<and>
     (\<forall>p \<in> set (m_pkts (rcv_buf s)). \<not> has_fin (pflags p)) \<and> m_reasm_pkts (rcv_buf s) = [] \<and> delivered s = [] \<and> \<not> eof_known s"

lemma rx_start_ok: "rx_start b S F s \<Longrightarrow> rx_ok b S F 2 s"
proof -
  assume st: "rx_start b S F s"
  then have "sum_len (m_pkts (rcv_buf s)) = 0" by (auto simp: rx_start_def buf_wf_def)
  moreover from this have "payload (m_pkts (rcv_buf s)) = []"
    using length_payload [of "m_pkts (rcv_buf s)"] st by (auto simp: rx_start_def buf_wf_def)
  ultimately show ?thesis
    using st unfolding rx_start_def rx_ok_tuple rx_inv_def prod.case
    by (intro conjI exI [of _ 0]) (auto simp: rx_at_def)
qed

lemma handle_receive_rx:
  assumes ok: "rx_ok b S F 2 s" and run: "handle_receive iv tick e ep bytes s = Some t"
    and dg: "is_error e \<or> ep \<noteq> peer_ep s \<or> stream_datagram b S F bytes \<and>
      (has_syn (pflags (parse_datagram bytes)) \<longrightarrow> synced (m_state s))"
  shows "rx_ok b S F 2 t"
proof (cases "next_layer s \<and> \<not> is_error e \<and> ep = peer_ep s")
  case False
  then show ?thesis
  proof (cases "is_error e \<and> e \<noteq> udt_error Operation_aborted \<and> next_layer s")
    case True
    then have "t = on_disconnected iv (s\<lparr>rcv_pkt := False\<rparr>)" using run by (auto simp: handle_receive_def)
    moreover have "rx_ok b S F 2 (s\<lparr>rcv_pkt := False\<rparr>)" using ok by (simp add: rx_ok_def)
    ultimately show ?thesis by (simp add: on_disconnected_rx)
  next
    case no: False
    have "rx_view t = rx_view s"
      using run False no by (auto simp: handle_receive_def do_receive_def split: if_splits)
    with ok show ?thesis by (rule rx_okI)
  qed
next
  case True
  let ?u = "s\<lparr>remote_ep := ep\<rparr>"
  from run True obtain c v where v: "cb_input iv tick bytes ?u = Some (c, v)"
    and t: "t = do_receive (if c then v\<lparr>rcv_pkt := False\<rparr> else v)"
    by (auto simp: handle_receive_def bind_eq_Some_conv)
  have u: "rx_ok b S F 2 ?u" using ok by (simp add: rx_ok_def)
  have "rx_ok b S F 2 v" by (rule cb_input_rx [OF u _ _ v]) (use dg True in simp_all)
  then show ?thesis by (rule rx_okI) (simp add: t do_receive_def)
qed

lemma rx_view_tick_other: "t \<noteq> TCPT_2MSL \<Longrightarrow> t \<noteq> TCPT_KEEP \<Longrightarrow> t \<noteq> TCPT_REXMT \<Longrightarrow>
    rx_view (timer_expired iv tick t s) = rx_view s"
  by (cases t) (simp_all add: timer_expired_def timo_persist_def Let_def)

lemma rx_view_rexmt_parts [simp]: "rx_view (rexmt_backoff s) = rx_view s" "rx_view (clear_snd_buf_flags s) = rx_view s"
  by (simp_all add: rexmt_backoff_def clear_snd_buf_flags_def Let_def)

lemma timer_expired_rx: "rx_ok b S F 2 s \<Longrightarrow> rx_ok b S F 2 (timer_expired iv tick t s)"
proof -
  assume ok: "rx_ok b S F 2 s"
  have d: "rx_ok b S F 2 (cb_drop iv (udt_error Timed_out) (s\<lparr>m_rxtshift := k\<rparr>))" for k
    by (rule cb_drop_rx) (rule rx_okI [OF ok], simp_all)
  show ?thesis
  proof (cases t)
    case TCPT_REXMT
    show ?thesis
      unfolding TCPT_REXMT timer_expired_def timo_rexmt_def Let_def
      using d ok by (simp add: rx_ok_def)
  next
    case TCPT_PERSIST
    show ?thesis by (rule rx_okI [OF ok]) (simp add: rx_view_tick_other TCPT_PERSIST)
  next
    case TCPT_KEEP
    show ?thesis
      using cb_drop_rx [OF ok, of "udt_error Timed_out" iv] ok by (simp add: TCPT_KEEP timer_expired_def timo_keep_def) (simp add: rx_ok_def)
  next
    case TCPT_2MSL
    show ?thesis using cb_drop_rx [OF ok, of "udt_error Timed_out" iv] by (simp add: TCPT_2MSL timer_expired_def timo_2msl_def)
  qed
qed

lemma tick_timer_rx: "rx_ok b S F 2 s \<Longrightarrow> rx_ok b S F 2 (tick_timer iv tick t s)"
proof -
  assume ok: "rx_ok b S F 2 s"
  then have "rx_ok b S F 2 (set_timer t v s)" for v by (simp add: rx_ok_def)
  with ok show ?thesis by (simp add: tick_timer_def Let_def timer_expired_rx)
qed

lemma handle_slow_timo_rx: "rx_ok b S F 2 s \<Longrightarrow> rx_ok b S F 2 (handle_slow_timo iv tick s)"
proof -
  assume "rx_ok b S F 2 s"
  then have "rx_ok b S F 2 (fold (tick_timer iv tick) all_timers s)" by (simp add: all_timers_def tick_timer_rx)
  then show ?thesis by (simp add: handle_slow_timo_def Let_def rx_ok_def)
qed

lemma rx_view_user [simp]: "rx_view (do_receive s) = rx_view s" "rx_view (snd (cb_connect iv s)) = rx_view s"
    "rx_view (snd (cb_accept s)) = rx_view s" "rx_view (snd (cb_shutdown iv s)) = rx_view s"
    "rx_view (handle_fast_timo iv s) = rx_view s" "rx_view (handle_mtu s) = rx_view s"
  by (simp_all add: do_receive_def cb_connect_def cb_accept_def cb_shutdown_def handle_fast_timo_def
      handle_mtu_def Let_def split: tcp_state.splits)

lemma rx_view_async: "async_connect iv rep h s = Some t \<Longrightarrow> rx_view t = rx_view s"
    "rx_view (async_accept rep h s) = rx_view s" "rx_view (async_shutdown iv h s) = rx_view s"
  by (auto simp: async_connect_def async_accept_def async_shutdown_def do_probe_mtu_def bind_eq_Some_conv
      split: if_splits)

lemma rx_view_async_send: "rx_view (async_send iv cbuf h s) = rx_view s"
proof -
  let ?u = "s\<lparr>send_ops := send_ops s @ [\<lparr>send_buf = cbuf, send_handler = h\<rparr>],
             pending_data := pending_data s + buffer_size cbuf\<rparr>"
  have "rx_view (snd (consume_pending_data ?u)) = rx_view s" by simp
  then show ?thesis by (auto simp: async_send_def Let_def split: prod.splits simp del: rx_view_consume)
qed

lemma async_receive_rx: "rx_ok b S F 2 s \<Longrightarrow> rx_ok b S F 2 (async_receive iv buf h s)"
proof -
  assume ok: "rx_ok b S F 2 s"
  then have "rx_ok b S F 2 (s\<lparr>recv_ops := q\<rparr>)" for q by (simp add: rx_ok_def)
  with ok show ?thesis by (simp add: async_receive_def recv_data_rx) (simp add: rx_ok_def)
qed

lemma setsockopt_rx:
  "rx_ok b S F 2 s \<Longrightarrow> proper_event s (Set_option opt v) \<Longrightarrow> rx_ok b S F 2 (snd (setsockopt opt v s))"
  by (cases opt) (auto simp: setsockopt_def rx_ok_def rx_view_def rx_inv_def rx_at_def set_hiwat_def buf_wf_def
      delivered_def eof_known_def eof_told_def)

lemma rx_step_ok: "rx_ok b S F 2 s \<Longrightarrow> rx_step iv b S F s e = Some t \<Longrightarrow> rx_ok b S F 2 t"
proof -
  assume ok: "rx_ok b S F 2 s" and run: "rx_step iv b S F s e = Some t"
  then have ev: "rx_event b S F s e" "proper_event s e" and st: "socket_step iv s e = Some t"
    by (auto simp: rx_step_def proper_step_def split: if_splits)
  show ?thesis
  proof (cases e)
    case (Datagram err ep bytes tick)
    with st ev handle_receive_rx [OF ok] show ?thesis by auto
  next
    case (Connect rep h)
    with st show ?thesis by (auto intro: rx_okI [OF ok] dest: rx_view_async(1))
  next
    case (Set_option opt v)
    with st setsockopt_rx [OF ok, of opt v] ev show ?thesis by auto
  qed (use st ev ok in \<open>auto simp: rx_view_async(2,3) rx_view_async_send async_receive_rx handle_delay_rx
      handle_slow_timo_rx intro: rx_okI [OF ok] split: if_splits\<close>)
qed

interpretation rx: machine "rx_start b S F" "rx_step iv b S F" "rx_ok b S F 2" for iv b S F
  by unfold_locales (fact rx_start_ok, fact rx_step_ok)

section \<open>Properties\<close>

text \<open>C3. Reliable in-order delivery. From a connection that expects sequence number \<open>b\<close> next,
  through any sequence of events of the socket (segments of the peer's stream \<open>S\<close> in any
  order, lost or repeated, its FIN, acknowledgements, resets, timers, sends, receives, shutdown,
  cancellation), the bytes posted to the receive operations followed by those still buffered are
  exactly the first \<open>n\<close> bytes of \<open>S\<close>, and \<open>m_cc\<close> counts the buffered ones. \<open>m_rcv_nxt\<close> has advanced by
  \<open>n\<close>, and further only behind the FIN of the complete stream.\<close>

theorem reliable_delivery:
  assumes "rx_start b S F s" and "run (rx_step iv b S F) s es = Some t"
  shows "\<exists>n \<le> length S. \<exists>f \<le> 2. delivered t @ payload (m_pkts (rcv_buf t)) = take n S \<and>
    m_rcv_nxt t = b + word_of_nat n + word_of_nat f \<and> (f = 0 \<or> F \<and> n = length S) \<and>
    unat (m_cc (rcv_buf t)) = length (payload (m_pkts (rcv_buf t)))"
proof -
  have "rx_ok b S F 2 t" by (rule rx.run_inv [OF assms])
  then show ?thesis by (fastforce simp: rx_ok_tuple rx_inv_def rx_at_def buf_wf_def length_payload)
qed

lemma rx_ok_eof: "rx_ok b S F j s \<Longrightarrow> eof_known s \<Longrightarrow> F \<and> delivered s @ payload (m_pkts (rcv_buf s)) = S"
  by (auto simp: rx_ok_tuple rx_inv_def rx_at_def)

definition example_socket :: udt_socket where
  "example_socket = (snd (create True 0 (udt_socket_init 0 0)))\<lparr>m_state := TCPS_ESTABLISHED\<rparr>"

definition example_datagram :: "u8 list" where
  "example_datagram = mem_of_hdr (hton \<lparr>uh_ver = 0, uh_flags = 0, uh_win = 32768, uh_len = 2, uh_off = 20,
     uh_seq = 3, uh_ack = 0, uh_pseq = 0\<rparr>) @ [4, 5]"

lemma example_datagram_stream: "stream_datagram 0 [1, 2, 3, 4, 5] False example_datagram"
  by (simp add: stream_datagram_def carries_def in_stream_def parse_datagram_def pkt_of_mem_def example_datagram_def
      pkt_ok_def off_def pdata_def data_at_def pkt_mem_def has_fin_def has_syn_def has_flag_def udt_const)

lemma example_datagram_syn: "\<not> has_syn (pflags (parse_datagram example_datagram))"
  by (simp add: parse_datagram_def pkt_of_mem_def example_datagram_def has_syn_def has_flag_def udt_const)

lemma example_socket_start: "rx_start 0 [1, 2, 3, 4, 5] False example_socket"
  by (simp add: rx_start_def eof_known_def eof_told_def example_socket_def create_def udt_socket_init_def cb_init_def canceltimers_def
      set_timer_def emit_def delivered_def udt_rcv_buf_init_def buf_wf_def Let_def)

theorem reliable_delivery_witness:
  "\<exists>t. run (rx_step (\<lambda>_. 0) 0 [1, 2, 3, 4, 5] False) example_socket
      [Receive \<lparr>mbuf_null = False, mbuf_size = 4\<rparr> 7,
       Datagram no_error \<lparr>ep_addr = 0, ep_port = 0\<rparr> example_datagram 0] = Some t \<and>
     (\<exists>n \<le> 5. delivered t @ payload (m_pkts (rcv_buf t)) = take n [1, 2, 3, 4, 5])"
proof -
  let ?r = "Receive \<lparr>mbuf_null = False, mbuf_size = 4\<rparr> 7"
  let ?d = "Datagram no_error \<lparr>ep_addr = 0, ep_port = 0\<rparr> example_datagram 0"
  have l: "length example_datagram = 22" by (simp add: example_datagram_def)
  have a: "\<not> has_flag (pflags (pkt_of_mem example_datagram)) TH_ACK"
    by (simp add: example_datagram_def pkt_of_mem_def flag_simps)
  have "\<exists>t. handle_receive (\<lambda>_. 0) 0 no_error \<lparr>ep_addr = 0, ep_port = 0\<rparr> example_datagram s = Some t" for s
  proof -
    obtain c u where "cb_input (\<lambda>_. 0) 0 example_datagram (s\<lparr>remote_ep := peer_ep s\<rparr>) = Some (c, u)"
      using cb_input_total [OF a] by blast
    then show ?thesis by (simp add: handle_receive_def Let_def)
  qed
  then have "\<exists>t. run (rx_step (\<lambda>_. 0) 0 [1, 2, 3, 4, 5] False) example_socket [?r, ?d] = Some t"
    using l by (simp add: rx_step_def proper_step_def example_datagram_stream example_datagram_syn udt_const)
  then obtain t where t: "run (rx_step (\<lambda>_. 0) 0 [1, 2, 3, 4, 5] False) example_socket [?r, ?d] = Some t" by blast
  have "length [1, 2, 3, 4, 5 :: u8] = 5" by simp
  with reliable_delivery [OF example_socket_start t] t show ?thesis by metis
qed

end
