(* ===== verification/Udt_Stream.thy ===== *)
theory Udt_Stream
  imports Udt_Receive "HOL-Library.Sublist"
begin

text \<open>
  Reliable delivery, sender's side: the stream and \<open>output\<close>. The bytes the socket accepts are whole
  buffers of the user, in the order of the calls; numbered from the sequence number \<open>b\<close> the
  connection started with they are the stream \<open>S\<close>. Every datagram \<open>output\<close> emits is a datagram of
  this stream, in the sense the receiver's side relies on; a FIN, once the user has shut down,
  takes the number behind its last byte.
\<close>

section \<open>What the sender's side consists of\<close>

fun sent_bytes :: "effect \<Rightarrow> u8 list list" where
  "sent_bytes (Send_to ep d) = [d]"
| "sent_bytes _ = []"

definition datagrams :: "udt_socket \<Rightarrow> u8 list list" where
  "datagrams s = concat (map sent_bytes (effects s))"

definition tx_view :: "udt_socket \<Rightarrow> tcp_state \<times> u16 \<times> udt_buf \<times> send_operation list \<times> u8 list list" where
  "tx_view s = (m_state s, m_maxseg s, snd_buf s, send_ops s, datagrams s)"

lemma datagrams_emit [simp]: "datagrams (emit e s) = datagrams s @ sent_bytes e"
  by (simp add: datagrams_def emit_def)

lemma datagrams_frame [simp]:
    "datagrams (s\<lparr>m_force := x0\<rparr>) = datagrams s"
    "datagrams (s\<lparr>m_snd_fack := x4\<rparr>) = datagrams s"
    "datagrams (s\<lparr>m_retrans_data := x5\<rparr>) = datagrams s"
    "datagrams (s\<lparr>m_iss := x6\<rparr>) = datagrams s"
    "datagrams (s\<lparr>m_pseq := x7\<rparr>) = datagrams s"
    "datagrams (s\<lparr>m_rcv_wnd := x8\<rparr>) = datagrams s"
    "datagrams (s\<lparr>m_rcv_nxt := x9\<rparr>) = datagrams s"
    "datagrams (s\<lparr>m_irs := x10\<rparr>) = datagrams s"
    "datagrams (s\<lparr>m_rcv_adv := x11\<rparr>) = datagrams s"
    "datagrams (s\<lparr>m_rxtshift := x13\<rparr>) = datagrams s"
    "datagrams (s\<lparr>m_rxtcur := x14\<rparr>) = datagrams s"
    "datagrams (s\<lparr>m_rtt := x15\<rparr>) = datagrams s"
    "datagrams (s\<lparr>m_rtseq := x16\<rparr>) = datagrams s"
    "datagrams (s\<lparr>m_srtt := x17\<rparr>) = datagrams s"
    "datagrams (s\<lparr>m_rttvar := x18\<rparr>) = datagrams s"
    "datagrams (s\<lparr>m_rttmin := x19\<rparr>) = datagrams s"
    "datagrams (s\<lparr>m_idle := x20\<rparr>) = datagrams s"
    "datagrams (s\<lparr>m_tick := x21\<rparr>) = datagrams s"
    "datagrams (s\<lparr>m_timers := x22\<rparr>) = datagrams s"
    "datagrams (s\<lparr>m_fast_timer := x23\<rparr>) = datagrams s"
    "datagrams (s\<lparr>m_slow_timer := x24\<rparr>) = datagrams s"
    "datagrams (s\<lparr>m_snd_wl1 := x25\<rparr>) = datagrams s"
    "datagrams (s\<lparr>m_snd_wl2 := x26\<rparr>) = datagrams s"
    "datagrams (s\<lparr>m_snd_wnd := x27\<rparr>) = datagrams s"
    "datagrams (s\<lparr>m_dupacks := x28\<rparr>) = datagrams s"
    "datagrams (s\<lparr>m_snd_cwnd := x29\<rparr>) = datagrams s"
    "datagrams (s\<lparr>m_pcwnd := x30\<rparr>) = datagrams s"
    "datagrams (s\<lparr>m_max_sndwnd := x31\<rparr>) = datagrams s"
    "datagrams (s\<lparr>m_tstamp_first := x32\<rparr>) = datagrams s"
    "datagrams (s\<lparr>m_tstamp_second := x33\<rparr>) = datagrams s"
    "datagrams (s\<lparr>m_tstamp_third := x34\<rparr>) = datagrams s"
    "datagrams (s\<lparr>m_last_error := x35\<rparr>) = datagrams s"
    "datagrams (s\<lparr>next_layer := x36\<rparr>) = datagrams s"
    "datagrams (s\<lparr>remote_ep := x37\<rparr>) = datagrams s"
    "datagrams (s\<lparr>peer_ep := x38\<rparr>) = datagrams s"
    "datagrams (s\<lparr>recv_ops := x39\<rparr>) = datagrams s"
    "datagrams (s\<lparr>rcv_buf := x40\<rparr>) = datagrams s"
    "datagrams (s\<lparr>connect_handler := x41\<rparr>) = datagrams s"
    "datagrams (s\<lparr>accept_handler := x42\<rparr>) = datagrams s"
    "datagrams (s\<lparr>shutdown_handler := x43\<rparr>) = datagrams s"
    "datagrams (s\<lparr>mtu_prober := x44\<rparr>) = datagrams s"
    "datagrams (s\<lparr>rcv_pkt := x46\<rparr>) = datagrams s"
    "datagrams (s\<lparr>so_options := x47\<rparr>) = datagrams s"
    "datagrams (s\<lparr>m_state := y0\<rparr>) = datagrams s"
    "datagrams (s\<lparr>m_maxseg := y1\<rparr>) = datagrams s"
    "datagrams (s\<lparr>snd_buf := y2\<rparr>) = datagrams s"
    "datagrams (s\<lparr>send_ops := y3\<rparr>) = datagrams s"
    "datagrams (s\<lparr>m_flags := z0\<rparr>) = datagrams s"
    "datagrams (s\<lparr>m_snd_una := z1\<rparr>) = datagrams s"
    "datagrams (s\<lparr>m_snd_nxt := z2\<rparr>) = datagrams s"
    "datagrams (s\<lparr>m_snd_max := z3\<rparr>) = datagrams s"
    "datagrams (s\<lparr>pending_data := z4\<rparr>) = datagrams s"
  by (simp_all add: datagrams_def)

lemma flag_frame [simp]:
    "flag (s\<lparr>m_force := x0\<rparr>) f = flag s f"
    "flag (s\<lparr>m_snd_fack := x4\<rparr>) f = flag s f"
    "flag (s\<lparr>m_retrans_data := x5\<rparr>) f = flag s f"
    "flag (s\<lparr>m_iss := x6\<rparr>) f = flag s f"
    "flag (s\<lparr>m_pseq := x7\<rparr>) f = flag s f"
    "flag (s\<lparr>m_rcv_wnd := x8\<rparr>) f = flag s f"
    "flag (s\<lparr>m_rcv_nxt := x9\<rparr>) f = flag s f"
    "flag (s\<lparr>m_irs := x10\<rparr>) f = flag s f"
    "flag (s\<lparr>m_rcv_adv := x11\<rparr>) f = flag s f"
    "flag (s\<lparr>m_rxtshift := x13\<rparr>) f = flag s f"
    "flag (s\<lparr>m_rxtcur := x14\<rparr>) f = flag s f"
    "flag (s\<lparr>m_rtt := x15\<rparr>) f = flag s f"
    "flag (s\<lparr>m_rtseq := x16\<rparr>) f = flag s f"
    "flag (s\<lparr>m_srtt := x17\<rparr>) f = flag s f"
    "flag (s\<lparr>m_rttvar := x18\<rparr>) f = flag s f"
    "flag (s\<lparr>m_rttmin := x19\<rparr>) f = flag s f"
    "flag (s\<lparr>m_idle := x20\<rparr>) f = flag s f"
    "flag (s\<lparr>m_tick := x21\<rparr>) f = flag s f"
    "flag (s\<lparr>m_timers := x22\<rparr>) f = flag s f"
    "flag (s\<lparr>m_fast_timer := x23\<rparr>) f = flag s f"
    "flag (s\<lparr>m_slow_timer := x24\<rparr>) f = flag s f"
    "flag (s\<lparr>m_snd_wl1 := x25\<rparr>) f = flag s f"
    "flag (s\<lparr>m_snd_wl2 := x26\<rparr>) f = flag s f"
    "flag (s\<lparr>m_snd_wnd := x27\<rparr>) f = flag s f"
    "flag (s\<lparr>m_dupacks := x28\<rparr>) f = flag s f"
    "flag (s\<lparr>m_snd_cwnd := x29\<rparr>) f = flag s f"
    "flag (s\<lparr>m_pcwnd := x30\<rparr>) f = flag s f"
    "flag (s\<lparr>m_max_sndwnd := x31\<rparr>) f = flag s f"
    "flag (s\<lparr>m_tstamp_first := x32\<rparr>) f = flag s f"
    "flag (s\<lparr>m_tstamp_second := x33\<rparr>) f = flag s f"
    "flag (s\<lparr>m_tstamp_third := x34\<rparr>) f = flag s f"
    "flag (s\<lparr>m_last_error := x35\<rparr>) f = flag s f"
    "flag (s\<lparr>next_layer := x36\<rparr>) f = flag s f"
    "flag (s\<lparr>remote_ep := x37\<rparr>) f = flag s f"
    "flag (s\<lparr>peer_ep := x38\<rparr>) f = flag s f"
    "flag (s\<lparr>recv_ops := x39\<rparr>) f = flag s f"
    "flag (s\<lparr>rcv_buf := x40\<rparr>) f = flag s f"
    "flag (s\<lparr>connect_handler := x41\<rparr>) f = flag s f"
    "flag (s\<lparr>accept_handler := x42\<rparr>) f = flag s f"
    "flag (s\<lparr>shutdown_handler := x43\<rparr>) f = flag s f"
    "flag (s\<lparr>mtu_prober := x44\<rparr>) f = flag s f"
    "flag (s\<lparr>rcv_pkt := x46\<rparr>) f = flag s f"
    "flag (s\<lparr>so_options := x47\<rparr>) f = flag s f"
    "flag (s\<lparr>m_state := y0\<rparr>) f = flag s f"
    "flag (s\<lparr>m_maxseg := y1\<rparr>) f = flag s f"
    "flag (s\<lparr>snd_buf := y2\<rparr>) f = flag s f"
    "flag (s\<lparr>send_ops := y3\<rparr>) f = flag s f"
    "flag (s\<lparr>m_snd_una := z1\<rparr>) f = flag s f"
    "flag (s\<lparr>m_snd_nxt := z2\<rparr>) f = flag s f"
    "flag (s\<lparr>m_snd_max := z3\<rparr>) f = flag s f"
    "flag (s\<lparr>pending_data := z4\<rparr>) f = flag s f"
    "flag (s\<lparr>effects := u0\<rparr>) f = flag s f"
  by (simp_all add: flag_def)

lemma flag_emit [simp]: "flag (emit e s) f = flag s f"
  by (simp add: emit_def)

lemma tx_view_frame [simp]:
    "tx_view (s\<lparr>m_force := x0\<rparr>) = tx_view s"
    "tx_view (s\<lparr>m_flags := x1\<rparr>) = tx_view s"
    "tx_view (s\<lparr>m_snd_una := x2\<rparr>) = tx_view s"
    "tx_view (s\<lparr>m_snd_nxt := x3\<rparr>) = tx_view s"
    "tx_view (s\<lparr>m_snd_fack := x4\<rparr>) = tx_view s"
    "tx_view (s\<lparr>m_retrans_data := x5\<rparr>) = tx_view s"
    "tx_view (s\<lparr>m_iss := x6\<rparr>) = tx_view s"
    "tx_view (s\<lparr>m_pseq := x7\<rparr>) = tx_view s"
    "tx_view (s\<lparr>m_rcv_wnd := x8\<rparr>) = tx_view s"
    "tx_view (s\<lparr>m_rcv_nxt := x9\<rparr>) = tx_view s"
    "tx_view (s\<lparr>m_irs := x10\<rparr>) = tx_view s"
    "tx_view (s\<lparr>m_rcv_adv := x11\<rparr>) = tx_view s"
    "tx_view (s\<lparr>m_snd_max := x12\<rparr>) = tx_view s"
    "tx_view (s\<lparr>m_rxtshift := x13\<rparr>) = tx_view s"
    "tx_view (s\<lparr>m_rxtcur := x14\<rparr>) = tx_view s"
    "tx_view (s\<lparr>m_rtt := x15\<rparr>) = tx_view s"
    "tx_view (s\<lparr>m_rtseq := x16\<rparr>) = tx_view s"
    "tx_view (s\<lparr>m_srtt := x17\<rparr>) = tx_view s"
    "tx_view (s\<lparr>m_rttvar := x18\<rparr>) = tx_view s"
    "tx_view (s\<lparr>m_rttmin := x19\<rparr>) = tx_view s"
    "tx_view (s\<lparr>m_idle := x20\<rparr>) = tx_view s"
    "tx_view (s\<lparr>m_tick := x21\<rparr>) = tx_view s"
    "tx_view (s\<lparr>m_timers := x22\<rparr>) = tx_view s"
    "tx_view (s\<lparr>m_fast_timer := x23\<rparr>) = tx_view s"
    "tx_view (s\<lparr>m_slow_timer := x24\<rparr>) = tx_view s"
    "tx_view (s\<lparr>m_snd_wl1 := x25\<rparr>) = tx_view s"
    "tx_view (s\<lparr>m_snd_wl2 := x26\<rparr>) = tx_view s"
    "tx_view (s\<lparr>m_snd_wnd := x27\<rparr>) = tx_view s"
    "tx_view (s\<lparr>m_dupacks := x28\<rparr>) = tx_view s"
    "tx_view (s\<lparr>m_snd_cwnd := x29\<rparr>) = tx_view s"
    "tx_view (s\<lparr>m_pcwnd := x30\<rparr>) = tx_view s"
    "tx_view (s\<lparr>m_max_sndwnd := x31\<rparr>) = tx_view s"
    "tx_view (s\<lparr>m_tstamp_first := x32\<rparr>) = tx_view s"
    "tx_view (s\<lparr>m_tstamp_second := x33\<rparr>) = tx_view s"
    "tx_view (s\<lparr>m_tstamp_third := x34\<rparr>) = tx_view s"
    "tx_view (s\<lparr>m_last_error := x35\<rparr>) = tx_view s"
    "tx_view (s\<lparr>next_layer := x36\<rparr>) = tx_view s"
    "tx_view (s\<lparr>remote_ep := x37\<rparr>) = tx_view s"
    "tx_view (s\<lparr>peer_ep := x38\<rparr>) = tx_view s"
    "tx_view (s\<lparr>recv_ops := x39\<rparr>) = tx_view s"
    "tx_view (s\<lparr>rcv_buf := x40\<rparr>) = tx_view s"
    "tx_view (s\<lparr>connect_handler := x41\<rparr>) = tx_view s"
    "tx_view (s\<lparr>accept_handler := x42\<rparr>) = tx_view s"
    "tx_view (s\<lparr>shutdown_handler := x43\<rparr>) = tx_view s"
    "tx_view (s\<lparr>mtu_prober := x44\<rparr>) = tx_view s"
    "tx_view (s\<lparr>pending_data := x45\<rparr>) = tx_view s"
    "tx_view (s\<lparr>rcv_pkt := x46\<rparr>) = tx_view s"
    "tx_view (s\<lparr>so_options := x47\<rparr>) = tx_view s"
  by (simp_all add: tx_view_def datagrams_def)

lemma tx_view_emit [simp]: "sent_bytes e = [] \<Longrightarrow> tx_view (emit e s) = tx_view s"
  by (simp add: tx_view_def) (simp add: emit_def)

lemma tx_view_flags [simp]: "tx_view (set_flags f s) = tx_view s" "tx_view (clear_flags f s) = tx_view s"
    "tx_view (set_timer t v s) = tx_view s"
  by (simp_all add: set_flags_def clear_flags_def set_timer_def)

lemma tx_view_snd_buf [simp]: "tx_view (s\<lparr>snd_buf := sb\<rparr>) = (m_state s, m_maxseg s, sb, send_ops s, datagrams s)"
    "tx_view (s\<lparr>send_ops := ops\<rparr>) = (m_state s, m_maxseg s, snd_buf s, ops, datagrams s)"
    "tx_view (s\<lparr>m_state := st\<rparr>) = (st, m_maxseg s, snd_buf s, send_ops s, datagrams s)"
    "tx_view (s\<lparr>m_maxseg := g\<rparr>) = (m_state s, g, snd_buf s, send_ops s, datagrams s)"
  by (simp_all add: tx_view_def datagrams_def)

lemma tx_view_state [simp]: "tx_view (slow_start s) = tx_view s" "tx_view (decr_snd_cwnd s) = tx_view s"
    "tx_view (update_snd_una a s) = tx_view s" "tx_view (update_snd_fack a s) = tx_view s"
    "tx_view (update_snd_wnd w s) = tx_view s" "tx_view (reset_rexmt_timer s) = tx_view s"
    "tx_view (leave_persist s) = tx_view s" "tx_view (canceltimers s) = tx_view s"
    "tx_view (xmit_timer r s) = tx_view s" "tx_view (enter_persist s) = tx_view s"
    "tx_view (tcp_sendseqinit s) = tx_view s" "tx_view (tcp_rcvseqinit s) = tx_view s"
  by (simp_all add: slow_start_def decr_snd_cwnd_def update_snd_una_def update_snd_fack_def update_snd_wnd_def
      reset_rexmt_timer_def leave_persist_def canceltimers_def xmit_timer_def enter_persist_def
      tcp_sendseqinit_def tcp_rcvseqinit_def Let_def)

lemma tx_view_state2 [simp]: "tx_view (handle_packet_lost t s) = tx_view s" "tx_view (update_rtt a s) = tx_view s"
  by (simp_all add: handle_packet_lost_def update_rtt_def Let_def)

lemma tx_view_incr: "incr_snd_cwnd s = Some t \<Longrightarrow> tx_view t = tx_view s"
  by (auto simp: incr_snd_cwnd_def Let_def split: if_splits)

text \<open>
  The second view: what the sender knows of the sequence numbers, \<open>pending_data\<close> and \<open>m_retrans_data\<close>.
\<close>

definition sq_view :: "udt_socket \<Rightarrow> (udt_seq \<times> udt_seq \<times> udt_seq \<times> bool) \<times> u32 \<times> u32" where
  "sq_view s = ((m_snd_una s, m_snd_nxt s, m_snd_max s, flag s TF_SENTFIN), pending_data s, m_retrans_data s)"

lemma sq_view_frame [simp]:
    "sq_view (s\<lparr>m_force := x0\<rparr>) = sq_view s"
    "sq_view (s\<lparr>m_snd_fack := x4\<rparr>) = sq_view s"
    "sq_view (s\<lparr>m_iss := x6\<rparr>) = sq_view s"
    "sq_view (s\<lparr>m_pseq := x7\<rparr>) = sq_view s"
    "sq_view (s\<lparr>m_rcv_wnd := x8\<rparr>) = sq_view s"
    "sq_view (s\<lparr>m_rcv_nxt := x9\<rparr>) = sq_view s"
    "sq_view (s\<lparr>m_irs := x10\<rparr>) = sq_view s"
    "sq_view (s\<lparr>m_rcv_adv := x11\<rparr>) = sq_view s"
    "sq_view (s\<lparr>m_rxtshift := x13\<rparr>) = sq_view s"
    "sq_view (s\<lparr>m_rxtcur := x14\<rparr>) = sq_view s"
    "sq_view (s\<lparr>m_rtt := x15\<rparr>) = sq_view s"
    "sq_view (s\<lparr>m_rtseq := x16\<rparr>) = sq_view s"
    "sq_view (s\<lparr>m_srtt := x17\<rparr>) = sq_view s"
    "sq_view (s\<lparr>m_rttvar := x18\<rparr>) = sq_view s"
    "sq_view (s\<lparr>m_rttmin := x19\<rparr>) = sq_view s"
    "sq_view (s\<lparr>m_idle := x20\<rparr>) = sq_view s"
    "sq_view (s\<lparr>m_tick := x21\<rparr>) = sq_view s"
    "sq_view (s\<lparr>m_timers := x22\<rparr>) = sq_view s"
    "sq_view (s\<lparr>m_fast_timer := x23\<rparr>) = sq_view s"
    "sq_view (s\<lparr>m_slow_timer := x24\<rparr>) = sq_view s"
    "sq_view (s\<lparr>m_snd_wl1 := x25\<rparr>) = sq_view s"
    "sq_view (s\<lparr>m_snd_wl2 := x26\<rparr>) = sq_view s"
    "sq_view (s\<lparr>m_snd_wnd := x27\<rparr>) = sq_view s"
    "sq_view (s\<lparr>m_dupacks := x28\<rparr>) = sq_view s"
    "sq_view (s\<lparr>m_snd_cwnd := x29\<rparr>) = sq_view s"
    "sq_view (s\<lparr>m_pcwnd := x30\<rparr>) = sq_view s"
    "sq_view (s\<lparr>m_max_sndwnd := x31\<rparr>) = sq_view s"
    "sq_view (s\<lparr>m_tstamp_first := x32\<rparr>) = sq_view s"
    "sq_view (s\<lparr>m_tstamp_second := x33\<rparr>) = sq_view s"
    "sq_view (s\<lparr>m_tstamp_third := x34\<rparr>) = sq_view s"
    "sq_view (s\<lparr>m_last_error := x35\<rparr>) = sq_view s"
    "sq_view (s\<lparr>next_layer := x36\<rparr>) = sq_view s"
    "sq_view (s\<lparr>remote_ep := x37\<rparr>) = sq_view s"
    "sq_view (s\<lparr>peer_ep := x38\<rparr>) = sq_view s"
    "sq_view (s\<lparr>recv_ops := x39\<rparr>) = sq_view s"
    "sq_view (s\<lparr>rcv_buf := x40\<rparr>) = sq_view s"
    "sq_view (s\<lparr>connect_handler := x41\<rparr>) = sq_view s"
    "sq_view (s\<lparr>accept_handler := x42\<rparr>) = sq_view s"
    "sq_view (s\<lparr>shutdown_handler := x43\<rparr>) = sq_view s"
    "sq_view (s\<lparr>mtu_prober := x44\<rparr>) = sq_view s"
    "sq_view (s\<lparr>rcv_pkt := x46\<rparr>) = sq_view s"
    "sq_view (s\<lparr>so_options := x47\<rparr>) = sq_view s"
    "sq_view (s\<lparr>m_state := y0\<rparr>) = sq_view s"
    "sq_view (s\<lparr>m_maxseg := y1\<rparr>) = sq_view s"
    "sq_view (s\<lparr>snd_buf := y2\<rparr>) = sq_view s"
    "sq_view (s\<lparr>send_ops := y3\<rparr>) = sq_view s"
    "sq_view (s\<lparr>effects := y4\<rparr>) = sq_view s"
  by (simp_all add: sq_view_def flag_def)

lemma sentfin_bits [simp]: "has_flag (f OR g) TF_SENTFIN \<longleftrightarrow> has_flag f TF_SENTFIN \<or> has_flag g TF_SENTFIN"
    "\<not> has_flag TF_ACKNOW TF_SENTFIN" "\<not> has_flag TF_DELACK TF_SENTFIN" "\<not> has_flag TF_NOTIFY_READ TF_SENTFIN"
    "\<not> has_flag TF_NOTIFY_WRITE TF_SENTFIN" "\<not> has_flag TF_PACKET_CONSUMED TF_SENTFIN"
    "\<not> has_flag TF_NOTIFY_DROP TF_SENTFIN" "\<not> has_flag TF_NEED_OUTPUT TF_SENTFIN" "\<not> has_flag TF_NEED_RESET TF_SENTFIN"
  by (simp_all add: flag_simps) (simp_all add: has_flag_def udt_const)

lemma sq_view_emit [simp]: "sq_view (emit e s) = sq_view s"
  by (simp add: emit_def)

lemma has_flag_clear_other: "\<not> has_flag f g \<Longrightarrow> has_flag (w AND NOT f) g \<longleftrightarrow> has_flag w g"
  using has_flag_clear [of g f w] by (simp add: has_flag_def and.commute)

lemma sq_view_flags [simp]: "\<not> has_flag f TF_SENTFIN \<Longrightarrow> sq_view (set_flags f s) = sq_view s"
    "\<not> has_flag f TF_SENTFIN \<Longrightarrow> sq_view (clear_flags f s) = sq_view s" "sq_view (set_timer t v s) = sq_view s"
  by (simp_all add: set_flags_def clear_flags_def set_timer_def sq_view_def flag_def has_flag_or_left has_flag_clear_other)

lemma sq_view_fields [simp]:
    "sq_view (s\<lparr>m_snd_una := q\<rparr>) = ((q, m_snd_nxt s, m_snd_max s, flag s TF_SENTFIN), pending_data s, m_retrans_data s)"
    "sq_view (s\<lparr>m_snd_nxt := q\<rparr>) = ((m_snd_una s, q, m_snd_max s, flag s TF_SENTFIN), pending_data s, m_retrans_data s)"
    "sq_view (s\<lparr>m_snd_max := q\<rparr>) = ((m_snd_una s, m_snd_nxt s, q, flag s TF_SENTFIN), pending_data s, m_retrans_data s)"
    "sq_view (s\<lparr>pending_data := w\<rparr>) = ((m_snd_una s, m_snd_nxt s, m_snd_max s, flag s TF_SENTFIN), w, m_retrans_data s)"
    "sq_view (s\<lparr>m_retrans_data := w\<rparr>) = ((m_snd_una s, m_snd_nxt s, m_snd_max s, flag s TF_SENTFIN), pending_data s, w)"
  by (simp_all add: sq_view_def flag_def)

lemma sq_view_state [simp]: "sq_view (slow_start s) = sq_view s" "sq_view (decr_snd_cwnd s) = sq_view s"
    "sq_view (update_snd_fack a s) = sq_view s" "sq_view (update_snd_wnd w s) = sq_view s"
    "sq_view (reset_rexmt_timer s) = sq_view s" "sq_view (leave_persist s) = sq_view s"
    "sq_view (canceltimers s) = sq_view s" "sq_view (xmit_timer r s) = sq_view s"
    "sq_view (enter_persist s) = sq_view s" "sq_view (tcp_rcvseqinit s) = sq_view s"
    "sq_view (handle_packet_lost t s) = sq_view s" "sq_view (update_rtt a s) = sq_view s"
  by (simp_all add: slow_start_def decr_snd_cwnd_def update_snd_fack_def update_snd_wnd_def reset_rexmt_timer_def
      leave_persist_def canceltimers_def xmit_timer_def enter_persist_def tcp_rcvseqinit_def handle_packet_lost_def
      update_rtt_def Let_def)

lemma sq_view_incr: "incr_snd_cwnd s = Some t \<Longrightarrow> sq_view t = sq_view s"
  by (auto simp: incr_snd_cwnd_def Let_def split: if_splits)

text \<open>Both views.\<close>

definition both :: "udt_socket \<Rightarrow> (tcp_state \<times> u16 \<times> udt_buf \<times> send_operation list \<times> u8 list list) \<times>
    (udt_seq \<times> udt_seq \<times> udt_seq \<times> bool) \<times> u32 \<times> u32" where
  "both s = (tx_view s, sq_view s)"

lemma both_eq [simp]: "both t = both s \<longleftrightarrow> tx_view t = tx_view s \<and> sq_view t = sq_view s"
  by (simp add: both_def)

section \<open>The invariant\<close>

text \<open>
  The states of an established connection, and those in which the user has shut it down.
\<close>

definition open_states :: "tcp_state set" where
  "open_states = {TCPS_ESTABLISHED, TCPS_CLOSE_WAIT}"

definition ending_states :: "tcp_state set" where
  "ending_states = {TCPS_FIN_WAIT_1, TCPS_FIN_WAIT_2, TCPS_CLOSING, TCPS_LAST_ACK, TCPS_TIME_WAIT}"

definition live_states :: "tcp_state set" where
  "live_states = open_states \<union> ending_states"

definition tx_states :: "tcp_state set" where
  "tx_states = insert TCPS_CLOSED live_states"

definition op_bytes :: "send_operation \<Rightarrow> u8 list" where
  "op_bytes ops = cbuf_bytes (send_buf ops)"

definition tx_pkt :: "udt_seq \<Rightarrow> u8 list \<Rightarrow> udt_packet \<Rightarrow> bool" where
  "tx_pkt b S p \<longleftrightarrow> in_stream b S False p \<and> unat (plen p) \<le> 918"

text \<open>A datagram of the stream that fits the path MTU: at most 60 bytes of header and 918 of data.\<close>

definition tx_datagram :: "udt_seq \<Rightarrow> u8 list \<Rightarrow> bool \<Rightarrow> u8 list \<Rightarrow> bool" where
  "tx_datagram b S F d \<longleftrightarrow> carries b S F (parse_datagram d) \<and> length d \<le> MAX_HEADER_SIZE + 918"

text \<open>\<open>A\<close> is the set of states the connection may be in.\<close>

definition tx_stream :: "udt_seq \<Rightarrow> u8 list \<Rightarrow> bool \<Rightarrow> tcp_state set \<Rightarrow>
    tcp_state \<times> u16 \<times> udt_buf \<times> send_operation list \<times> u8 list list \<Rightarrow> bool" where
  "tx_stream b S F A = (\<lambda>(st, g, sb, ops, ds). length S < 2 ^ 32 \<and> st \<in> A \<and> unat g \<le> 918 \<and> buf_wf sb \<and>
     m_seq sb = b + word_of_nat (length S) \<and> (\<forall>p \<in> set (m_pkts sb). tx_pkt b S p) \<and>
     (\<forall>d \<in> set ds. tx_datagram b S F d))"

text \<open>
  The sequence numbers, by their distance from \<open>b\<close>: none is beyond the stream, until the FIN was
  sent, which then is the highest number sent.
\<close>

definition seq_ok :: "udt_seq \<Rightarrow> nat \<Rightarrow> bool \<Rightarrow> udt_seq \<times> udt_seq \<times> udt_seq \<times> bool \<Rightarrow> bool" where
  "seq_ok b n F = (\<lambda>(una, nxt, mx, sentfin).
     off b una \<le> off b mx \<and> off b mx \<le> n + of_bool sentfin \<and> off b nxt \<le> n + of_bool sentfin \<and>
     (off b nxt = Suc n \<longrightarrow> off b mx = Suc n) \<and> (sentfin \<longrightarrow> F \<and> off b mx = Suc n))"

text \<open>
  \<open>H\<close> is the list of all buffers the user handed to \<open>async_send\<close> so far, \<open>sh\<close> whether he called
  \<open>async_shutdown\<close>; the buffers accepted and those still queued are a subsequence of \<open>H\<close>. \<open>F\<close> is
  whether the stream has ended: a FIN may have been sent, and nothing is queued any more. The
  bounds on the sequence numbers hold while \<open>H\<close> fills less than half the circle. \<open>G\<close> is what was
  so at an earlier moment: the buffers accepted, the end of the stream, the flag \<open>TF_SENTFIN\<close>.
\<close>

definition short :: "u8 list list \<Rightarrow> bool" where
  "short H \<longleftrightarrow> length (concat H) + 4 < 2 ^ 31"

text \<open>
  The packets of the buffer are in the order of the stream; only those sent before are flagged for
  retransmission, and \<open>m_retrans_data\<close> counts their bytes.
\<close>

definition rexmt_len :: "udt_packet list \<Rightarrow> nat" where
  "rexmt_len ps = sum_len (filter (\<lambda>p. has_rexmt (pflags p)) ps)"

definition pkts_ok :: "udt_seq \<Rightarrow> udt_seq \<Rightarrow> udt_packet list \<Rightarrow> u32 \<Rightarrow> bool" where
  "pkts_ok b mx ps rd \<longleftrightarrow> sorted (map (\<lambda>p. off b (pseq p)) ps) \<and>
     (\<forall>p \<in> set ps. has_rexmt (pflags p) \<longrightarrow> off b (pseq p) < off b mx) \<and> rd = word_of_nat (rexmt_len ps)"

type_synonym past = "u8 list list \<times> bool \<times> bool"

definition since :: "past \<Rightarrow> past \<Rightarrow> bool" where
  "since = (\<lambda>(got0, F0, z0) (got, F, z). prefix got0 got \<and> (F0 \<longrightarrow> F \<and> got = got0) \<and> (z0 \<longrightarrow> z))"

definition tx_queue :: "send_operation list \<Rightarrow> u32 \<Rightarrow> bool" where
  "tx_queue ops pd \<longleftrightarrow> pd = word_of_nat (length (concat (map op_bytes ops))) \<and> (\<forall>x \<in> set ops. op_bytes x \<noteq> [])"

definition tx_inv :: "udt_seq \<Rightarrow> past \<Rightarrow> u8 list list \<Rightarrow> bool \<Rightarrow> tcp_state set \<Rightarrow>
    (tcp_state \<times> u16 \<times> udt_buf \<times> send_operation list \<times> u8 list list) \<times>
    (udt_seq \<times> udt_seq \<times> udt_seq \<times> bool) \<times> u32 \<times> u32 \<Rightarrow> bool" where
  "tx_inv b G H sh A = (\<lambda>((st, g, sb, ops, ds), sq, pd, rd).
     length (concat H) < 2 ^ 32 \<and> (sh \<longrightarrow> short H) \<and> (st \<in> ending_states \<longrightarrow> sh) \<and> tx_queue ops pd \<and>
     (\<exists>got F. since G (got, F, snd (snd (snd sq))) \<and> subseq (got @ map op_bytes ops) H \<and> (F \<longrightarrow> sh \<and> ops = []) \<and>
        tx_stream b (concat got) F A (st, g, sb, ops, ds) \<and>
        (short H \<longrightarrow> seq_ok b (length (concat got)) F sq \<and> pkts_ok b (fst (snd (snd sq))) (m_pkts sb) rd \<and> (\<forall>d \<in> set ds. near b (concat got) (parse_datagram d)))))"

definition tx_ok :: "udt_seq \<Rightarrow> past \<Rightarrow> u8 list list \<Rightarrow> bool \<Rightarrow> tcp_state set \<Rightarrow> udt_socket \<Rightarrow> bool" where
  "tx_ok b G H sh A s \<longleftrightarrow> tx_inv b G H sh A (both s)"

text \<open>What the invariant says of a state, for the accepted buffers \<open>got\<close> and the end \<open>F\<close>.\<close>

definition tx_at :: "udt_seq \<Rightarrow> u8 list list \<Rightarrow> bool \<Rightarrow> tcp_state set \<Rightarrow> u8 list list \<Rightarrow> bool \<Rightarrow> udt_socket \<Rightarrow> bool" where
  "tx_at b H sh A got F s \<longleftrightarrow> subseq (got @ map op_bytes (send_ops s)) H \<and> (F \<longrightarrow> sh \<and> send_ops s = []) \<and>
     tx_stream b (concat got) F A (tx_view s) \<and>
     (short H \<longrightarrow> seq_ok b (length (concat got)) F (fst (sq_view s)) \<and>
        pkts_ok b (m_snd_max s) (m_pkts (snd_buf s)) (m_retrans_data s) \<and> (\<forall>d \<in> set (datagrams s). near b (concat got) (parse_datagram d)))"

definition tx_side :: "u8 list list \<Rightarrow> bool \<Rightarrow> udt_socket \<Rightarrow> bool" where
  "tx_side H sh s \<longleftrightarrow> length (concat H) < 2 ^ 32 \<and> (sh \<longrightarrow> short H) \<and> (m_state s \<in> ending_states \<longrightarrow> sh) \<and>
     tx_queue (send_ops s) (pending_data s)"

lemma tx_ok_iff: "tx_ok b G H sh A s \<longleftrightarrow> tx_side H sh s \<and> (\<exists>got F. since G (got, F, flag s TF_SENTFIN) \<and> tx_at b H sh A got F s)"
  by (auto simp: tx_ok_def tx_inv_def tx_at_def tx_side_def both_def tx_view_def sq_view_def)

lemma tx_okE:
  assumes "tx_ok b G H sh A s"
  obtains got F where "tx_side H sh s" and "since G (got, F, flag s TF_SENTFIN)" and "tx_at b H sh A got F s"
  using assms by (auto simp: tx_ok_iff)

lemma since_refl [simp]: "since p p"
  by (auto simp: since_def split: prod.splits)

lemma since_trans: "since p q \<Longrightarrow> since q r \<Longrightarrow> since p r"
  by (cases p; cases q; cases r) (auto simp: since_def intro: prefix_order.trans)

text \<open>Fixing the present as the past, to compare a later state with it.\<close>

lemma tx_ok_fix:
  assumes "tx_ok b G H sh A s"
  obtains got F where "tx_at b H sh A got F s" and "tx_side H sh s" and "tx_ok b (got, F, flag s TF_SENTFIN) H sh A s"
    and "\<And>t. tx_ok b (got, F, flag s TF_SENTFIN) H sh A t \<Longrightarrow> tx_ok b G H sh A t"
proof -
  from assms obtain got F where a: "tx_side H sh s" "since G (got, F, flag s TF_SENTFIN)" "tx_at b H sh A got F s"
    by (rule tx_okE)
  have "tx_ok b G H sh A t" if "tx_ok b (got, F, flag s TF_SENTFIN) H sh A t" for t
    using that since_trans [OF a(2)] unfolding tx_ok_iff by blast
  moreover have "tx_ok b (got, F, flag s TF_SENTFIN) H sh A s" using a since_refl unfolding tx_ok_iff by blast
  ultimately show ?thesis using that a by blast
qed

lemma tx_okI: "tx_ok b G H sh A s \<Longrightarrow> both t = both s \<Longrightarrow> tx_ok b G H sh A t"
  by (simp add: tx_ok_def both_def)

lemma tx_ok_mono: "tx_ok b G H sh A s \<Longrightarrow> A \<subseteq> B \<Longrightarrow> tx_ok b G H sh B s"
  by (fastforce simp: tx_ok_iff tx_at_def tx_stream_def)

lemma tx_ok_restrict: "tx_ok b G H sh A s \<Longrightarrow> m_state s \<in> B \<Longrightarrow> tx_ok b G H sh B s"
  by (fastforce simp: tx_ok_iff tx_at_def tx_stream_def tx_view_def)

lemma tx_ok_state: "tx_ok b G H sh A s \<Longrightarrow> m_state s \<in> A"
  by (auto simp: tx_ok_iff tx_at_def tx_stream_def tx_view_def)

lemma in_stream_mono: "in_stream b S False p \<Longrightarrow> in_stream b (S @ T) False p"
  by (auto simp: in_stream_def)

lemma in_stream_end: "in_stream b S False p \<Longrightarrow> in_stream b S F p"
  by (auto simp: in_stream_def)

lemma carries_mono: "carries b S False p \<Longrightarrow> carries b (S @ T) False p"
  by (auto simp: carries_def in_stream_mono)

lemma carries_end: "carries b S False p \<Longrightarrow> carries b S F p"
  by (auto simp: carries_def in_stream_end)

lemma tx_datagram_mono: "tx_datagram b S False d \<Longrightarrow> tx_datagram b (S @ T) False d"
  by (auto simp: tx_datagram_def carries_mono)

lemma seq_ok_mono: "seq_ok b n False sq \<Longrightarrow> n \<le> m \<Longrightarrow> seq_ok b m False sq"
  by (auto simp: seq_ok_def)

lemma seq_ok_end: "seq_ok b n False sq \<Longrightarrow> seq_ok b n F sq"
  by (auto simp: seq_ok_def)

lemma length_concat_subseq: "subseq xs ys \<Longrightarrow> length (concat xs) \<le> length (concat ys)"
  by (induction rule: list_emb.induct) auto

section \<open>Accepting data\<close>

lemma contig_in_stream:
  assumes "contig (b + word_of_nat (length S)) ps" and "\<forall>p \<in> set ps. pkt_ok p \<and> \<not> has_fin (pflags p)"
    and "length (S @ payload ps) < 2 ^ 32"
  shows "\<forall>p \<in> set ps. in_stream b (S @ payload ps) False p"
  using assms
proof (induction ps arbitrary: S)
  case Nil
  then show ?case by simp
next
  case (Cons q ps)
  have ok: "pkt_ok q" "\<not> has_fin (pflags q)" using Cons.prems(2) by auto
  have lq: "length (pdata q) = unat (plen q)" by (rule length_pdata [OF ok(1)])
  have sq: "pseq q = b + word_of_nat (length S)" using Cons.prems(1) by simp
  have rest: "contig (pend q) ps" using Cons.prems(1) by (simp add: sq)
  have "off b (pseq q) = length S" using Cons.prems(3) unfolding sq by (intro off_of_nat) simp
  then have "in_stream b (S @ payload (q # ps)) False q"
    using ok lq by (simp add: in_stream_def)
  moreover have e: "pend q = b + word_of_nat (length (S @ pdata q))" by (simp add: sq lq add.assoc)
  have "\<forall>p \<in> set ps. in_stream b ((S @ pdata q) @ payload ps) False p"
    by (rule Cons.IH) (use Cons.prems(2,3) rest [unfolded e] in simp_all)
  ultimately show ?case by simp
qed

lemma segment_no_fin: "segment_of g p \<Longrightarrow> pkt_ok p \<and> \<not> has_fin (pflags p)"
  by (simp add: segment_of_def has_fin_def flag_simps)

lemma tx_stream_append:
  assumes tx: "tx_stream b S False A (st, g, sb, ops, ds)" and app: "append_data c (ucast g) sb = (True, sb')"
    and len: "length (S @ cbuf_bytes c) < 2 ^ 32"
  shows "tx_stream b (S @ cbuf_bytes c) False A (st, g, sb', ops, ds)"
proof -
  from tx have wf: "buf_wf sb" and sq: "m_seq sb = b + word_of_nat (length S)" and g: "unat g \<le> 918" "st \<in> A"
    and old: "\<forall>p \<in> set (m_pkts sb). tx_pkt b S p" "\<forall>d \<in> set ds. tx_datagram b S False d"
    by (auto simp: tx_stream_def)
  have g': "unat (ucast g :: u32) \<le> 65515" using g by simp
  have lc: "length (cbuf_bytes c) < 2 ^ 32" using len by simp
  from append_data_spec [OF app wf g' lc] obtain ps where
    ps: "m_pkts sb' = m_pkts sb @ ps" "payload ps = cbuf_bytes c" "contig (m_seq sb) ps"
      "m_seq sb' = m_seq sb + buffer_size c" "\<forall>p \<in> set ps. segment_of (ucast g) p" "buf_wf sb'"
    by metis
  have "\<forall>p \<in> set ps. in_stream b (S @ payload ps) False p"
    by (rule contig_in_stream) (use ps len sq segment_no_fin in auto)
  moreover have "\<forall>p \<in> set ps. unat (plen p) \<le> 918" using ps(5) g by (fastforce simp: segment_of_def)
  ultimately have "\<forall>p \<in> set ps. tx_pkt b (S @ cbuf_bytes c) p" by (simp add: tx_pkt_def ps(2))
  then show ?thesis
    using old ps(1,4,6) g len sq
    by (auto simp: tx_stream_def tx_pkt_def in_stream_mono tx_datagram_mono buffer_size_def)
qed

lemma contig_offs:
  assumes "contig (b + word_of_nat m) ps" and "\<forall>p \<in> set ps. pkt_ok p" and "m + length (payload ps) < 2 ^ 32"
  shows "sorted (map (\<lambda>p. off b (pseq p)) ps) \<and> (\<forall>p \<in> set ps. m \<le> off b (pseq p))"
  using assms
proof (induction ps arbitrary: m)
  case Nil
  then show ?case by simp
next
  case (Cons q ps)
  have lq: "length (pdata q) = unat (plen q)" by (rule length_pdata) (use Cons.prems(2) in simp)
  have sq: "pseq q = b + word_of_nat m" using Cons.prems(1) by simp
  have oq: "off b (pseq q) = m" unfolding sq by (rule off_of_nat) (use Cons.prems(3) in simp)
  have "contig (b + word_of_nat (m + length (pdata q))) ps" using Cons.prems(1) by (simp add: sq lq add.assoc)
  from Cons.IH [OF this] Cons.prems(2,3)
  have "sorted (map (\<lambda>p. off b (pseq p)) ps)" "\<forall>p \<in> set ps. m + length (pdata q) \<le> off b (pseq p)" by (simp_all add: lq)
  with oq show ?case by (fastforce dest: bspec)
qed

lemma rexmt_len_simps [simp]: "rexmt_len [] = 0" "rexmt_len (ps @ qs) = rexmt_len ps + rexmt_len qs"
    "rexmt_len (p # ps) = (if has_rexmt (pflags p) then unat (plen p) else 0) + rexmt_len ps"
  by (simp_all add: rexmt_len_def)

lemma rexmt_len_none: "\<forall>p \<in> set ps. \<not> has_rexmt (pflags p) \<Longrightarrow> rexmt_len ps = 0"
  by (induction ps) simp_all

lemma append_pkts_ok:
  assumes tx: "tx_stream b S False A (st, g, sb, ops, ds)" and app: "append_data c (ucast g) sb = (True, sb')"
    and len: "length (S @ cbuf_bytes c) < 2 ^ 32" and ok: "pkts_ok b mx (m_pkts sb) rd"
  shows "pkts_ok b mx (m_pkts sb') rd"
proof -
  from tx have wf: "buf_wf sb" and sq: "m_seq sb = b + word_of_nat (length S)" and g: "unat (ucast g :: u32) \<le> 65515"
    and old: "\<forall>p \<in> set (m_pkts sb). off b (pseq p) \<le> length S"
    by (auto simp: tx_stream_def tx_pkt_def in_stream_def)
  have lc: "length (cbuf_bytes c) < 2 ^ 32" using len by simp
  from append_data_spec [OF app wf g lc] obtain ps where
    ps: "m_pkts sb' = m_pkts sb @ ps" "payload ps = cbuf_bytes c" "contig (m_seq sb) ps" "\<forall>p \<in> set ps. segment_of (ucast g) p"
    by metis
  have n: "\<forall>p \<in> set ps. pkt_ok p \<and> \<not> has_rexmt (pflags p)" using ps(4) by (simp add: segment_of_def)
  have "sorted (map (\<lambda>p. off b (pseq p)) ps) \<and> (\<forall>p \<in> set ps. length S \<le> off b (pseq p))"
    by (rule contig_offs) (use ps len sq n in auto)
  with ok old n ps(1) show ?thesis
    by (auto simp: pkts_ok_def sorted_append rexmt_len_none intro: order_trans)
qed

lemma consume_loop_state: "consume_loop ops n s = (ops', n', t) \<Longrightarrow> m_state t = m_state s"
  by (induction ops n s arbitrary: ops' n' t rule: consume_loop.induct)
    (auto simp: Let_def emit_def split: prod.splits bool.splits)

lemma consume_pending_data_state [simp]: "m_state (snd (consume_pending_data s)) = m_state s"
  by (auto simp: consume_pending_data_def split: prod.splits dest: consume_loop_state)

lemma consume_loop_tx:
  assumes "consume_loop ops n s = (ops', n', t)" and "tx_stream b (concat got) False A (tx_view s)"
    and "length (concat (got @ map op_bytes ops)) < 2 ^ 32"
  shows "\<exists>mid. map op_bytes ops = mid @ map op_bytes ops' \<and> set ops' \<subseteq> set ops \<and> tx_stream b (concat (got @ mid)) False A (tx_view t) \<and>
    n' = n + word_of_nat (length (concat mid)) \<and> sq_view t = sq_view s \<and> datagrams t = datagrams s \<and>
    (\<forall>mx rd. pkts_ok b mx (m_pkts (snd_buf s)) rd \<longrightarrow> pkts_ok b mx (m_pkts (snd_buf t)) rd)"
  using assms
proof (induction ops n s arbitrary: got ops' n' t rule: consume_loop.induct)
  case (1 n s)
  then show ?case by (intro exI [of _ "[]"]) simp
next
  case (2 ops rest n s)
  obtain ok sb where ap: "append_data (send_buf ops) (ucast (m_maxseg s)) (snd_buf s) = (ok, sb)"
    by (cases "append_data (send_buf ops) (ucast (m_maxseg s)) (snd_buf s)")
  show ?case
  proof (cases ok)
    case False
    with 2 ap show ?thesis by (intro exI [of _ "[]"]) (auto simp: Let_def)
  next
    case True
    have ap': "append_data (send_buf ops) (ucast (m_maxseg s)) (snd_buf s) = (True, sb)" using ap True by simp
    let ?u = "emit (Post_io (send_handler ops) (udt_error Succeed) (buffer_size (send_buf ops)) []) (s\<lparr>snd_buf := sb\<rparr>)"
    have l: "length (concat ((got @ [op_bytes ops]) @ map op_bytes rest)) < 2 ^ 32" using 2(4) by simp
    have l': "length (concat got @ cbuf_bytes (send_buf ops)) < 2 ^ 32" using 2(4) by (simp add: op_bytes_def)
    have pk: "snd_buf ?u = sb" by (simp add: emit_def)
    from tx_stream_append [OF 2(3) [unfolded tx_view_def] ap' l']
    have "tx_stream b (concat (got @ [op_bytes ops])) False A (tx_view ?u)" by (simp add: op_bytes_def)
    from 2(1) [OF refl refl ap' [symmetric] _ _ this l] 2(2) ap' obtain mid where
      mid: "map op_bytes rest = mid @ map op_bytes ops'" "set ops' \<subseteq> set rest"
        "tx_stream b (concat ((got @ [op_bytes ops]) @ mid)) False A (tx_view t)"
        "n' = n + buffer_size (send_buf ops) + word_of_nat (length (concat mid))" "sq_view t = sq_view ?u" "datagrams t = datagrams ?u"
        "\<forall>mx rd. pkts_ok b mx (m_pkts (snd_buf ?u)) rd \<longrightarrow> pkts_ok b mx (m_pkts (snd_buf t)) rd"
      by (auto simp: Let_def)
    have "datagrams ?u = datagrams s" by (simp add: datagrams_def emit_def)
    moreover have "\<forall>mx rd. pkts_ok b mx (m_pkts (snd_buf s)) rd \<longrightarrow> pkts_ok b mx (m_pkts (snd_buf t)) rd"
      using mid(7) append_pkts_ok [OF 2(3) [unfolded tx_view_def] ap' l'] unfolding pk by blast
    ultimately show ?thesis using mid(1-6)
      by (intro exI [of _ "op_bytes ops # mid"]) (auto simp: buffer_size_def op_bytes_def [of ops] add.assoc)
  qed
qed

lemma consume_pending_data_tx: "tx_ok b G H sh A s \<Longrightarrow> tx_ok b G H sh A (snd (consume_pending_data s))"
proof (cases "send_ops s = []")
  case True
  assume ok: "tx_ok b G H sh A s"
  show ?thesis by (rule tx_okI [OF ok]) (simp add: consume_pending_data_def True tx_view_def sq_view_def datagrams_def flag_def)
next
  case False
  assume "tx_ok b G H sh A s"
  then obtain got F where sd: "tx_side H sh s" and pst: "since G (got, F, flag s TF_SENTFIN)" and at: "tx_at b H sh A got F s"
    by (rule tx_okE)
  have F: "\<not> F" using at False by (auto simp: tx_at_def)
  obtain ops n t where l: "consume_loop (send_ops s) 0 s = (ops, n, t)" by (cases "consume_loop (send_ops s) 0 s")
  have lh: "length (concat H) < 2 ^ 32" using sd by (simp add: tx_side_def)
  have "length (concat (got @ map op_bytes (send_ops s))) < 2 ^ 32"
    using length_concat_subseq [of "got @ map op_bytes (send_ops s)" H] at lh by (simp add: tx_at_def)
  from consume_loop_tx [OF l _ this, of b A] at F obtain mid where
    mid: "map op_bytes (send_ops s) = mid @ map op_bytes ops" "set ops \<subseteq> set (send_ops s)"
      "tx_stream b (concat (got @ mid)) False A (tx_view t)"
      "n = word_of_nat (length (concat mid))" "sq_view t = sq_view s" "datagrams t = datagrams s"
      "\<forall>mx rd. pkts_ok b mx (m_pkts (snd_buf s)) rd \<longrightarrow> pkts_ok b mx (m_pkts (snd_buf t)) rd"
    by (auto simp: tx_at_def)
  let ?t = "t\<lparr>send_ops := ops, pending_data := pending_data t - n\<rparr>"
  have sf: "flag t TF_SENTFIN = flag s TF_SENTFIN" "pending_data t = pending_data s"
      "m_snd_max t = m_snd_max s" "m_retrans_data t = m_retrans_data s" using mid(5) by (simp_all add: sq_view_def)
  have st: "m_state t = m_state s" using consume_pending_data_state [of s] by (simp add: consume_pending_data_def l)
  have "subseq ((got @ mid) @ map op_bytes ops) H" using at mid(1) by (simp add: tx_at_def)
  moreover have "tx_stream b (concat (got @ mid)) False A (m_state t, m_maxseg t, snd_buf t, ops, datagrams t)"
    using mid(3) by (simp add: tx_stream_def tx_view_def)
  moreover have "seq_ok b (length (concat (got @ mid))) False (fst (sq_view s)) \<and>
      pkts_ok b (m_snd_max s) (m_pkts (snd_buf t)) (m_retrans_data s) \<and>
      (\<forall>d \<in> set (datagrams s). near b (concat (got @ mid)) (parse_datagram d))" if "short H"
    using at F that mid(7) by (auto simp: tx_at_def intro: seq_ok_mono near_mono)
  ultimately have a: "tx_at b H sh A (got @ mid) F ?t"
    using F mid(5,6) sf(3,4) by (simp add: tx_at_def sq_view_def flag_def)
  have "tx_queue ops (pending_data t - n)"
    using sd mid(1,2,4) by (auto simp: tx_side_def tx_queue_def sf)
  then have "tx_side H sh ?t" using sd by (simp add: tx_side_def st)
  moreover have "since G (got @ mid, F, flag ?t TF_SENTFIN)"
    using pst F sf by (cases G) (auto simp: since_def flag_def intro: prefix_prefix)
  moreover have "snd (consume_pending_data s) = ?t" by (simp add: consume_pending_data_def l)
  ultimately show ?thesis using a by (auto simp: tx_ok_iff)
qed


section \<open>The packets of the buffer\<close>

lemma tx_at_len: "tx_at b H sh A got F s \<Longrightarrow>
    length (concat got) + length (concat (map op_bytes (send_ops s))) \<le> length (concat H)"
  using length_concat_subseq [of "got @ map op_bytes (send_ops s)" H] by (simp add: tx_at_def)

lemma tx_ok_pkts:
  assumes "tx_ok b G H sh A s" and "buf_wf sb" and "m_seq sb = m_seq (snd_buf s)"
    and "\<And>S. \<forall>p \<in> set (m_pkts (snd_buf s)). tx_pkt b S p \<Longrightarrow> \<forall>p \<in> set (m_pkts sb). tx_pkt b S p"
    and "pkts_ok b (m_snd_max s) (m_pkts (snd_buf s)) (m_retrans_data s) \<Longrightarrow> in_window b (m_snd_max s) \<Longrightarrow>
      \<forall>p \<in> set (m_pkts (snd_buf s)). in_window b (pseq p) \<Longrightarrow> pkts_ok b (m_snd_max s) (m_pkts sb) rd"
  shows "tx_ok b G H sh A (s\<lparr>snd_buf := sb, m_retrans_data := rd\<rparr>)"
proof -
  let ?t = "s\<lparr>snd_buf := sb, m_retrans_data := rd\<rparr>"
  from assms(1) obtain got F where a: "tx_side H sh s" "since G (got, F, flag s TF_SENTFIN)" "tx_at b H sh A got F s"
    by (rule tx_okE)
  have "pkts_ok b (m_snd_max s) (m_pkts sb) rd" if "short H"
  proof (rule assms(5))
    have n: "length (concat got) + 4 < 2 ^ 31" using tx_at_len [OF a(3)] that by (simp add: short_def)
    have sq: "seq_ok b (length (concat got)) F (m_snd_una s, m_snd_nxt s, m_snd_max s, flag s TF_SENTFIN)"
      using a(3) that by (simp add: tx_at_def sq_view_def)
    then have "off b (m_snd_max s) \<le> Suc (length (concat got))" by (cases "flag s TF_SENTFIN") (simp_all add: seq_ok_def)
    with n show "in_window b (m_snd_max s)" by (simp add: in_window_def)
    show "\<forall>p \<in> set (m_pkts (snd_buf s)). in_window b (pseq p)"
      using a(3) n by (auto simp: tx_at_def tx_stream_def tx_view_def tx_pkt_def in_stream_def in_window_def)
    show "pkts_ok b (m_snd_max s) (m_pkts (snd_buf s)) (m_retrans_data s)" using a(3) that by (simp add: tx_at_def)
  qed
  then have "tx_at b H sh A got F ?t"
    using a(3) assms(2-4) by (simp add: tx_at_def tx_stream_def tx_view_def sq_view_def)
  moreover have "tx_side H sh ?t" using a(1) by (simp add: tx_side_def)
  moreover have "flag ?t TF_SENTFIN = flag s TF_SENTFIN" by (simp add: flag_def)
  ultimately show ?thesis using a(2) unfolding tx_ok_iff by auto
qed

lemma pkts_ok_set_pflags:
  assumes "pkts_ok b mx (pre @ p # suf) rd" and "has_rexmt f \<Longrightarrow> off b (pseq p) < off b mx"
  shows "pkts_ok b mx (pre @ set_pflags f p # suf) (rd - (if has_rexmt (pflags p) then ucast (plen p) else 0) +
    (if has_rexmt f then ucast (plen p) else 0))"
  using assms by (auto simp: pkts_ok_def)

lemma pkts_ok_drop:
  "pkts_ok b mx (pre @ p # suf) rd \<Longrightarrow>
    pkts_ok b mx (pre @ suf) (if has_rexmt (pflags p) then rd - ucast (plen p) else rd)"
  by (auto simp: pkts_ok_def sorted_append)

text \<open>A change of the sequence numbers only.\<close>

lemma tx_ok_seqs:
  assumes "tx_ok b G H sh A s" and "tx_view t = tx_view s"
    and "pending_data t = pending_data s \<and> m_retrans_data t = m_retrans_data s \<and> m_snd_max t = m_snd_max s"
    and "flag s TF_SENTFIN \<Longrightarrow> flag t TF_SENTFIN"
    and "\<And>got F. short H \<Longrightarrow> tx_at b H sh A got F s \<Longrightarrow> seq_ok b (length (concat got)) F (fst (sq_view s)) \<Longrightarrow>
      seq_ok b (length (concat got)) F (fst (sq_view t))"
  shows "tx_ok b G H sh A t"
proof -
  from assms(1) obtain got F where a: "tx_side H sh s" "since G (got, F, flag s TF_SENTFIN)" "tx_at b H sh A got F s"
    by (rule tx_okE)
  have v: "m_state t = m_state s" "send_ops t = send_ops s" "datagrams t = datagrams s"
    using assms(2) by (simp_all add: tx_view_def)
  have "snd_buf t = snd_buf s" using assms(2) by (simp add: tx_view_def)
  then have "tx_at b H sh A got F t" using a(3) assms(2,3,5) by (auto simp: tx_at_def v)
  moreover have "tx_side H sh t" using a(1) assms(3) by (simp add: tx_side_def v)
  moreover have "since G (got, F, flag t TF_SENTFIN)" using a(2) assms(4) by (cases G) (auto simp: since_def)
  ultimately show ?thesis unfolding tx_ok_iff by blast
qed

lemma seq_ok_una: "seq_ok b n F (una, nxt, mx, z) \<Longrightarrow> seq_ok b n F (una, una, mx, z)"
  by (auto simp: seq_ok_def)

lemma tx_ok_una: "tx_ok b G H sh A s \<Longrightarrow> tx_ok b G H sh A (s\<lparr>m_snd_nxt := m_snd_una s\<rparr>)"
  by (erule tx_ok_seqs) (simp_all add: sq_view_def flag_def seq_ok_una)

lemma tx_pkt_set_pflags: "tx_pkt b S p \<Longrightarrow> \<not> has_fin f \<Longrightarrow> tx_pkt b S (set_pflags f p)"
  by (simp add: tx_pkt_def in_stream_def pdata_set_pflags)

lemma no_fin_retrans: "\<not> has_fin f \<Longrightarrow> \<not> has_fin (f OR TH_RETRANS)" "\<not> has_fin 0"
  by (simp_all add: has_fin_def flag_simps) (simp add: has_flag_def udt_const)

lemma tx_ok_wf: "tx_ok b G H sh A s \<Longrightarrow> buf_wf (snd_buf s)"
  by (auto simp: tx_ok_iff tx_at_def tx_stream_def tx_view_def)

lemma tx_ok_set_pflags:
  assumes ok: "tx_ok b G H sh A s" and pk: "m_pkts (snd_buf s) = pre @ p # suf" and f: "\<not> has_fin (pflags p) \<Longrightarrow> \<not> has_fin f"
    and r: "has_rexmt f \<Longrightarrow> seq_lt (pseq p) (m_snd_max s)"
  shows "tx_ok b G H sh A (s\<lparr>snd_buf := (snd_buf s)\<lparr>m_pkts := pre @ set_pflags f p # suf\<rparr>,
    m_retrans_data := m_retrans_data s - (if has_rexmt (pflags p) then ucast (plen p) else 0) +
      (if has_rexmt f then ucast (plen p) else 0)\<rparr>)"
proof (rule tx_ok_pkts [OF ok])
  show "buf_wf ((snd_buf s)\<lparr>m_pkts := pre @ set_pflags f p # suf\<rparr>)"
    by (rule buf_wf_set_pflags [OF tx_ok_wf [OF ok] pk])
  show "\<forall>p \<in> set (m_pkts ((snd_buf s)\<lparr>m_pkts := pre @ set_pflags f p # suf\<rparr>)). tx_pkt b S p"
    if "\<forall>p \<in> set (m_pkts (snd_buf s)). tx_pkt b S p" for S
    using that f by (auto simp: pk intro!: tx_pkt_set_pflags) (auto simp: tx_pkt_def in_stream_def)
  assume "pkts_ok b (m_snd_max s) (m_pkts (snd_buf s)) (m_retrans_data s)" "in_window b (m_snd_max s)"
    "\<forall>p \<in> set (m_pkts (snd_buf s)). in_window b (pseq p)"
  note k = this
  have "pkts_ok b (m_snd_max s) (pre @ set_pflags f p # suf)
      (m_retrans_data s - (if has_rexmt (pflags p) then ucast (plen p) else 0) + (if has_rexmt f then ucast (plen p) else 0))"
    by (rule pkts_ok_set_pflags) (use k r seq_lt_off [of b "pseq p" "m_snd_max s"] in \<open>auto simp: pk\<close>)
  then show "pkts_ok b (m_snd_max s) (m_pkts ((snd_buf s)\<lparr>m_pkts := pre @ set_pflags f p # suf\<rparr>))
      (m_retrans_data s - (if has_rexmt (pflags p) then ucast (plen p) else 0) + (if has_rexmt f then ucast (plen p) else 0))"
    by simp
qed simp

lemma validate_first_pkt_tx: "tx_ok b G H sh A s \<Longrightarrow> tx_ok b G H sh A (validate_first_pkt s)"
proof (cases "m_pkts (snd_buf s)")
  case Nil
  then show "tx_ok b G H sh A s \<Longrightarrow> ?thesis" by (simp add: validate_first_pkt_def)
next
  case (Cons p ps)
  assume ok: "tx_ok b G H sh A s"
  have "m_pkts (snd_buf s) = [] @ p # ps" using Cons by simp
  from tx_ok_set_pflags [OF ok this no_fin_retrans(2)] show ?thesis
    by (rule tx_okI) (simp_all add: validate_first_pkt_def Cons Let_def sq_view_def tx_view_def flag_def datagrams_def)
qed

text \<open>Choosing a packet of the buffer moves \<open>m_snd_nxt\<close> to its place in the stream.\<close>

lemma tx_ok_pseq:
  assumes ok: "tx_ok b G H sh A s" and p: "p \<in> set (m_pkts (snd_buf s))"
  shows "tx_ok b G H sh A (s\<lparr>m_snd_nxt := pseq p\<rparr>)"
proof (rule tx_ok_seqs [OF ok])
  fix got F
  assume at: "tx_at b H sh A got F s" and sq: "seq_ok b (length (concat got)) F (fst (sq_view s))"
  have "off b (pseq p) \<le> length (concat got)"
    using at p by (auto simp: tx_at_def tx_stream_def tx_view_def tx_pkt_def in_stream_def)
  with sq show "seq_ok b (length (concat got)) F (fst (sq_view (s\<lparr>m_snd_nxt := pseq p\<rparr>)))"
    by (auto simp: seq_ok_def sq_view_def)
qed (simp_all add: flag_def)

lemma get_snd_pkt_tx:
  assumes ok: "tx_ok b G H sh A s" and run: "get_snd_pkt n s = (pkt, t)"
  shows "tx_ok b G H sh A t \<and> m_state t = m_state s \<and>
    (\<forall>p. pkt = Some p \<longrightarrow> p \<in> set (m_pkts (snd_buf t)) \<and> m_snd_nxt t = pseq p)"
proof (cases "find_snd_pkt (m_snd_nxt s) [] (m_pkts (snd_buf s))")
  case None
  with run ok show ?thesis by (auto simp: get_snd_pkt_def)
next
  case (Some f)
  obtain pre p suf where f: "f = (pre, p, suf)" by (cases f)
  from find_snd_pkt_spec [OF Some [unfolded f]] have pk: "m_pkts (snd_buf s) = pre @ p # suf" by auto
  show ?thesis
  proof (cases "ucast (plen p) \<le> n")
    case False
    with run ok Some f show ?thesis by (auto simp: get_snd_pkt_def)
  next
    case le: True
    let ?q = "set_pflags (pflags p OR TH_RETRANS) p"
    let ?s = "s\<lparr>snd_buf := (snd_buf s)\<lparr>m_pkts := pre @ ?q # suf\<rparr>, m_retrans_data := m_retrans_data s + ucast (plen p)\<rparr>"
    have nr: "\<not> has_rexmt (pflags p)" using find_snd_pkt_spec [OF Some [unfolded f]] by auto
    have v: "tx_ok b G H sh A (?s\<lparr>m_snd_nxt := pseq p\<rparr>)" if "seq_lt (pseq p) (m_snd_max s)"
    proof -
      have "tx_ok b G H sh A ?s" using tx_ok_set_pflags [OF ok pk no_fin_retrans(1) that] nr by simp
      then have "tx_ok b G H sh A (?s\<lparr>m_snd_nxt := pseq ?q\<rparr>)" by (rule tx_ok_pseq) simp
      then show ?thesis by simp
    qed
    from run le Some f consider
        "seq_lt (pseq p) (m_snd_max s)" "pkt = Some ?q"
        "t = ?s\<lparr>m_retrans_data := m_retrans_data s + ucast (plen p), m_snd_nxt := pseq p\<rparr>"
      | "\<not> seq_lt (pseq p) (m_snd_max s)" "pkt = Some p" "t = s\<lparr>m_snd_nxt := pseq p\<rparr>"
      by (auto simp: get_snd_pkt_def Let_def split: if_splits)
    then show ?thesis
    proof cases
      case 1
      have "tx_ok b G H sh A t" by (rule tx_okI [OF v [OF 1(1)]]) (simp add: 1(3) sq_view_def tx_view_def flag_def datagrams_def)
      with 1 show ?thesis by auto
    next
      case 2
      have "tx_ok b G H sh A t" unfolding 2(3) by (rule tx_ok_pseq [OF ok]) (simp add: pk)
      with 2 pk show ?thesis by auto
    qed
  qed
qed

lemma leave_persist_nxt [simp]: "m_snd_nxt (leave_persist s) = m_snd_nxt s" "snd_buf (leave_persist s) = snd_buf s"
    "m_state (leave_persist s) = m_state s" "pending_data (leave_persist s) = pending_data s"
  by (simp_all add: leave_persist_def set_timer_def)

text \<open>The flags of a segment: ACK always; FIN only in the states after a shutdown, with nothing left behind it.\<close>

definition fin_due :: "udt_packet option \<Rightarrow> udt_socket \<Rightarrow> bool" where
  "fin_due pkt s \<longleftrightarrow> m_state s \<in> ending_states \<and>
     \<not> seq_lt (m_snd_nxt s + (case pkt of None \<Rightarrow> 0 | Some p \<Rightarrow> ucast (plen p))) (m_seq (snd_buf s) + pending_data s)"

lemma outflags_live: "st \<in> live_states \<Longrightarrow>
    s_tcp_outflags st = TH_ACK \<or> st \<in> ending_states \<and> s_tcp_outflags st = TH_FIN OR TH_ACK"
    "(TH_FIN OR TH_ACK) AND NOT TH_FIN = TH_ACK" "TH_ACK AND NOT TH_FIN = TH_ACK"
  by (auto simp: live_states_def open_states_def ending_states_def TH_ACK_def TH_FIN_def)

lemma out_select_tx:
  assumes ok: "tx_ok b G H sh live_states s" and run: "out_select s = (pkt, sendalot, fl, t)"
  shows "tx_ok b G H sh live_states t \<and> (fl = TH_ACK \<or> fl = TH_FIN OR TH_ACK \<and> fin_due pkt t) \<and>
    (\<forall>p. pkt = Some p \<longrightarrow> p \<in> set (m_pkts (snd_buf t)) \<and> m_snd_nxt t = pseq p)"
proof -
  define u where "u = (if pending_data s \<noteq> 0 \<and>
      (m_seq (snd_buf s) < word_of_int (sint (can_send_bytes s)) + m_snd_nxt s \<or> \<not> above_lowat (snd_buf s))
    then snd (consume_pending_data s) else s)"
  have u: "tx_ok b G H sh live_states u" using ok by (simp add: u_def consume_pending_data_tx)
  have su: "m_state u \<in> live_states" by (rule tx_ok_state [OF u])
  let ?good = "\<lambda>pkt t. tx_ok b G H sh live_states t \<and> m_state t = m_state u \<and>
      (\<forall>p. pkt = Some p \<longrightarrow> p \<in> set (m_pkts (snd_buf t)) \<and> m_snd_nxt t = pseq p)"
  define c where "c = (let can_send = sint (can_send_bytes s); maxseg = uint (m_maxseg u)
    in if m_force u \<and> can_send < maxseg then maxseg else can_send)"
  obtain q v where q: "(if c \<ge> uint (m_maxseg u) then get_snd_pkt (word_of_int c) u
      else if sint (m_snd_wnd u) < uint (m_maxseg u)
      then (None, set_timer TCPT_REXMT 0 (u\<lparr>m_snd_nxt := m_snd_una u\<rparr>)) else (None, u)) = (q, v)"
    by (metis prod.exhaust)
  have "tx_ok b G H sh live_states (set_timer TCPT_REXMT 0 (u\<lparr>m_snd_nxt := m_snd_una u\<rparr>))"
    by (rule tx_okI [OF tx_ok_una [OF u]]) simp
  then have g: "?good q v"
    using q get_snd_pkt_tx [OF u, of "word_of_int c" q v] u by (auto split: if_splits simp: set_timer_def)
  define len where "len = (case q of None \<Rightarrow> 0 | Some p \<Rightarrow> uint (plen p))"
  define w where "w = (if q \<noteq> None \<and> \<not> m_force v then leave_persist v else v)"
  have w: "?good q w" using g by (auto simp: w_def elim: tx_okI)
  have "(pkt, t) = (q, w) \<and> fl = (if seq_lt (m_snd_nxt w + word_of_int len) (m_seq (snd_buf w) + pending_data w)
      then s_tcp_outflags (m_state w) AND NOT TH_FIN else s_tcp_outflags (m_state w))"
    using run q unfolding out_select_def u_def [symmetric] Let_def c_def [unfolded Let_def, symmetric] w_def len_def
    by (auto split: if_splits)
  moreover have "word_of_int len = (case q of None \<Rightarrow> 0 | Some p \<Rightarrow> (ucast (plen p) :: u32))"
    by (auto simp: len_def split: option.splits)
  ultimately show ?thesis using w outflags_live(1) [of "m_state w"] su
    by (auto simp: fin_due_def outflags_live(2,3))
qed

text \<open>
  Where a FIN goes: behind the whole stream, together with its last bytes or alone; or it was sent
  before and \<open>m_snd_nxt\<close> is behind it.
\<close>

lemma tx_at_end: "tx_at b H sh A got F s \<Longrightarrow> sh \<Longrightarrow> send_ops s = [] \<Longrightarrow> tx_at b H sh A got True s"
  by (cases F) (auto simp: tx_at_def tx_stream_def tx_datagram_def carries_end seq_ok_end)

lemma off_word_less: "off b q + unat (w :: u32) < 2 ^ 32 \<Longrightarrow> off b (q + w) = off b q + unat w"
  using off_add [of b q "unat w"] by simp

lemma fin_place:
  assumes at: "tx_at b H sh A got F s" and sd: "tx_side H sh s" and due: "fin_due pkt s"
    and p: "\<And>p. pkt = Some p \<Longrightarrow> p \<in> set (m_pkts (snd_buf s)) \<and> m_snd_nxt s = pseq p"
  shows "short H \<and> sh \<and> send_ops s = [] \<and>
    (off b (m_snd_nxt s) + (case pkt of None \<Rightarrow> 0 | Some p \<Rightarrow> unat (plen p)) = length (concat got) \<or>
     (case pkt of None \<Rightarrow> 0 | Some p \<Rightarrow> unat (plen p)) = 0 \<and> off b (m_snd_nxt s) = Suc (length (concat got)) \<and>
     flag s TF_SENTFIN \<and> m_snd_nxt s = m_snd_max s)"
proof -
  let ?n = "length (concat got)" and ?P = "length (concat (map op_bytes (send_ops s)))" and ?z = "flag s TF_SENTFIN"
  let ?len = "case pkt of None \<Rightarrow> 0 | Some p \<Rightarrow> unat (plen p)"
  have sh: "sh" "short H" using due sd by (auto simp: fin_due_def tx_side_def)
  have sq: "seq_ok b ?n F (m_snd_una s, m_snd_nxt s, m_snd_max s, ?z)" using at sh(2) by (simp add: tx_at_def sq_view_def)
  have nP: "?n + ?P + 4 < 2 ^ 31" using tx_at_len [OF at] sh(2) by (simp add: short_def)
  have ps: "pseq q \<in> {q. off b q + unat (plen p) \<le> ?n}" if "pkt = Some p" "q = p" for p q
    using at p [OF that(1)] that(2) by (auto simp: tx_at_def tx_stream_def tx_view_def tx_pkt_def in_stream_def)
  have le: "off b (m_snd_nxt s) + ?len \<le> ?n + of_bool ?z"
    using sq ps p by (cases pkt) (fastforce simp: seq_ok_def)+
  have e: "(case pkt of None \<Rightarrow> 0 | Some p \<Rightarrow> (ucast (plen p) :: u32)) = word_of_nat ?len"
    by (auto simp: split: option.splits)
  have "off b (m_snd_nxt s + word_of_nat ?len) = off b (m_snd_nxt s) + ?len"
    using le nP by (intro off_add) (cases ?z; simp)
  moreover have "off b (m_seq (snd_buf s) + pending_data s) = ?n + ?P"
  proof -
    have "m_seq (snd_buf s) + pending_data s = b + word_of_nat (?n + ?P)"
      using at sd by (simp add: tx_at_def tx_stream_def tx_view_def tx_side_def tx_queue_def add.assoc)
    then show ?thesis using nP off_of_nat [of "?n + ?P" b] by simp
  qed
  ultimately have ge: "?n + ?P \<le> off b (m_snd_nxt s) + ?len"
    using due le nP seq_lt_off [of b "m_snd_nxt s + word_of_nat ?len" "m_seq (snd_buf s) + pending_data s"]
    unfolding fin_due_def e by (cases ?z) (simp_all add: in_window_def)
  have "?P = 0"
  proof (cases ?z)
    case True
    then have F using sq by (simp add: seq_ok_def)
    then show ?thesis using at by (simp add: tx_at_def)
  next
    case False
    then have "off b (m_snd_nxt s) + ?len \<le> ?n" using le by simp
    with ge show ?thesis by linarith
  qed
  then have ops: "send_ops s = []" using sd by (cases "send_ops s") (auto simp: tx_side_def tx_queue_def)
  consider (upto) "off b (m_snd_nxt s) + ?len = ?n" | (beyond) "off b (m_snd_nxt s) + ?len = Suc ?n" "?z"
  proof (cases ?z)
    case True
    with ge le have "?len + off b (m_snd_nxt s) = ?n \<or> ?len + off b (m_snd_nxt s) = Suc ?n" by (simp add: le_Suc_eq) linarith
    with True upto beyond show ?thesis by (simp add: add.commute) blast
  next
    case False
    then have "off b (m_snd_nxt s) + ?len \<le> ?n" using le by simp
    with ge upto show ?thesis by linarith
  qed
  then show ?thesis
  proof cases
    case upto
    with sh ops show ?thesis by blast
  next
    case beyond
    have pk: "?len = 0"
    proof (cases pkt)
      case (Some p')
      with ps [OF Some refl] p [OF Some] beyond(1) show ?thesis by simp
    qed simp
    then have "off b (m_snd_nxt s) = off b (m_snd_max s)" using beyond sq by (simp add: seq_ok_def)
    then have "m_snd_nxt s = m_snd_max s" by (simp add: off_inj)
    with sh ops pk beyond show ?thesis by simp
  qed
qed

section \<open>The datagrams\<close>

lemma parse_datagram_hdr: "parse_datagram (mem_of_hdr (hton ti) @ rest) = \<lparr>hdr = ti, body = rest\<rparr>"
  by (simp add: parse_datagram_def pkt_of_mem_def sizeof_udt_hdr_def)

lemma near_hdr: "near b S (parse_datagram (mem_of_hdr (hton ti) @ rest)) \<longleftrightarrow> off b (uh_seq ti) \<le> length S + 1 \<or> uh_seq ti = b - 1"
  by (simp add: near_def parse_datagram_hdr)

lemma no_data_datagram:
  "uh_len ti = 0 \<Longrightarrow> \<not> has_syn (uh_flags ti) \<Longrightarrow> \<not> has_fin (uh_flags ti) \<Longrightarrow>
    length rest \<le> 40 \<Longrightarrow> tx_datagram b S F (mem_of_hdr (hton ti) @ rest)"
  by (simp add: tx_datagram_def carries_def parse_datagram_hdr udt_const)

lemma length_compose_options: "length (snd (compose_options s r)) \<le> r"
proof -
  have c: "length (snd (compose_cwnd_option s r)) + fst (compose_cwnd_option s r) = r" for r
    by (auto simp: compose_cwnd_option_def cwnd_mem_def udt_const)
  have k: "length (snd (compose_sack_option s q)) \<le> q" for q
  proof (cases "m_reasm_pkts (rcv_buf s) = []")
    case True
    then show ?thesis by (simp add: compose_sack_option_def)
  next
    case False
    obtain r' w where sc: "sack_compose (rev (m_reasm_pkts (rcv_buf s))) q = (r', w)"
      by (cases "sack_compose (rev (m_reasm_pkts (rcv_buf s))) q")
    show ?thesis
    proof (cases w)
      case None
      with False sc show ?thesis by (simp add: compose_sack_option_def)
    next
      case (Some o')
      from sack_compose_spec(4) [OF sc [unfolded Some]] False sc Some show ?thesis
        by (simp add: compose_sack_option_def length_sack_mem)
    qed
  qed
  obtain q d where cw: "compose_cwnd_option s r = (q, d)" by (cases "compose_cwnd_option s r")
  obtain q' e where sa: "compose_sack_option s q = (q', e)" by (cases "compose_sack_option s q")
  have "length d + q = r" using c [of r] cw by simp
  moreover have "length e \<le> q" using k [of q] sa by simp
  ultimately show ?thesis by (simp add: compose_options_def cw sa)
qed

text \<open>A datagram that carries data or a FIN.\<close>

lemma seg_datagram:
  assumes ti: "unat (uh_len ti) = length data" "length data \<le> 918" "\<not> has_syn (uh_flags ti)"
      "uh_off ti = word_of_nat (sizeof_udt_hdr + length opts)" and o': "length opts \<le> 40"
    and at: "off b (uh_seq ti) + length data \<le> length S" "data = take (length data) (drop (off b (uh_seq ti)) S)"
    and fin: "has_fin (uh_flags ti) \<Longrightarrow> F \<and> off b (uh_seq ti) + length data = length S"
  shows "tx_datagram b S F (mem_of_hdr (hton ti) @ opts @ data)"
proof -
  let ?q = "\<lparr>hdr = ti, body = opts @ data\<rparr>"
  have off: "unat (uh_off ti) = 20 + length opts"
    using o' unfolding ti(4) by (subst unat_word_of_nat_small) (simp_all add: sizeof_udt_hdr_def)
  have q: "pkt_ok ?q" using off o' ti(1,2) by (simp add: pkt_ok_def pkt_mem_def sizeof_udt_hdr_def)
  have "pdata ?q = data" using off ti(1) by (simp add: pdata_def data_at_body sizeof_udt_hdr_def)
  then have "in_stream b S F ?q" using q at fin by (simp add: in_stream_def ti(1))
  then show ?thesis using ti o' by (simp add: tx_datagram_def carries_def parse_datagram_hdr udt_const)
qed

lemma tx_at_send:
  assumes at: "tx_at b H sh A got F s" and d: "tx_datagram b (concat got) F d"
    and nr: "short H \<Longrightarrow> near b (concat got) (parse_datagram d)"
  shows "tx_at b H sh A got F (emit (Send_to ep d) s)"
proof -
  let ?u = "emit (Send_to ep d) s"
  have v: "m_state ?u = m_state s" "send_ops ?u = send_ops s" by (simp_all add: emit_def)
  show ?thesis
    using at d nr by (auto simp: tx_at_def v tx_stream_def tx_view_def) (simp_all add: emit_def)
qed

lemma tx_ok_send:
  assumes ok: "tx_ok b G H sh A s"
    and d: "\<And>got F. tx_at b H sh A got F s \<Longrightarrow> since G (got, F, flag s TF_SENTFIN) \<Longrightarrow>
      tx_datagram b (concat got) F d \<and> (short H \<longrightarrow> near b (concat got) (parse_datagram d))"
  shows "tx_ok b G H sh A (emit (Send_to ep d) s)"
proof -
  from ok obtain got F where a: "tx_side H sh s" "since G (got, F, flag s TF_SENTFIN)" "tx_at b H sh A got F s"
    by (rule tx_okE)
  have "tx_at b H sh A got F (emit (Send_to ep d) s)" using d [OF a(3,2)] by (auto intro: tx_at_send [OF a(3)])
  moreover have "tx_side H sh (emit (Send_to ep d) s)" using a(1) by (simp add: tx_side_def emit_def)
  ultimately show ?thesis using a(2) unfolding tx_ok_iff by auto
qed

text \<open>Segments without data or FIN: any sequence number the sender knows, or the one before the oldest.\<close>

lemma seq_ok_near:
  "seq_ok b n F (una, nxt, mx, z) \<Longrightarrow> length S = n \<Longrightarrow> n + 4 < 2 ^ 31 \<Longrightarrow> q \<in> {nxt, mx, una - 1} \<Longrightarrow>
    off b q \<le> length S + 1 \<or> q = b - 1"
proof -
  assume sq: "seq_ok b n F (una, nxt, mx, z)" and n: "length S = n" "n + 4 < 2 ^ 31" and q: "q \<in> {nxt, mx, una - 1}"
  have m: "off b una \<le> Suc n" "off b mx \<le> Suc n" "off b nxt \<le> Suc n" using sq by (cases z; auto simp: seq_ok_def)+
  have "off b (una - 1) \<le> Suc n \<or> una - 1 = b - 1"
  proof (cases "una = b")
    case False
    then have "una - b \<noteq> 0" by simp
    then have "unat (una - b - 1) = unat (una - b) - 1" by (rule unat_minus_one)
    then have "off b (una - 1) \<le> off b una" by (simp add: off_def algebra_simps)
    with m show ?thesis by simp
  qed simp
  with q m n show ?thesis by auto
qed

lemma respond_tx:
  assumes ok: "tx_ok b G H sh A s" and fl: "\<not> has_syn fl" "\<not> has_fin fl" and q: "q \<in> {m_snd_nxt s, m_snd_max s, m_snd_una s - 1}"
  shows "tx_ok b G H sh A (respond a q fl s)"
  unfolding respond_def udp_output_def
proof (rule tx_ok_send [OF ok])
  fix got F
  assume at: "tx_at b H sh A got F s"
  let ?ti = "\<lparr>uh_ver = 0, uh_flags = fl, uh_win = ucast (acc (rcv_buf s)), uh_len = 0, uh_off = word_of_nat sizeof_udt_hdr,
    uh_seq = q, uh_ack = a, uh_pseq = m_pseq s\<rparr>"
  have "near b (concat got) (parse_datagram (mem_of_hdr (hton ?ti) @ []))" if "short H"
  proof -
    have "length (concat got) + 4 < 2 ^ 31" using tx_at_len [OF at] that by (simp add: short_def)
    moreover have "seq_ok b (length (concat got)) F (m_snd_una s, m_snd_nxt s, m_snd_max s, flag s TF_SENTFIN)"
      using at that by (simp add: tx_at_def sq_view_def)
    ultimately have "off b q \<le> length (concat got) + 1 \<or> q = b - 1" using seq_ok_near [OF _ refl _ q] by blast
    then show ?thesis by (simp add: near_hdr del: append_Nil2)
  qed
  then show "tx_datagram b (concat got) F (mem_of_hdr (hton ?ti) @ []) \<and>
      (short H \<longrightarrow> near b (concat got) (parse_datagram (mem_of_hdr (hton ?ti) @ [])))"
    using fl by (simp add: no_data_datagram del: append_Nil2)
qed

lemma reset_peer_tx: "tx_ok b G H sh A s \<Longrightarrow> tx_ok b G H sh A (reset_peer s)"
  unfolding reset_peer_def
  by (rule respond_tx) (simp_all add: has_syn_def has_fin_def has_flag_def udt_const)

text \<open>
  How \<open>output\<close> accounts for a segment: \<open>m_snd_nxt\<close> moves behind it and \<open>m_snd_max\<close> follows; a forced
  probe moves \<open>m_snd_max\<close> only.
\<close>

lemma tx_view_account [simp]: "tx_view (out_account fl len s) = tx_view s"
  by (simp add: out_account_def Let_def)

lemma sentfin_fields [simp]: "m_snd_una (set_flags f s) = m_snd_una s" "m_snd_nxt (set_flags f s) = m_snd_nxt s"
    "m_snd_max (set_flags f s) = m_snd_max s" "pending_data (set_flags f s) = pending_data s"
    "m_retrans_data (set_flags f s) = m_retrans_data s"
    "flag (set_flags TF_SENTFIN s) TF_SENTFIN"
  by (simp_all add: set_flags_def flag_def flag_simps) (simp add: has_flag_def udt_const)

definition raised :: "udt_seq \<Rightarrow> udt_seq \<Rightarrow> udt_seq" where
  "raised q mx = (if seq_gt q mx then q else mx)"

lemma sq_account:
  "\<not> has_flag fl TH_SYN \<Longrightarrow> sq_view (out_account fl len s) =
    (if \<not> m_force s \<or> m_timers s TCPT_PERSIST = 0
     then let q = m_snd_nxt s + (if has_flag fl TH_FIN then 1 else 0) + len
          in ((m_snd_una s, q, raised q (m_snd_max s), flag s TF_SENTFIN \<or> has_flag fl TH_FIN), pending_data s, m_retrans_data s)
     else ((m_snd_una s, m_snd_nxt s, raised (m_snd_nxt s + len) (m_snd_max s), flag s TF_SENTFIN), pending_data s, m_retrans_data s))"
  by (simp add: out_account_def Let_def raised_def) (simp add: sq_view_def)

lemma off_raised:
  "off b q < 2 ^ 31 \<Longrightarrow> off b mx < 2 ^ 31 \<Longrightarrow> off b (raised q mx) = max (off b q) (off b mx)"
  by (simp add: raised_def seq_gt_off in_window_def)

lemma seq_ok_segment:
  assumes sq: "seq_ok b n F (una, nxt, mx, z)" and n: "n + 4 < 2 ^ 31"
    and le: "off b nxt + unat (len :: u32) \<le> n \<or> len = 0"
  shows "seq_ok b n F (una, nxt + len, raised (nxt + len) mx, z)" "seq_ok b n F (una, nxt, raised (nxt + len) mx, z)"
    "off b mx \<le> off b (raised (nxt + len) mx)"
proof -
  have m: "off b mx \<le> Suc n" "off b nxt \<le> Suc n" using sq by (cases z; simp add: seq_ok_def)+
  have e: "off b (nxt + len) = off b nxt + unat len"
    using le n by (elim disjE) (simp_all add: off_word_less)
  have r: "off b (raised (nxt + len) mx) = max (off b nxt + unat len) (off b mx)"
    using le m n by (subst off_raised) (auto simp: e)
  show "off b mx \<le> off b (raised (nxt + len) mx)" by (simp add: r)
  show "seq_ok b n F (una, nxt + len, raised (nxt + len) mx, z)" "seq_ok b n F (una, nxt, raised (nxt + len) mx, z)"
    using sq le by (auto simp: seq_ok_def e r max_def)
qed

lemma seq_ok_fin:
  assumes sq: "seq_ok b n True (una, nxt, mx, z)" and n: "n + 4 < 2 ^ 31"
    and at: "off b nxt + unat (len :: u32) = n"
  shows "seq_ok b n True (una, nxt + 1 + len, raised (nxt + 1 + len) mx, True)"
    "off b mx \<le> off b (raised (nxt + 1 + len) mx)"
proof -
  have m: "off b una \<le> off b mx" "off b mx \<le> Suc n" using sq by (cases z; simp add: seq_ok_def)+
  have "off b (nxt + len) = n" using at n by (simp add: off_word_less)
  then have "off b (nxt + len + 1) = Suc n" using n off_word_less [of b "nxt + len" 1] by simp
  then have e: "off b (nxt + 1 + len) = Suc n" by (simp add: add.commute add.left_commute)
  have r: "off b (raised (nxt + 1 + len) mx) = Suc n" using m n e by (subst off_raised) auto
  show "seq_ok b n True (una, nxt + 1 + len, raised (nxt + 1 + len) mx, True)" "off b mx \<le> off b (raised (nxt + 1 + len) mx)"
    using m by (simp_all add: seq_ok_def e r)
qed

lemma tx_at_seqs:
  "tx_at b H sh A got F s \<Longrightarrow> tx_view t = tx_view s \<Longrightarrow> m_retrans_data t = m_retrans_data s \<Longrightarrow>
    (short H \<Longrightarrow> off b (m_snd_max s) \<le> off b (m_snd_max t) \<and> seq_ok b (length (concat got)) F (fst (sq_view t))) \<Longrightarrow>
    tx_at b H sh A got F t"
  by (auto simp: tx_at_def tx_view_def pkts_ok_def)

text \<open>The FIN numbered before the end of a FIN already sent.\<close>

lemma seq_ok_back:
  assumes sq: "seq_ok b n F (una, nxt, mx, z)" and at: "off b nxt = Suc n" and n: "n + 4 < 2 ^ 31"
  shows "off b (nxt - 1) = n \<and> seq_ok b n F (una, nxt - 1, mx, z)"
proof -
  have "nxt - b \<noteq> 0" using at by (auto simp: off_def)
  then have "unat (nxt - b - 1) = unat (nxt - b) - 1" by (rule unat_minus_one)
  then have "off b (nxt - 1) = n" using at by (simp add: off_def algebra_simps)
  then show ?thesis using sq by (auto simp: seq_ok_def)
qed


lemma fin_flags [simp]: "\<not> has_flag TH_ACK TH_SYN" "\<not> has_flag TH_ACK TH_FIN" "has_flag TH_ACK TH_ACK"
    "\<not> has_flag (TH_FIN OR TH_ACK) TH_SYN" "has_flag (TH_FIN OR TH_ACK) TH_FIN" "has_flag (TH_FIN OR TH_ACK) TH_ACK"
    "\<not> has_flag TH_ACK (TH_SYN OR TH_FIN)" "has_flag (TH_FIN OR TH_ACK) (TH_SYN OR TH_FIN)"
  by (simp_all add: has_flag_def udt_const)

definition seg_len :: "udt_packet option \<Rightarrow> u16" where
  "seg_len pkt = (case pkt of None \<Rightarrow> 0 | Some p \<Rightarrow> plen p)"

definition seg_data :: "udt_packet option \<Rightarrow> u8 list" where
  "seg_data pkt = (case pkt of None \<Rightarrow> [] | Some p \<Rightarrow> pdata p)"

text \<open>
  The state the header is made from: a FIN already sent takes its old number again. Its place is at
  the end of the stream; without a FIN the data is where the buffer has it.
\<close>

definition fin_again :: "u8 \<Rightarrow> udt_socket \<Rightarrow> udt_socket" where
  "fin_again fl s = (if has_flag fl TH_FIN \<and> TCPS_HAVESNDFIN s \<and> m_snd_nxt s = m_snd_max s
     then s\<lparr>m_snd_nxt := m_snd_nxt s - 1\<rparr> else s)"

lemma fin_again_views [simp]: "tx_view (fin_again fl s) = tx_view s" "pending_data (fin_again fl s) = pending_data s"
    "flag (fin_again fl s) f = flag s f" "m_snd_max (fin_again fl s) = m_snd_max s"
  by (simp_all add: fin_again_def)

lemma fin_again_ack [simp]: "fin_again TH_ACK s = s"
  by (simp add: fin_again_def)

lemma seg_place:
  assumes at: "tx_at b H sh A got F s" and p: "\<And>p. pkt = Some p \<Longrightarrow> p \<in> set (m_pkts (snd_buf s)) \<and> m_snd_nxt s = pseq p"
  shows "length (seg_data pkt) = unat (seg_len pkt)" "unat (seg_len pkt) \<le> 918"
    and "seg_len pkt \<noteq> 0 \<Longrightarrow> off b (m_snd_nxt s) + unat (seg_len pkt) \<le> length (concat got) \<and>
      seg_data pkt = take (unat (seg_len pkt)) (drop (off b (m_snd_nxt s)) (concat got))"
proof -
  have k: "tx_pkt b (concat got) q \<and> m_snd_nxt s = pseq q" if "pkt = Some q" for q
    using p [OF that] at by (auto simp: tx_at_def tx_stream_def tx_view_def)
  show "length (seg_data pkt) = unat (seg_len pkt)" "unat (seg_len pkt) \<le> 918"
    "seg_len pkt \<noteq> 0 \<Longrightarrow> off b (m_snd_nxt s) + unat (seg_len pkt) \<le> length (concat got) \<and>
      seg_data pkt = take (unat (seg_len pkt)) (drop (off b (m_snd_nxt s)) (concat got))"
    using k by (auto simp: seg_data_def seg_len_def tx_pkt_def in_stream_def length_pdata split: option.splits)
qed

lemma fin_again_place:
  assumes at: "tx_at b H sh A got F s" and sd: "tx_side H sh s"
    and due: "fl = TH_ACK \<or> fl = TH_FIN OR TH_ACK \<and> fin_due pkt s"
    and p: "\<And>p. pkt = Some p \<Longrightarrow> p \<in> set (m_pkts (snd_buf s)) \<and> m_snd_nxt s = pseq p"
  shows "tx_at b H sh A got (F \<or> has_flag fl TH_FIN) (fin_again fl s)"
    and "has_flag fl TH_FIN \<Longrightarrow> short H \<and> off b (m_snd_nxt (fin_again fl s)) + unat (seg_len pkt) = length (concat got)"
    and "seg_len pkt \<noteq> 0 \<Longrightarrow> m_snd_nxt (fin_again fl s) = m_snd_nxt s"
proof -
  let ?n = "length (concat got)"
  have n: "?n + 4 < 2 ^ 31" if "short H" using tx_at_len [OF at] that by (simp add: short_def)
  have e: "(case pkt of None \<Rightarrow> 0 | Some p \<Rightarrow> unat (plen p)) = unat (seg_len pkt)"
    by (simp add: seg_len_def split: option.splits)
  have "tx_at b H sh A got (F \<or> has_flag fl TH_FIN) (fin_again fl s) \<and>
      (has_flag fl TH_FIN \<longrightarrow> short H \<and> off b (m_snd_nxt (fin_again fl s)) + unat (seg_len pkt) = ?n) \<and>
      (seg_len pkt \<noteq> 0 \<longrightarrow> m_snd_nxt (fin_again fl s) = m_snd_nxt s)"
  proof (cases "has_flag fl TH_FIN")
    case False
    with due have "fl = TH_ACK" by auto
    with at show ?thesis by simp
  next
    case True
    with due have due: "fin_due pkt s" by auto
    from fin_place [OF at sd this p, unfolded e] have sh: "short H" "sh" "send_ops s = []"
      and w: "off b (m_snd_nxt s) + unat (seg_len pkt) = ?n \<or>
        unat (seg_len pkt) = 0 \<and> off b (m_snd_nxt s) = Suc ?n \<and> flag s TF_SENTFIN \<and> m_snd_nxt s = m_snd_max s"
      by (blast, blast, blast, blast)
    from tx_at_end [OF at sh(2,3)] have a: "tx_at b H sh A got True s" .
    then have sq: "seq_ok b ?n True (m_snd_una s, m_snd_nxt s, m_snd_max s, flag s TF_SENTFIN)"
      using sh by (simp add: tx_at_def sq_view_def)
    show ?thesis
    proof (cases "flag s TF_SENTFIN \<and> m_snd_nxt s = m_snd_max s")
      case again: True
      then have o': "off b (m_snd_nxt s) = Suc ?n" using sq by (simp add: seq_ok_def)
      from seq_ok_back [OF sq this n [OF sh(1)]]
      have b: "off b (m_snd_nxt s - 1) = ?n" "seq_ok b ?n True (m_snd_una s, m_snd_nxt s - 1, m_snd_max s, flag s TF_SENTFIN)"
        by auto
      have "tx_at b H sh A got True (fin_again fl s)"
        by (rule tx_at_seqs [OF a]) (use b again True in \<open>simp_all add: fin_again_def TCPS_HAVESNDFIN_def\<close>)
      moreover have "unat (seg_len pkt) = 0" using w o' by auto
      ultimately show ?thesis using again True b sh by (simp add: fin_again_def TCPS_HAVESNDFIN_def unat_eq_zero)
    next
      case False
      then have "fin_again fl s = s" by (auto simp: fin_again_def TCPS_HAVESNDFIN_def)
      with a True w False sh show ?thesis by auto
    qed
  qed
  then show "tx_at b H sh A got (F \<or> has_flag fl TH_FIN) (fin_again fl s)"
    "has_flag fl TH_FIN \<Longrightarrow> short H \<and> off b (m_snd_nxt (fin_again fl s)) + unat (seg_len pkt) = ?n"
    "seg_len pkt \<noteq> 0 \<Longrightarrow> m_snd_nxt (fin_again fl s) = m_snd_nxt s" by blast+
qed

text \<open>\<open>out_send\<close>, by its steps: the number of the FIN, the accounts, the datagram.\<close>

definition seg_datagram_of :: "int \<Rightarrow> u8 \<Rightarrow> udt_packet option \<Rightarrow> udt_socket \<Rightarrow> u8 list" where
  "seg_datagram_of rw fl pkt s =
     (let opts = snd (compose_options s (MAX_HEADER_SIZE - sizeof_udt_hdr));
          sq = (if seg_len pkt \<noteq> 0 \<or> has_flag fl (TH_SYN OR TH_FIN) \<or> m_timers s TCPT_PERSIST \<noteq> 0
                then m_snd_nxt s else m_snd_max s)
      in (mem_of_hdr (hton \<lparr>uh_ver = 0, uh_flags = fl, uh_win = word_of_int (adv_window rw s), uh_len = seg_len pkt,
           uh_off = word_of_nat (sizeof_udt_hdr + length opts), uh_seq = sq, uh_ack = m_rcv_nxt s, uh_pseq = m_pseq s\<rparr>)
         @ opts) @ seg_data pkt)"

lemma out_send_steps:
  assumes "fl = TH_ACK \<or> fl = TH_FIN OR TH_ACK"
  shows "\<exists>ep. both (out_send rw fl pkt s) = both (emit (Send_to ep (seg_datagram_of rw fl pkt (fin_again fl s)))
    (out_account fl (ucast (seg_len pkt)) (fin_again fl s)))"
proof -
  have fs: "\<not> has_flag fl TH_SYN" "has_flag fl TH_ACK" using assms by auto
  have w: "\<not> has_flag (TF_ACKNOW OR TF_DELACK OR TF_NEED_OUTPUT) TF_SENTFIN" by simp
  have v: "both (clear_flags (TF_ACKNOW OR TF_DELACK OR TF_NEED_OUTPUT) (if c then x\<lparr>m_rcv_adv := q\<rparr> else x)) = both x"
    for c q x using w by simp
  show ?thesis
    by (simp only: out_send_def Let_def fs if_False if_True fin_again_def [symmetric] seg_len_def [symmetric]
        seg_data_def [symmetric] v seg_datagram_of_def udp_output_def) blast
qed

lemma seg_datagram_tx:
  assumes fl: "fl = TH_ACK \<or> fl = TH_FIN OR TH_ACK"
    and len: "length (seg_data pkt) = unat (seg_len pkt)" "unat (seg_len pkt) \<le> 918"
    and place: "seg_len pkt \<noteq> 0 \<Longrightarrow> off b (m_snd_nxt s) + unat (seg_len pkt) \<le> length S \<and>
      seg_data pkt = take (unat (seg_len pkt)) (drop (off b (m_snd_nxt s)) S)"
    and fin: "has_flag fl TH_FIN \<Longrightarrow> F \<and> off b (m_snd_nxt s) + unat (seg_len pkt) = length S"
  shows "tx_datagram b S F (seg_datagram_of rw fl pkt s)"
proof -
  let ?opts = "snd (compose_options s (MAX_HEADER_SIZE - sizeof_udt_hdr))"
  have o': "length ?opts \<le> 40" using length_compose_options [of s "MAX_HEADER_SIZE - sizeof_udt_hdr"] by (simp add: udt_const)
  show ?thesis
  proof (cases "seg_len pkt \<noteq> 0 \<or> has_flag fl TH_FIN")
    case True
    have d: "seg_data pkt = take (unat (seg_len pkt)) (drop (off b (m_snd_nxt s)) S)"
      using len place by (cases "seg_len pkt = 0") simp_all
    have "tx_datagram b S F (mem_of_hdr (hton \<lparr>uh_ver = 0, uh_flags = fl, uh_win = word_of_int (adv_window rw s),
        uh_len = seg_len pkt, uh_off = word_of_nat (sizeof_udt_hdr + length ?opts), uh_seq = m_snd_nxt s,
        uh_ack = m_rcv_nxt s, uh_pseq = m_pseq s\<rparr>) @ ?opts @ seg_data pkt)"
      by (rule seg_datagram) (use len place fin True o' fl d in \<open>auto simp: has_syn_def has_fin_def\<close>)
    then show ?thesis using True fl by (auto simp: seg_datagram_of_def Let_def)
  next
    case False
    with len have "seg_data pkt = []" by simp
    with False fl o' show ?thesis
      by (auto simp: seg_datagram_of_def Let_def no_data_datagram has_syn_def has_fin_def)
  qed
qed

lemma seg_datagram_near:
  assumes "seq_ok b (length S) F (una, m_snd_nxt s, m_snd_max s, z)"
  shows "near b S (parse_datagram (seg_datagram_of rw fl pkt s))"
  using assms unfolding seg_datagram_of_def Let_def append_assoc near_hdr
  by (cases z) (auto simp: seq_ok_def)

lemma out_send_tx:
  assumes ok: "tx_ok b G H sh live_states s" and fl: "fl = TH_ACK \<or> fl = TH_FIN OR TH_ACK \<and> fin_due pkt s"
    and p: "\<And>p. pkt = Some p \<Longrightarrow> p \<in> set (m_pkts (snd_buf s)) \<and> m_snd_nxt s = pseq p"
  shows "tx_ok b G H sh live_states (out_send rw fl pkt s)"
proof -
  let ?t = "fin_again fl s" and ?len = "ucast (seg_len pkt) :: u32"
  let ?u = "out_account fl ?len ?t" and ?d = "seg_datagram_of rw fl pkt (fin_again fl s)"
  from ok obtain got F where sd: "tx_side H sh s" and pst: "since G (got, F, flag s TF_SENTFIN)"
    and at: "tx_at b H sh live_states got F s" by (rule tx_okE)
  let ?n = "length (concat got)" and ?F = "F \<or> has_flag fl TH_FIN"
  have n: "?n + 4 < 2 ^ 31" if "short H" using tx_at_len [OF at] that by (simp add: short_def)
  from fin_again_place [OF at sd fl p] have t: "tx_at b H sh live_states got ?F ?t"
    and e: "has_flag fl TH_FIN \<Longrightarrow> short H \<and> off b (m_snd_nxt ?t) + unat (seg_len pkt) = ?n"
    and k: "seg_len pkt \<noteq> 0 \<Longrightarrow> m_snd_nxt ?t = m_snd_nxt s" by auto
  have fl': "fl = TH_ACK \<or> fl = TH_FIN OR TH_ACK" using fl by auto
  have fs: "\<not> has_flag fl TH_SYN" using fl' by auto
  have pl: "off b (m_snd_nxt ?t) + unat (seg_len pkt) \<le> ?n \<and>
      seg_data pkt = take (unat (seg_len pkt)) (drop (off b (m_snd_nxt ?t)) (concat got))" if "seg_len pkt \<noteq> 0"
    using seg_place(3) [OF at p that] k [OF that] by simp
  have sq: "seq_ok b ?n ?F (m_snd_una ?t, m_snd_nxt ?t, m_snd_max ?t, flag ?t TF_SENTFIN)" if "short H"
    using t that by (simp add: tx_at_def sq_view_def)
  have z: "flag ?u TF_SENTFIN \<longleftrightarrow> flag s TF_SENTFIN \<or>
      has_flag fl TH_FIN \<and> (\<not> m_force ?t \<or> m_timers ?t TCPT_PERSIST = 0)" and pd: "pending_data ?u = pending_data s"
    and rd: "m_retrans_data ?u = m_retrans_data ?t"
    and mx: "m_snd_max ?u = raised (m_snd_nxt ?t + (if has_flag fl TH_FIN \<and> (\<not> m_force ?t \<or> m_timers ?t TCPT_PERSIST = 0) then 1 else 0)
      + ?len) (m_snd_max ?t)"
    using sq_account [OF fs, of ?len ?t] by (auto simp: sq_view_def Let_def split: if_splits)
  have "tx_at b H sh live_states got ?F ?u"
  proof (rule tx_at_seqs [OF t _ rd])
    assume s: "short H"
    have le: "off b (m_snd_nxt ?t) + unat ?len \<le> ?n \<or> ?len = 0"
      using pl by (cases "seg_len pkt = 0") simp_all
    show "off b (m_snd_max ?t) \<le> off b (m_snd_max ?u) \<and> seq_ok b ?n ?F (fst (sq_view ?u))"
    proof (cases "has_flag fl TH_FIN \<and> (\<not> m_force ?t \<or> m_timers ?t TCPT_PERSIST = 0)")
      case True
      have "off b (m_snd_nxt ?t) + unat ?len = ?n" using e True by simp
      with seq_ok_fin [OF _ n [OF s] this] sq [OF s] True mx show ?thesis
        by (simp add: sq_account [OF fs] Let_def)
    next
      case False
      with seq_ok_segment [OF sq [OF s] n [OF s] le] mx show ?thesis
        by (auto simp: sq_account [OF fs] Let_def)
    qed
  qed simp
  moreover have "tx_datagram b (concat got) ?F ?d"
    by (rule seg_datagram_tx [OF fl' seg_place(1,2) [OF at p] pl]) (use e in auto)
  moreover have "short H \<Longrightarrow> near b (concat got) (parse_datagram ?d)"
    by (rule seg_datagram_near [OF sq])
  ultimately have "tx_at b H sh live_states got ?F (emit (Send_to ep ?d) ?u)" for ep by (rule tx_at_send)
  moreover have "tx_side H sh (emit (Send_to ep ?d) ?u)" for ep
    using sd tx_view_account [of fl ?len ?t] pd by (simp add: tx_side_def emit_def tx_view_def fin_again_def)
  moreover have "since G (got, ?F, flag (emit (Send_to ep ?d) ?u) TF_SENTFIN)" for ep
    using pst z by (cases G) (auto simp: since_def)
  ultimately have "tx_ok b G H sh live_states (emit (Send_to ep ?d) ?u)" for ep unfolding tx_ok_iff by blast
  with out_send_steps [OF fl', of rw pkt s] show ?thesis by (metis tx_okI)
qed

lemma out_pass_tx: "tx_ok b G H sh live_states s \<Longrightarrow> out_pass iv s = (n, sendalot, t) \<Longrightarrow> tx_ok b G H sh live_states t"
proof -
  assume ok: "tx_ok b G H sh live_states s" and pass: "out_pass iv s = (n, sendalot, t)"
  obtain pkt sa fl u where sel: "out_select s = (pkt, sa, fl, u)" by (cases "out_select s")
  from out_select_tx [OF ok sel] have u: "tx_ok b G H sh live_states u"
    and fl: "fl = TH_ACK \<or> fl = TH_FIN OR TH_ACK \<and> fin_due pkt u"
    and p: "\<And>p. pkt = Some p \<Longrightarrow> p \<in> set (m_pkts (snd_buf u)) \<and> m_snd_nxt u = pseq p" by auto
  have e: "tx_ok b G H sh live_states (if can_persist u then enter_persist (u\<lparr>m_rxtshift := 0\<rparr>) else u)"
    by (rule tx_okI [OF u]) simp
  have "tx_ok b G H sh live_states (out_send rw fl pkt u)" for rw by (rule out_send_tx [OF u fl p])
  with pass e sel show ?thesis by (auto simp: out_pass_def Let_def split: if_splits)
qed

lemma out_loop_tx: "tx_ok b G H sh live_states s \<Longrightarrow> tx_ok b G H sh live_states (snd (out_loop iv k n s))"
proof (induction iv k n s rule: out_loop.induct)
  case (1 iv n s)
  then show ?case by simp
next
  case (2 iv k n s)
  obtain m sa t where p: "out_pass iv s = (m, sa, t)" by (cases "out_pass iv s")
  with 2 out_pass_tx [OF 2(2) p] show ?case by simp
qed

lemma tx_states_live: "st \<in> tx_states \<Longrightarrow> st \<noteq> TCPS_CLOSED \<Longrightarrow> st \<in> live_states"
  by (auto simp: tx_states_def)

lemma cb_output_tx: "tx_ok b G H sh tx_states s \<Longrightarrow> tx_ok b G H sh tx_states (snd (cb_output iv s))"
proof (cases "m_state s = TCPS_CLOSED")
  case True
  then show "tx_ok b G H sh tx_states s \<Longrightarrow> ?thesis" by (simp add: cb_output_def)
next
  case False
  assume ok: "tx_ok b G H sh tx_states s"
  then have "tx_ok b G H sh live_states s" by (rule tx_ok_restrict) (use False tx_states_live tx_ok_state [OF ok] in blast)
  then have "tx_ok b G H sh live_states (snd (out_loop iv 10 0 (if m_snd_max s = m_snd_una s \<and> m_rxtcur s \<le> m_idle s
      then slow_start s else s)))"
    by (intro out_loop_tx) (erule tx_okI, simp)
  then show ?thesis using False
    by (intro tx_ok_mono [of b G H sh live_states _ tx_states]) (simp_all add: cb_output_def Let_def tx_states_def subset_insertI)
qed

end
