(* ===== verification/Udt_Sender.thy ===== *)
theory Udt_Sender
  imports Udt_Stream
begin

text \<open>
  Reliable delivery, sender's side: every event of the socket keeps the invariant of
  \<open>Udt_Stream\<close>, the user's shutdown included. So every datagram the socket emits belongs to the
  stream of the bytes accepted from the user, and a FIN stands behind all of them.
\<close>

section \<open>The callbacks\<close>

lemma tx_view_dispatch [simp]: "tx_view (snd (dispatch_recv_operation ops s)) = tx_view s"
    "sq_view (snd (dispatch_recv_operation ops s)) = sq_view s"
  by (simp_all add: dispatch_recv_operation_def Let_def split: prod.splits)

lemma tx_view_recv_loop: "recv_loop ops x s = (ops', x', t) \<Longrightarrow> both t = both s"
proof (induction ops x s arbitrary: ops' x' t rule: recv_loop.induct)
  case (1 out s)
  then show ?case by simp
next
  case (2 ops rest out s)
  obtain d u where d: "dispatch_recv_operation ops s = (d, u)" by (cases "dispatch_recv_operation ops s")
  have "both u = both s" using tx_view_dispatch [of ops s] d by simp
  with 2 d show ?case by (auto simp: delay_recv_operation_def split: if_splits bool.splits)
qed

lemma recv_data_tx: "tx_ok b G H sh tx_states s \<Longrightarrow> tx_ok b G H sh tx_states (recv_data iv s)"
proof -
  assume ok: "tx_ok b G H sh tx_states s"
  obtain ops x t where r: "recv_loop (recv_ops s) False s = (ops, x, t)" by (cases "recv_loop (recv_ops s) False s")
  have "tx_ok b G H sh tx_states (t\<lparr>recv_ops := ops\<rparr>)"
    by (rule tx_okI [OF ok]) (use tx_view_recv_loop [OF r] in simp)
  then show ?thesis using ok by (simp add: recv_data_def r Let_def cb_output_tx)
qed

lemma tx_view_delayed_loop: "delayed_loop ops s = (ops', t) \<Longrightarrow> both t = both s"
proof (induction ops s arbitrary: ops' t rule: delayed_loop.induct)
  case (1 s)
  then show ?case by simp
next
  case (2 ops rest s)
  obtain d u where d: "dispatch_recv_operation ops s = (d, u)" by (cases "dispatch_recv_operation ops s")
  have "both u = both s" using tx_view_dispatch [of ops s] d by simp
  with 2 d show ?case by (auto split: bool.splits)
qed

lemma tx_view_delay [simp]: "tx_view (handle_delay_recv_operation e s) = tx_view s"
    "sq_view (handle_delay_recv_operation e s) = sq_view s"
  using tx_view_delayed_loop [of "recv_ops s" s]
  by (auto simp: handle_delay_recv_operation_def split: prod.splits)

lemma on_readable_tx: "tx_ok b G H sh tx_states s \<Longrightarrow> tx_ok b G H sh tx_states (on_readable iv s)"
  by (simp add: on_readable_def recv_data_tx)

lemma on_writable_tx: "tx_ok b G H sh tx_states s \<Longrightarrow> tx_ok b G H sh tx_states (on_writable iv s)"
proof -
  assume ok: "tx_ok b G H sh tx_states s"
  obtain n t where p: "consume_pending_data s = (n, t)" by (cases "consume_pending_data s")
  have "tx_ok b G H sh tx_states t" using consume_pending_data_tx [OF ok] p by simp
  with ok p show ?thesis by (simp add: on_writable_def cb_output_tx)
qed

lemma tx_ok_send_ops:
  assumes ok: "tx_ok b G H sh A s"
    and ops: "\<And>got. subseq (got @ map op_bytes (send_ops s)) H \<Longrightarrow> subseq (got @ map op_bytes ops) K"
    and len: "length (concat K) < 2 ^ 32" "short K \<Longrightarrow> short H" "sh \<Longrightarrow> short K"
    and q: "sh \<Longrightarrow> send_ops s = [] \<Longrightarrow> ops = []" "tx_queue ops pd"
  shows "tx_ok b G K sh A (s\<lparr>send_ops := ops, pending_data := pd\<rparr>)"
proof -
  let ?t = "s\<lparr>send_ops := ops, pending_data := pd\<rparr>"
  from ok obtain got F where a: "tx_side H sh s" "since G (got, F, flag s TF_SENTFIN)" "tx_at b H sh A got F s"
    by (rule tx_okE)
  have "tx_at b K sh A got F ?t"
    using a(3) ops [of got] len(2) q(1) by (auto simp: tx_at_def tx_stream_def tx_view_def sq_view_def flag_def)
  moreover have "tx_side K sh ?t" using a(1) len q by (auto simp: tx_side_def)
  ultimately show ?thesis using a(2) unfolding tx_ok_iff by auto
qed

lemma subseq_append_front: "subseq (xs @ ys) zs \<Longrightarrow> subseq xs zs"
  by (rule subseq_order.trans [of xs "xs @ ys"]) (simp_all add: prefix_imp_subseq)

lemma cancel_tx: "tx_ok b G H sh A s \<Longrightarrow> tx_ok b G H sh A (cancel s)"
proof -
  assume ok: "tx_ok b G H sh A s"
  have "length (concat H) < 2 ^ 32" "sh \<Longrightarrow> short H" using ok by (auto simp: tx_ok_iff tx_side_def)
  then have "tx_ok b G H sh A (s\<lparr>send_ops := [], pending_data := 0\<rparr>)"
    by (intro tx_ok_send_ops [OF ok]) (auto simp: tx_queue_def dest: subseq_append_front)
  then show ?thesis
    by (rule tx_okI) (simp add: cancel_def cancel_next_layer_def Let_def tx_view_def sq_view_def flag_def datagrams_def emit_def)
qed

lemma tx_view_post_all [simp]: "tx_view (post_all ops e s) = tx_view s" "sq_view (post_all ops e s) = sq_view s"
  by (induction ops e s rule: post_all.induct) simp_all

lemma on_disconnected_tx: "tx_ok b G H sh tx_states s \<Longrightarrow> tx_ok b G H sh tx_states (on_disconnected iv s)"
proof (cases "next_layer s")
  case False
  then show "tx_ok b G H sh tx_states s \<Longrightarrow> ?thesis" by (simp add: on_disconnected_def)
next
  case True
  assume ok: "tx_ok b G H sh tx_states s"
  define e where "e = udt_error Disconnected"
  define u where "u = recv_data iv (post_all (send_ops s) e s)"
  define v where "v = (case connect_handler u of Some h \<Rightarrow> emit (Post_connect h e) u
    | None \<Rightarrow> (case accept_handler u of Some h \<Rightarrow> emit (Post_accept h e (peer_ep u)) u | None \<Rightarrow> u))"
  define w where "w = (case shutdown_handler v of Some h \<Rightarrow> emit (Post_shutdown h e) v | None \<Rightarrow> v)"
  have "tx_ok b G H sh tx_states (post_all (send_ops s) e s)" by (rule tx_okI [OF ok]) simp
  then have "tx_ok b G H sh tx_states u" unfolding u_def by (rule recv_data_tx)
  then have "tx_ok b G H sh tx_states w" by (rule tx_okI) (simp add: w_def v_def split: option.splits)
  then have "tx_ok b G H sh tx_states (cancel w)" by (rule cancel_tx)
  moreover have "on_disconnected iv s = cancel w"
    using True unfolding on_disconnected_def Let_def w_def v_def u_def e_def by simp
  ultimately show ?thesis by simp
qed

lemma tx_ok_set_state:
  assumes "tx_ok b G H sh A s" and "st \<in> A" and "st \<in> ending_states \<Longrightarrow> sh"
  shows "tx_ok b G H sh A (s\<lparr>m_state := st\<rparr>)"
proof -
  from assms(1) obtain got F where a: "tx_side H sh s" "since G (got, F, flag s TF_SENTFIN)" "tx_at b H sh A got F s"
    by (rule tx_okE)
  have "tx_at b H sh A got F (s\<lparr>m_state := st\<rparr>)"
    using a(3) assms(2) by (auto simp: tx_at_def tx_stream_def tx_view_def)
  moreover have "tx_side H sh (s\<lparr>m_state := st\<rparr>)" using a(1) assms(3) by (auto simp: tx_side_def)
  ultimately show ?thesis using a(2) unfolding tx_ok_iff by auto
qed

lemma tx_ok_ending: "tx_ok b G H sh A s \<Longrightarrow> m_state s \<in> ending_states \<Longrightarrow> sh"
  by (auto simp: tx_ok_iff tx_side_def)

lemma tx_states_iff [simp]: "TCPS_CLOSED \<in> tx_states" "TCPS_CLOSED \<notin> ending_states" "TCPS_ESTABLISHED \<notin> ending_states"
    "TCPS_CLOSE_WAIT \<notin> ending_states" "st \<in> ending_states \<Longrightarrow> st \<in> tx_states" "st \<in> open_states \<Longrightarrow> st \<in> tx_states"
  by (auto simp: tx_states_def live_states_def ending_states_def)

lemma cb_drop_tx: "tx_ok b G H sh tx_states s \<Longrightarrow> tx_ok b G H sh tx_states (cb_drop iv e s)"
proof -
  assume ok: "tx_ok b G H sh tx_states s"
  have "tx_ok b G H sh tx_states (if is_error e then s\<lparr>m_last_error := e\<rparr> else s)" by (rule tx_okI [OF ok]) simp
  then have "tx_ok b G H sh tx_states (on_disconnected iv (if is_error e then s\<lparr>m_last_error := e\<rparr> else s))"
    by (rule on_disconnected_tx)
  then show ?thesis unfolding cb_drop_def Let_def by (rule tx_ok_set_state) simp_all
qed

section \<open>Input\<close>

lemma tx_view_merge_loop: "merge_loop ps s = (rest, t) \<Longrightarrow> both t = both s"
proof (induction ps s arbitrary: rest t rule: merge_loop.induct)
  case (1 s)
  then show ?case by simp
next
  case (2 p ps s)
  then show ?case by (auto split: if_splits bool.splits prod.splits)
qed

lemma tx_view_merge [simp]: "tx_view (merge_reasm_pkts s) = tx_view s" "sq_view (merge_reasm_pkts s) = sq_view s"
  by (auto simp: merge_reasm_pkts_def Let_def split: prod.splits dest: tx_view_merge_loop)

lemma tx_view_reass [simp]: "tx_view (TCP_REASS p s) = tx_view s" "sq_view (TCP_REASS p s) = sq_view s"
  by (auto simp: TCP_REASS_def tcp_reass_def Let_def split: option.splits prod.splits bool.splits)


lemma drop_snd_pkt_tx:
  assumes ok: "tx_ok b G H sh A s" and pk: "m_pkts (snd_buf s) = pre @ p # suf"
  shows "tx_ok b G H sh A (drop_snd_pkt pre p suf s)"
proof -
  let ?rd = "if has_rexmt (pflags p) then m_retrans_data s - ucast (plen p) else m_retrans_data s"
  have "tx_ok b G H sh A (s\<lparr>snd_buf := drop_at pre p suf (snd_buf s), m_retrans_data := ?rd\<rparr>)"
  proof (rule tx_ok_pkts [OF ok drop_at_wf [OF tx_ok_wf [OF ok] pk]])
    assume "pkts_ok b (m_snd_max s) (m_pkts (snd_buf s)) (m_retrans_data s)"
    then show "pkts_ok b (m_snd_max s) (m_pkts (drop_at pre p suf (snd_buf s))) ?rd"
      using pkts_ok_drop [of b "m_snd_max s" pre p suf] by (simp add: pk)
  qed (auto simp: pk)
  then show ?thesis
    by (rule tx_okI) (simp add: drop_snd_pkt_def Let_def tx_view_def sq_view_def flag_def datagrams_def)
qed

text \<open>The sequence numbers and flags of the second view, without what the packets determine.\<close>

definition sq_nums :: "udt_socket \<Rightarrow> udt_seq \<times> udt_seq \<times> udt_seq \<times> bool" where
  "sq_nums s = fst (sq_view s)"

lemma sq_nums_eq: "sq_view t = sq_view s \<Longrightarrow> sq_nums t = sq_nums s"
  by (simp add: sq_nums_def)

lemma sq_nums_frame [simp]: "sq_nums (update_snd_fack a s) = sq_nums s" "sq_nums (s\<lparr>m_dupacks := x\<rparr>) = sq_nums s"
  by (simp_all add: sq_nums_def)

lemma drop_snd_pkt_sq [simp]: "sq_nums (drop_snd_pkt pre p suf s) = sq_nums s"
  by (simp add: sq_nums_def drop_snd_pkt_def Let_def sq_view_def flag_def)

lemma drop_acked_loop_tx:
  "tx_ok b G H sh A s \<Longrightarrow> m_pkts (snd_buf s) = ps \<Longrightarrow> tx_ok b G H sh A (snd (drop_acked_loop a ps n s))"
proof (induction a ps n s rule: drop_acked_loop.induct)
  case (1 ack n s)
  then show ?case by simp
next
  case (2 ack p ps n s)
  then show ?case using drop_snd_pkt_tx [of b G H sh A s "[]" p ps] by simp
qed

lemma drop_acked_loop_sq: "sq_nums (snd (drop_acked_loop a ps n s)) = sq_nums s"
  by (induction a ps n s rule: drop_acked_loop.induct) simp_all

text \<open>An acknowledgement between the oldest number outstanding and the highest sent.\<close>

definition ack_ok :: "udt_seq \<Rightarrow> udt_seq \<times> udt_seq \<times> udt_seq \<times> bool \<Rightarrow> bool" where
  "ack_ok a = (\<lambda>(una, nxt, mx, z). \<not> seq_lt a una \<and> \<not> seq_gt a mx)"

lemma sint_nonneg_unat: "0 \<le> sint (w :: u32) \<Longrightarrow> unat w < 2 ^ 31"
proof -
  assume a: "0 \<le> sint w"
  have l: "sint w < 2 ^ 31" using sint_less [of w] by simp
  have "uint w = sint w" using a l by (simp add: uint_sint take_bit_int_eq_self)
  then have "int (unat w) < 2 ^ 31" using l by (simp only: uint_nat)
  moreover have "(2 :: int) ^ 31 = int (2 ^ 31)" by simp
  ultimately show ?thesis by (simp only: of_nat_less_iff)
qed

lemma off_split: "off b x \<le> off b y \<Longrightarrow> off b y = off b x + off x y"
proof -
  assume le: "off b x \<le> off b y"
  have e: "y - x = (y - b) - (x - b)" by simp
  have "off x y = unat ((y - b) - (x - b))" unfolding off_def e ..
  also have "\<dots> = unat (y - b) - unat (x - b)" by (rule unat_sub) (use le in \<open>simp only: off_def word_le_nat_alt\<close>)
  finally show ?thesis using le by (simp add: off_def)
qed

lemma ack_between:
  assumes le: "off b una \<le> off b mx" and mx: "off b mx < 2 ^ 31" and ge: "\<not> seq_lt a una" and "\<not> seq_gt a mx"
  shows "off b una \<le> off b a \<and> off b a \<le> off b mx"
proof -
  have m: "off b mx = off b una + off una mx" by (rule off_split [OF le])
  have "off una a < 2 ^ 31" unfolding off_def by (rule sint_nonneg_unat) (use ge in \<open>simp add: seq_lt_def\<close>)
  then have "off una a \<le> off una mx" using assms(4) m mx seq_gt_off [of una a mx] by (simp add: in_window_def)
  moreover have "off b a = off b una + off una a"
  proof -
    have "off b (una + word_of_nat (off una a)) = off b una + off una a"
      by (rule off_add) (use calculation m mx in simp)
    then show ?thesis by (simp add: off_def)
  qed
  ultimately show ?thesis using m by simp
qed

lemma update_snd_una_tx: "tx_ok b G H sh A s \<Longrightarrow> ack_ok a (sq_nums s) \<Longrightarrow> tx_ok b G H sh A (update_snd_una a s)"
proof (rule tx_ok_seqs)
  fix got F
  assume a: "ack_ok a (sq_nums s)" and h: "short H" and at: "tx_at b H sh A got F s"
    and sq: "seq_ok b (length (concat got)) F (fst (sq_view s))"
  let ?n = "length (concat got)"
  have n: "?n + 4 < 2 ^ 31" using tx_at_len [OF at] h by (simp add: short_def)
  have "off b (m_snd_una s) \<le> off b (m_snd_max s)" "off b (m_snd_max s) \<le> Suc ?n"
    using sq by (cases "flag s TF_SENTFIN"; simp add: seq_ok_def sq_view_def)+
  with ack_between [of b "m_snd_una s" "m_snd_max s" a] a n
  have "off b (m_snd_una s) \<le> off b a \<and> off b a \<le> off b (m_snd_max s)" by (simp add: ack_ok_def sq_nums_def sq_view_def)
  then show "seq_ok b ?n F (fst (sq_view (update_snd_una a s)))"
    using sq by (auto simp: seq_ok_def update_snd_una_def update_snd_fack_def Let_def sq_view_def)
qed (simp_all add: update_snd_una_def update_snd_fack_def Let_def)

lemma drop_acked_data_tx:
  assumes ok: "tx_ok b G H sh A s" and a: "ack_ok a (sq_nums s)"
  shows "tx_ok b G H sh A (snd (drop_acked_data a s))"
proof -
  obtain n t where l: "drop_acked_loop a (m_pkts (snd_buf s)) 0 s = (n, t)"
    by (cases "drop_acked_loop a (m_pkts (snd_buf s)) 0 s")
  have "tx_ok b G H sh A t" using drop_acked_loop_tx [OF ok refl, of a 0] l by simp
  moreover have "sq_nums t = sq_nums s" using drop_acked_loop_sq [of a "m_pkts (snd_buf s)" 0 s] l by simp
  ultimately show ?thesis using a by (simp add: drop_acked_data_def l update_snd_una_tx)
qed

lemma sack_block_tx:
  "tx_ok b G H sh A s \<Longrightarrow> m_pkts (snd_buf s) = pre @ suf \<Longrightarrow> sack_block x y pre suf s = (stop, pre', suf', t) \<Longrightarrow>
    tx_ok b G H sh A t \<and> m_pkts (snd_buf t) = pre' @ suf' \<and> sq_nums t = sq_nums s"
proof (induction x y pre suf s arbitrary: stop pre' suf' t rule: sack_block.induct)
  case (1 x y pre s)
  then show ?case by simp
next
  case (2 x y pre p ps s)
  then show ?case using drop_snd_pkt_tx [of b G H sh A s pre p ps] by (auto split: if_splits)
qed

lemma sack_blocks_tx: "tx_ok b G H sh A s \<Longrightarrow> m_pkts (snd_buf s) = pre @ suf \<Longrightarrow>
    tx_ok b G H sh A (sack_blocks prs pre suf s) \<and> sq_nums (sack_blocks prs pre suf s) = sq_nums s"
proof (induction prs pre suf s rule: sack_blocks.induct)
  case (1 pre suf s)
  then show ?case by simp
next
  case (2 pr prs pre suf s)
  obtain stop pre' suf' t where r: "sack_block (fst pr) (snd pr) pre suf s = (stop, pre', suf', t)"
    by (cases "sack_block (fst pr) (snd pr) pre suf s")
  note k = sack_block_tx [OF 2(2,3) r]
  show ?case
  proof (cases stop)
    case True
    with r k show ?thesis by simp
  next
    case False
    with 2(1) [OF r [symmetric]] r k show ?thesis by simp
  qed
qed

lemma handle_option_sack_tx: "tx_ok b G H sh A s \<Longrightarrow>
    tx_ok b G H sh A (snd (handle_option_sack o' s)) \<and> sq_nums (snd (handle_option_sack o' s)) = sq_nums s"
proof (cases "pair_seqs o'")
  case Nil
  then show "tx_ok b G H sh A s \<Longrightarrow> ?thesis" by (simp add: handle_option_sack_def)
next
  case (Cons pr prs)
  assume ok: "tx_ok b G H sh A s"
  have "tx_ok b G H sh A (update_snd_fack (snd pr) s)" by (rule tx_okI [OF ok]) simp
  moreover have "snd_buf (update_snd_fack (snd pr) s) = snd_buf s" by (simp add: update_snd_fack_def)
  ultimately show ?thesis by (simp add: handle_option_sack_def Cons Let_def sack_blocks_tx)
qed

lemma handle_options_tx:
  assumes ok: "tx_ok b G H sh A s" and run: "handle_options d s = Some t"
  shows "tx_ok b G H sh A t \<and> sq_nums t = sq_nums s"
proof -
  let ?P = "\<lambda>t. tx_ok b G H sh A t \<and> sq_nums t = sq_nums s"
  have "?P s" using ok by simp
  moreover have "?P u \<Longrightarrow> ?P (snd (handle_option_sack o' u))" for o' u
    using handle_option_sack_tx [of b G H sh A u o'] by auto
  moreover have "?P u \<Longrightarrow> ?P (snd (handle_option_cwnd o' u))" for o' u
    by (auto simp: handle_option_cwnd_def sq_nums_def elim: tx_okI)
  ultimately show ?thesis by (rule handle_options_keeps [OF run])
qed

lemma do_header_prediction_tx:
  "tx_ok b G H sh tx_states s \<Longrightarrow> tx_ok b G H sh tx_states (snd (do_header_prediction iv pkt s))"
proof -
  assume ok: "tx_ok b G H sh tx_states s"
  define u where "u = set_flags TF_NOTIFY_WRITE (reset_rexmt_timer (snd (drop_acked_data (uh_ack (hdr pkt)) s)))"
  have u: "tx_ok b G H sh tx_states (if m_cc (snd_buf u) \<noteq> 0 then snd (cb_output iv u) else u)"
    if "seq_gt (uh_ack (hdr pkt)) (m_snd_una s)" "seq_le (uh_ack (hdr pkt)) (m_snd_max s)"
  proof -
    have "ack_ok (uh_ack (hdr pkt)) (sq_nums s)" using that by (auto simp: ack_ok_def sq_nums_def sq_view_def seq_defs)
    then have "tx_ok b G H sh tx_states u" unfolding u_def by (intro tx_okI [OF drop_acked_data_tx [OF ok]]) simp_all
    then show ?thesis by (simp add: cb_output_tx)
  qed
  have v: "tx_ok b G H sh tx_states (set_flags f s)" if "\<not> has_flag f TF_SENTFIN" for f using that by (intro tx_okI [OF ok]) simp
  have w: "tx_ok b G H sh tx_states (set_flags f (s\<lparr>rcv_buf := rb, m_rcv_nxt := q\<rparr>))" if "\<not> has_flag f TF_SENTFIN" for f rb q
    using that by (intro tx_okI [OF ok]) simp
  show ?thesis
    unfolding do_header_prediction_def Let_def u_def [symmetric]
    using ok u v w by (simp split: bool.splits prod.splits)
qed

lemma tx_view_window [simp]: "tx_view (snd (drop_out_of_rcv_wnd_packet pkt s)) = tx_view s"
    "sq_view (snd (drop_out_of_rcv_wnd_packet pkt s)) = sq_view s"
  by (simp_all add: drop_out_of_rcv_wnd_packet_def Let_def)

lemma handle_syn_tx: "tx_ok b G H sh tx_states s \<Longrightarrow> tx_ok b G H sh tx_states (snd (snd (handle_syn pkt s)))"
proof (rule tx_okI)
  assume "tx_ok b G H sh tx_states s"
  from tx_ok_state [OF this] have "m_state s \<noteq> TCPS_LISTEN \<and> m_state s \<noteq> TCPS_SYN_SENT \<and> m_state s \<noteq> TCPS_SYN_RECEIVED"
    by (auto simp: tx_states_def live_states_def open_states_def ending_states_def)
  moreover have "m_state (set_flags f s) = m_state s" for f by (simp add: set_flags_def)
  ultimately show "both (snd (snd (handle_syn pkt s))) = both s" by (simp add: handle_syn_def Let_def)
qed


text \<open>Going back to the number that was next before: it is still one the sender knows.\<close>

lemma tx_ok_restore:
  assumes ok: "tx_ok b (got0, F0, flag s TF_SENTFIN) H sh A t" and at: "tx_at b H sh B got0 F0 s"
  shows "tx_ok b (got0, F0, flag s TF_SENTFIN) H sh A (t\<lparr>m_snd_nxt := m_snd_nxt s\<rparr>)"
proof -
  let ?u = "t\<lparr>m_snd_nxt := m_snd_nxt s\<rparr>"
  from ok obtain got F where a: "tx_side H sh t" "since (got0, F0, flag s TF_SENTFIN) (got, F, flag t TF_SENTFIN)"
      "tx_at b H sh A got F t" by (rule tx_okE)
  have "tx_at b H sh A got F ?u"
  proof (rule tx_at_seqs [OF a(3)])
    show "m_retrans_data ?u = m_retrans_data t" by simp
    assume h: "short H"
    have old: "seq_ok b (length (concat got0)) F0 (m_snd_una s, m_snd_nxt s, m_snd_max s, flag s TF_SENTFIN)"
      using at h by (simp add: tx_at_def sq_view_def)
    have new: "seq_ok b (length (concat got)) F (m_snd_una t, m_snd_nxt t, m_snd_max t, flag t TF_SENTFIN)"
      using a(3) h by (simp add: tx_at_def sq_view_def)
    have le: "length (concat got0) \<le> length (concat got)" and z: "flag s TF_SENTFIN \<Longrightarrow> flag t TF_SENTFIN"
      using a(2) by (auto simp: since_def prefix_def)
    show "off b (m_snd_max t) \<le> off b (m_snd_max ?u) \<and> seq_ok b (length (concat got)) F (fst (sq_view ?u))"
      using old new le z by (cases "flag s TF_SENTFIN"; cases "flag t TF_SENTFIN") (auto simp: seq_ok_def)
  qed simp
  moreover have "tx_side H sh ?u" using a(1) by (simp add: tx_side_def)
  ultimately show ?thesis using a(2) unfolding tx_ok_iff by auto
qed

lemma do_fast_rexmt_tx: "tx_ok b G H sh tx_states s \<Longrightarrow> tx_ok b G H sh tx_states (do_fast_rexmt iv tick (m_snd_una s) s)"
proof -
  assume ok: "tx_ok b G H sh tx_states s"
  then obtain got F where at: "tx_at b H sh tx_states got F s" and now: "tx_ok b (got, F, flag s TF_SENTFIN) H sh tx_states s"
    and past: "\<And>t. tx_ok b (got, F, flag s TF_SENTFIN) H sh tx_states t \<Longrightarrow> tx_ok b G H sh tx_states t"
    by (rule tx_ok_fix) blast
  let ?G = "(got, F, flag s TF_SENTFIN)"
  define u where "u = set_timer TCPT_REXMT 0 (handle_packet_lost tick s)\<lparr>m_snd_nxt := m_snd_una s\<rparr>"
  define v where "v = snd (cb_output iv (validate_first_pkt (u\<lparr>m_snd_cwnd := bytes_inflight u + ucast (m_maxseg u)\<rparr>)))"
  have f: "m_snd_una (handle_packet_lost tick s) = m_snd_una s" "m_snd_max (handle_packet_lost tick s) = m_snd_max s"
      "pending_data (handle_packet_lost tick s) = pending_data s"
      "flag (handle_packet_lost tick s) TF_SENTFIN = flag s TF_SENTFIN"
      "m_retrans_data (handle_packet_lost tick s) = m_retrans_data s"
    using sq_view_state(11) [of tick s] by (simp_all add: sq_view_def)
  have "tx_ok b ?G H sh tx_states (u\<lparr>m_snd_cwnd := bytes_inflight u + ucast (m_maxseg u)\<rparr>)"
    by (rule tx_okI [OF tx_ok_una [OF now]]) (simp add: u_def set_timer_def f)
  then have "tx_ok b ?G H sh tx_states v" unfolding v_def by (intro cb_output_tx validate_first_pkt_tx)
  from tx_ok_restore [OF this at] have "tx_ok b ?G H sh tx_states (v\<lparr>m_snd_nxt := m_snd_nxt s\<rparr>)" .
  then have "tx_ok b ?G H sh tx_states (do_fast_rexmt iv tick (m_snd_una s) s)"
    by (rule tx_okI) (simp add: do_fast_rexmt_def Let_def u_def v_def)
  then show ?thesis by (rule past)
qed

text \<open>A step between states, the rest of both views as it was.\<close>

lemma tx_view_parts [simp]: "fst (tx_view s) = m_state s" "snd (tx_view s) = (m_maxseg s, snd_buf s, send_ops s, datagrams s)"
  by (simp_all add: tx_view_def)

lemma tx_ok_move:
  assumes ok: "tx_ok b G H sh A s" and t: "snd (tx_view t) = snd (tx_view s)" "sq_view t = sq_view s"
    and st: "fst (tx_view t) \<in> A" "fst (tx_view t) \<in> ending_states \<Longrightarrow> m_state s \<in> ending_states"
  shows "tx_ok b G H sh A t"
proof -
  have "tx_ok b G H sh A (s\<lparr>m_state := m_state t\<rparr>)"
    by (rule tx_ok_set_state [OF ok]) (use st tx_ok_ending [OF ok] in auto)
  then show ?thesis by (rule tx_okI) (use t in \<open>simp add: tx_view_def\<close>)
qed

lemmas state_sets = tx_states_def live_states_def open_states_def ending_states_def

lemma update_ack_state_tx:
  assumes ok: "tx_ok b G H sh tx_states s" and run: "update_ack_state s = Some t"
  shows "tx_ok b G H sh tx_states t \<and> sq_nums t = sq_nums s"
proof -
  have st: "m_state s \<in> tx_states" by (rule tx_ok_state [OF ok])
  have "snd (tx_view t) = snd (tx_view s) \<and> sq_view t = sq_view s \<and> fst (tx_view t) \<in> tx_states \<and>
      (fst (tx_view t) \<in> ending_states \<longrightarrow> m_state s \<in> ending_states)"
    using st run unfolding update_ack_state_def
    by (cases "m_state s") (auto simp: state_sets split: if_splits simp del: tx_view_parts, simp_all)
  with tx_ok_move [OF ok, of t] sq_nums_eq [of t s] show ?thesis by blast
qed

lemma handle_same_ack_tx:
  "tx_ok b G H sh tx_states s \<Longrightarrow> tx_ok b G H sh tx_states (snd (handle_same_ack iv tick (m_snd_una s) w s))"
proof -
  assume ok: "tx_ok b G H sh tx_states s"
  have f: "tx_ok b G H sh tx_states (s\<lparr>m_dupacks := k, m_rtt := 0\<rparr>)" for k by (rule tx_okI [OF ok]) simp
  have g: "tx_ok b G H sh tx_states t" if "both t = both s" for t by (rule tx_okI [OF ok that])
  have r: "tx_ok b G H sh tx_states (do_fast_rexmt iv tick (m_snd_una s) (s\<lparr>m_dupacks := k, m_rtt := 0\<rparr>))" for k
    using do_fast_rexmt_tx [OF f [of k], of iv tick] by simp
  show ?thesis
    unfolding handle_same_ack_def Let_def using r by (auto simp: g)
qed

lemma handle_new_ack_tx:
  assumes ok: "tx_ok b G H sh tx_states s" and a: "ack_ok a (sq_nums s)" and run: "handle_new_ack a w s = Some (stop, t)"
  shows "tx_ok b G H sh tx_states t"
proof -
  from run obtain u where u: "incr_snd_cwnd (set_flags TF_NOTIFY_WRITE s) = Some u"
    and t: "t = reset_rexmt_timer (set_flags TF_NEED_OUTPUT (update_snd_wnd w (snd (drop_acked_data a (u\<lparr>m_dupacks := 0\<rparr>)))))"
    by (auto simp: handle_new_ack_def bind_eq_Some_conv)
  have "tx_ok b G H sh tx_states (u\<lparr>m_dupacks := 0\<rparr>)"
    by (rule tx_okI [OF ok]) (simp add: tx_view_incr [OF u] sq_view_incr [OF u])
  moreover have "ack_ok a (sq_nums (u\<lparr>m_dupacks := 0\<rparr>))" using a sq_nums_eq [OF sq_view_incr [OF u]] by (simp add: sq_nums_def)
  ultimately have "tx_ok b G H sh tx_states (snd (drop_acked_data a (u\<lparr>m_dupacks := 0\<rparr>)))" by (rule drop_acked_data_tx)
  then show ?thesis by (rule tx_okI) (simp add: t)
qed

lemma handle_ack_tx:
  assumes ok: "tx_ok b G H sh tx_states s" and run: "handle_ack iv tick pkt s = Some (stop, t)"
  shows "tx_ok b G H sh tx_states t"
proof (cases "is_old_ack (uh_ack (hdr pkt)) s \<or> seq_gt (uh_ack (hdr pkt)) (m_snd_max s)")
  case True
  with run have "both t = both s" by (auto simp: handle_ack_def Let_def split: if_splits)
  with ok show ?thesis by (rule tx_okI)
next
  case False
  let ?ti = "hdr pkt"
  from run False have run: "handle_valid_ack iv tick pkt s = Some (stop, t)" by (simp add: handle_ack_def)
  then obtain u v where u: "(if is_max_ack (uh_ack ?ti) s then update_ack_state s else Some s) = Some u"
    and v: "(if unat (uh_off ?ti) > sizeof_udt_hdr
       then handle_options (take (unat (uh_off ?ti) - sizeof_udt_hdr) (body pkt)) u else Some u) = Some v"
    and r: "(if uh_ack ?ti = m_snd_una v then Some (handle_same_ack iv tick (uh_ack ?ti) (ucast (uh_win ?ti)) v)
       else handle_new_ack (uh_ack ?ti) (ucast (uh_win ?ti)) v) = Some (stop, t)"
    unfolding handle_valid_ack_def Let_def bind_eq_Some_conv by blast
  have a: "ack_ok (uh_ack ?ti) (sq_nums s)" using False by (simp add: ack_ok_def sq_nums_def sq_view_def is_old_ack_def)
  have "tx_ok b G H sh tx_states u \<and> sq_nums u = sq_nums s" using u ok update_ack_state_tx [OF ok] by (auto split: if_splits)
  then have v: "tx_ok b G H sh tx_states v" "sq_nums v = sq_nums s"
    using v handle_options_tx [of b G H sh tx_states u _ v] by (auto split: if_splits)
  show ?thesis
    using r handle_same_ack_tx [OF v(1), of iv tick "ucast (uh_win ?ti)"] a
      handle_new_ack_tx [OF v(1), of "uh_ack ?ti" "ucast (uh_win ?ti)" stop t]
    by (auto simp: v(2) split: if_splits)
qed

lemma handle_fin_tx: "tx_ok b G H sh tx_states s \<Longrightarrow> tx_ok b G H sh tx_states (handle_fin s)"
proof -
  assume ok: "tx_ok b G H sh tx_states s"
  have st: "m_state s \<in> tx_states" by (rule tx_ok_state [OF ok])
  then have "snd (tx_view (handle_fin s)) = snd (tx_view s) \<and>
      fst (tx_view (handle_fin s)) \<in> tx_states \<and> (fst (tx_view (handle_fin s)) \<in> ending_states \<longrightarrow> m_state s \<in> ending_states)"
    by (cases "m_state s") (simp_all add: handle_fin_def Let_def state_sets TCPS_HAVERCVDFIN_def set_flags_def set_timer_def)
  moreover have "sq_view (handle_fin s) = sq_view s" by (simp add: handle_fin_def Let_def)
  ultimately show ?thesis using tx_ok_move [OF ok, of "handle_fin s"] by blast
qed

lemma input_data_tx:
  assumes ok: "tx_ok b G H sh tx_states s" and run: "input_data iv tick pkt s = Some t"
  shows "tx_ok b G H sh tx_states t"
proof -
  define u where "u = (if plen pkt \<noteq> 0 \<or> has_flag (pflags pkt) (TH_SYN OR TH_FIN) then TCP_REASS pkt s else s)"
  have u: "tx_ok b G H sh tx_states u" by (rule tx_okI [OF ok]) (simp add: u_def)
  from run obtain stop v where
    v: "(if has_flag (pflags pkt) TH_ACK then handle_ack iv tick pkt u else Some (False, u)) = Some (stop, v)"
    and t: "t = (if \<not> stop \<and> buf_fin (rcv_buf u) then handle_fin v else v)"
    unfolding input_data_def Let_def u_def [symmetric] bind_eq_Some_conv by auto
  have "tx_ok b G H sh tx_states v" using v u by (auto split: if_splits elim: handle_ack_tx [rotated])
  then show ?thesis using t by (simp add: handle_fin_tx)
qed

lemma input_segment_tx:
  assumes ok: "tx_ok b G H sh tx_states s" and run: "input_segment iv tick pkt s = Some t"
  shows "tx_ok b G H sh tx_states t"
proof (cases "m_state s = TCPS_CLOSED \<or> has_flag (pflags pkt) TH_RST")
  case True
  with run have "both t = both s" by (auto simp: input_segment_def split: if_splits)
  with ok show ?thesis by (rule tx_okI)
next
  case False
  obtain d0 s0 where s0: "drop_out_of_rcv_wnd_packet pkt s = (d0, s0)" by (cases "drop_out_of_rcv_wnd_packet pkt s")
  obtain d1 s1 where s1: "do_header_prediction iv pkt s0 = (d1, s1)" by (cases "do_header_prediction iv pkt s0")
  obtain d2 pkt2 s2 where s2: "(if has_flag (pflags pkt) TH_SYN then handle_syn pkt s1 else (False, pkt, s1)) = (d2, pkt2, s2)"
    by (cases "if has_flag (pflags pkt) TH_SYN then handle_syn pkt s1 else (False, pkt, s1)")
  have "both s0 = both s" using tx_view_window [of pkt s] s0 by simp
  with ok have o0: "tx_ok b G H sh tx_states s0" by (rule tx_okI)
  then have o1: "tx_ok b G H sh tx_states s1" using do_header_prediction_tx [OF o0, of iv pkt] s1 by simp
  then have o2: "tx_ok b G H sh tx_states s2" using handle_syn_tx [OF o1, of pkt] s2 by (auto split: if_splits)
  from run False s0 s1 s2 have "t = s0 \<or> t = s1 \<or> t = s2 \<or> input_data iv tick pkt2 s2 = Some t"
    by (auto simp: input_segment_def split: bool.splits)
  then show ?thesis using o0 o1 input_data_tx [OF o2] o2 by auto
qed

lemma commit_notifies_tx: "tx_ok b G H sh tx_states s \<Longrightarrow> tx_ok b G H sh tx_states (commit_notifies iv s)"
proof -
  assume ok: "tx_ok b G H sh tx_states s"
  obtain s1 where s1: "s1 = (if flag s (TF_ACKNOW OR TF_NEED_OUTPUT) then snd (cb_output iv s) else s)" by simp
  obtain s2 where s2: "s2 = (if flag s1 TF_NEED_RESET then clear_flags TF_NEED_RESET (reset_peer s1) else s1)" by simp
  obtain s3 where s3: "s3 = (if flag s2 TF_NOTIFY_READ
      then clear_flags TF_NOTIFY_READ (if above_lowat (rcv_buf s2) \<or> TCPS_HAVERCVDFIN s2 then on_readable iv s2 else s2)
      else s2)" by simp
  obtain s4 where s4: "s4 = (if flag s3 TF_NOTIFY_WRITE then clear_flags TF_NOTIFY_WRITE (on_writable iv s3) else s3)" by simp
  have cl: "tx_ok b G H sh tx_states x \<Longrightarrow> \<not> has_flag f TF_SENTFIN \<Longrightarrow> tx_ok b G H sh tx_states (clear_flags f x)" for f x
    by (erule tx_okI) simp
  have "tx_ok b G H sh tx_states s1" using ok by (simp add: s1 cb_output_tx)
  then have "tx_ok b G H sh tx_states s2" by (simp add: s2 cl reset_peer_tx)
  then have "tx_ok b G H sh tx_states s3" by (simp add: s3 cl on_readable_tx)
  then have "tx_ok b G H sh tx_states s4" by (simp add: s4 cl on_writable_tx)
  moreover have "commit_notifies iv s = (if flag s4 TF_NOTIFY_DROP
      then clear_flags TF_NOTIFY_DROP (cb_drop iv (m_last_error s4) s4) else s4)"
    unfolding commit_notifies_def Let_def s4 s3 s2 s1 by (rule refl)
  ultimately show ?thesis by (simp add: cl cb_drop_tx)
qed

lemma cb_input_tx:
  assumes ok: "tx_ok b G H sh tx_states s" and run: "cb_input iv tick bytes s = Some (consumed, t)"
  shows "tx_ok b G H sh tx_states t"
proof (cases "t = s")
  case False
  let ?pkt = "parse_datagram bytes"
  let ?u = "update_rtt (uh_pseq (hdr ?pkt)) (set_timer TCPT_KEEP s_keepidle (s\<lparr>m_pseq := pseq ?pkt, m_idle := 0\<rparr>))"
  from run False obtain v where v: "input_segment iv tick ?pkt ?u = Some v"
    and t: "(consumed, t) = pkt_consumed (commit_notifies iv v)"
    by (auto simp: cb_input_def parse_datagram_def Let_def bind_eq_Some_conv split: if_splits)
  have u: "tx_ok b G H sh tx_states ?u" by (rule tx_okI [OF ok]) simp
  have "tx_ok b G H sh tx_states v" by (rule input_segment_tx [OF u v])
  then have "tx_ok b G H sh tx_states (commit_notifies iv v)" by (rule commit_notifies_tx)
  then have "tx_ok b G H sh tx_states (snd (pkt_consumed (commit_notifies iv v)))"
    by (rule tx_okI) (simp add: pkt_consumed_def)
  then show ?thesis by (simp flip: t)
qed (use ok in simp)


section \<open>Every event of the socket\<close>

text \<open>
  From the established connection on: no new connection is begun and the user does not close the
  socket. He may shut down, once his buffers fill less than half of the sequence space, and
  sends nothing afterwards. The state of the machine carries the buffers handed to
  \<open>async_send\<close>, together less than \<open>2 ^ 32\<close> bytes, the size of the sequence space, and whether he
  has shut down.
\<close>

fun sends :: "socket_event \<Rightarrow> u8 list list" where
  "sends (Send cbuf h) = [cbuf_bytes cbuf]"
| "sends _ = []"

fun shuts :: "socket_event \<Rightarrow> bool" where
  "shuts (Shutdown h) \<longleftrightarrow> True"
| "shuts _ \<longleftrightarrow> False"

fun tx_event :: "socket_event \<Rightarrow> bool" where
  "tx_event (Create bound fack0) \<longleftrightarrow> False"
| "tx_event (Connect rep h) \<longleftrightarrow> False"
| "tx_event (Accept rep h) \<longleftrightarrow> False"
| "tx_event Close \<longleftrightarrow> False"
| "tx_event _ \<longleftrightarrow> True"

definition tx_allowed :: "u8 list list \<Rightarrow> bool \<Rightarrow> socket_event \<Rightarrow> bool" where
  "tx_allowed H sh e \<longleftrightarrow> tx_event e \<and> length (concat (H @ sends e)) < 2 ^ 32 \<and>
     (sends e \<noteq> [] \<longrightarrow> \<not> sh) \<and> (shuts e \<longrightarrow> short H)"

definition tx_step :: "indet \<Rightarrow> u8 list list \<times> bool \<times> udt_socket \<Rightarrow> socket_event \<Rightarrow>
    (u8 list list \<times> bool \<times> udt_socket) option" where
  "tx_step iv Hs e =
     (case Hs of (H, sh, s) \<Rightarrow>
       if tx_allowed H sh e
       then map_option (\<lambda>t. (H @ sends e, sh \<or> shuts e, t)) (proper_step iv s e) else None)"

text \<open>Before the start only the handshake has been sent: SYN at the number before \<open>b\<close>, and nothing in \<open>b\<close>.\<close>

definition tx_start :: "udt_seq \<Rightarrow> u8 list list \<times> bool \<times> udt_socket \<Rightarrow> bool" where
  "tx_start b = (\<lambda>(H, sh, s). H = [] \<and> \<not> sh \<and> m_state s \<in> open_states \<and> m_maxseg s = s_mss \<and> m_pkts (snd_buf s) = [] \<and>
     m_cc (snd_buf s) = 0 \<and> m_seq (snd_buf s) = b \<and> send_ops s = [] \<and> pending_data s = 0 \<and>
     (\<forall>d \<in> set (datagrams s). tx_datagram b [] False d \<and> near b [] (parse_datagram d)) \<and>
     m_snd_una s = b \<and> m_snd_nxt s = b \<and> m_snd_max s = b \<and> \<not> flag s TF_SENTFIN \<and> m_retrans_data s = 0)"

text \<open>Nothing accepted, no end, no FIN sent: the past of the start.\<close>

abbreviation outset :: past where
  "outset \<equiv> ([], False, False)"

definition tx_machine_ok :: "udt_seq \<Rightarrow> u8 list list \<times> bool \<times> udt_socket \<Rightarrow> bool" where
  "tx_machine_ok b = (\<lambda>(H, sh, s). tx_ok b outset H sh tx_states s)"

lemma tx_start_at: "tx_start b (H, sh, s) \<Longrightarrow> tx_side H sh s \<and> tx_at b H sh tx_states [] False s"
  by (auto simp: tx_start_def tx_side_def tx_at_def tx_stream_def tx_view_def sq_view_def tx_states_def live_states_def
      open_states_def ending_states_def tx_queue_def seq_ok_def pkts_ok_def buf_wf_def s_mss_def MAX_ALL_HEADERS_SIZE_def MAX_HEADER_SIZE_def)

lemma tx_start_ok: "tx_start b Hs \<Longrightarrow> tx_machine_ok b Hs"
  unfolding tx_machine_ok_def tx_ok_iff
  by (cases Hs) (auto dest!: tx_start_at simp: since_def intro!: exI [of _ "[]"] exI [of _ False])

lemma short_append: "short (H @ K) \<Longrightarrow> short H"
  by (simp add: short_def)

lemma tx_ok_history:
  assumes ok: "tx_ok b G H sh A s" and l: "length (concat (H @ K)) < 2 ^ 32" "sh \<Longrightarrow> short (H @ K)"
  shows "tx_ok b G (H @ K) sh A s"
proof -
  have "tx_ok b G (H @ K) sh A (s\<lparr>send_ops := send_ops s, pending_data := pending_data s\<rparr>)"
    by (rule tx_ok_send_ops [OF ok subseq_rev_drop_many l(1) short_append l(2)])
      (use ok in \<open>auto simp: tx_ok_iff tx_side_def\<close>)
  then show ?thesis by simp
qed

lemma async_send_tx:
  assumes ok: "tx_ok b G H False tx_states s" and len: "length (concat (H @ [cbuf_bytes cbuf])) < 2 ^ 32"
  shows "tx_ok b G (H @ [cbuf_bytes cbuf]) False tx_states (async_send iv cbuf h s)"
proof (cases "next_layer s \<and> buffer_size cbuf \<noteq> 0 \<and> \<not> cbuf_null cbuf \<and> \<not> is_error (get_lasterror s)")
  case True
  let ?K = "H @ [cbuf_bytes cbuf]"
  let ?ops = "send_ops s @ [\<lparr>send_buf = cbuf, send_handler = h\<rparr>]"
  let ?u = "s\<lparr>send_ops := ?ops, pending_data := pending_data s + buffer_size cbuf\<rparr>"
  have ne: "cbuf_bytes cbuf \<noteq> []" using True by (auto simp: buffer_size_def)
  have q: "tx_queue (send_ops s) (pending_data s)" using ok by (auto simp: tx_ok_iff tx_side_def)
  have "tx_ok b G ?K False tx_states ?u"
  proof (rule tx_ok_send_ops [OF ok _ len short_append])
    show "subseq (got @ map op_bytes ?ops) ?K" if "subseq (got @ map op_bytes (send_ops s)) H" for got
      using list_emb_append_mono [OF that, of "[cbuf_bytes cbuf]" "[cbuf_bytes cbuf]"] by (simp add: op_bytes_def)
    show "tx_queue ?ops (pending_data s + buffer_size cbuf)"
      using q ne by (auto simp: tx_queue_def op_bytes_def buffer_size_def)
  qed simp_all
  then have u: "tx_ok b G ?K False tx_states (snd (consume_pending_data ?u))" by (rule consume_pending_data_tx)
  obtain n t where p: "consume_pending_data ?u = (n, t)" by (cases "consume_pending_data ?u")
  with u True show ?thesis by (simp add: async_send_def Let_def cb_output_tx)
next
  case False
  have s: "tx_ok b G (H @ [cbuf_bytes cbuf]) False tx_states s" by (rule tx_ok_history [OF ok len]) simp
  have "tx_ok b G (H @ [cbuf_bytes cbuf]) False tx_states (emit (Post_io h e n []) s)" for e n by (rule tx_okI [OF s]) simp
  with s False show ?thesis by (auto simp: async_send_def Let_def)
qed

text \<open>The user's shutdown: from here on the connection may be in an ending state.\<close>

lemma tx_ok_shut: "tx_ok b G H sh A s \<Longrightarrow> short H \<Longrightarrow> tx_ok b G H True A s"
  by (auto simp: tx_ok_iff tx_side_def tx_at_def)

lemma async_shutdown_tx:
  assumes ok: "tx_ok b G H sh tx_states s" and l: "short H"
  shows "tx_ok b G H True tx_states (async_shutdown iv h s)"
proof -
  have t: "tx_ok b G H True tx_states s" by (rule tx_ok_shut [OF ok l])
  have "tx_ok b G H True tx_states (s\<lparr>shutdown_handler := x\<rparr>)" for x by (rule tx_okI [OF t]) simp
  then have u: "tx_ok b G H True tx_states (s\<lparr>shutdown_handler := x, m_state := st\<rparr>)" if "st \<in> tx_states" for x st
    by (intro tx_ok_set_state) (use that in simp_all)
  have m: "TCPS_FIN_WAIT_1 \<in> tx_states" "TCPS_LAST_ACK \<in> tx_states" by (simp_all add: state_sets)
  have "tx_ok b G H True tx_states (s\<lparr>shutdown_handler := x\<rparr>)" for x by (rule tx_okI [OF t]) simp
  with t show ?thesis by (simp add: async_shutdown_def cb_shutdown_def cb_output_tx u m split: tcp_state.split)
qed

lemma async_receive_tx: "tx_ok b G H sh tx_states s \<Longrightarrow> tx_ok b G H sh tx_states (async_receive iv buf h s)"
proof -
  assume ok: "tx_ok b G H sh tx_states s"
  have "tx_ok b G H sh tx_states (s\<lparr>recv_ops := q\<rparr>)" "tx_ok b G H sh tx_states (emit (Post_io h e 0 []) s)" for q e
    by (rule tx_okI [OF ok], simp)+
  with ok show ?thesis by (simp add: async_receive_def recv_data_tx)
qed

lemma clear_pkt_flags_tx: "\<forall>p \<in> set ps. tx_pkt b S p \<Longrightarrow> \<forall>p \<in> set (clear_pkt_flags m ps). tx_pkt b S p"
  by (induction m ps rule: clear_pkt_flags.induct) (auto simp: tx_pkt_set_pflags no_fin_retrans)

lemma clear_pkt_flags_ok:
  assumes "pkts_ok b mx ps rd" and "in_window b mx" and "\<forall>p \<in> set ps. in_window b (pseq p)"
  shows "pkts_ok b mx (clear_pkt_flags mx ps) 0 \<and> map pseq (clear_pkt_flags mx ps) = map pseq ps"
  using assms
proof (induction mx ps arbitrary: rd rule: clear_pkt_flags.induct)
  case (1 mx)
  then show ?case by (simp add: pkts_ok_def)
next
  case (2 mx p ps)
  have ok: "pkts_ok b mx ps (word_of_nat (rexmt_len ps))" using 2(2) by (simp add: pkts_ok_def)
  show ?case
  proof (cases "seq_ge (pseq p) mx")
    case True
    then have "off b mx \<le> off b (pseq p)" using 2(3,4) by (auto simp: seq_ge_off)
    then have "\<forall>q \<in> set (p # ps). off b mx \<le> off b (pseq q)" using 2(2) by (auto simp: pkts_ok_def intro: order_trans)
    then have "\<forall>q \<in> set (p # ps). \<not> has_rexmt (pflags q)" using 2(2) by (fastforce simp: pkts_ok_def)
    then show ?thesis using 2(2) True rexmt_len_none [of "p # ps"] by (simp add: pkts_ok_def)
  next
    case False
    have IH: "pkts_ok b mx (clear_pkt_flags mx ps) 0 \<and> map pseq (clear_pkt_flags mx ps) = map pseq ps"
      by (rule 2(1) [OF False ok 2(3)]) (use 2(4) in simp)
    then have "map (off b) (map pseq (clear_pkt_flags mx ps)) = map (off b) (map pseq ps)" by simp
    then have m: "map (\<lambda>p. off b (pseq p)) (clear_pkt_flags mx ps) = map (\<lambda>p. off b (pseq p)) ps" by (simp add: comp_def)
    then have "set (map (\<lambda>p. off b (pseq p)) (clear_pkt_flags mx ps)) = set (map (\<lambda>p. off b (pseq p)) ps)" by simp
    then have "\<forall>q \<in> set (clear_pkt_flags mx ps). off b (pseq p) \<le> off b (pseq q)" using 2(2) by (force simp: pkts_ok_def)
    with IH False show ?thesis by (simp add: pkts_ok_def)
  qed
qed

lemma clear_snd_buf_flags_tx: "tx_ok b G H sh A s \<Longrightarrow> tx_ok b G H sh A (clear_snd_buf_flags s)"
proof -
  assume ok: "tx_ok b G H sh A s"
  let ?sb = "(snd_buf s)\<lparr>m_pkts := clear_pkt_flags (m_snd_max s) (m_pkts (snd_buf s))\<rparr>"
  have "buf_wf ?sb" using tx_ok_wf [OF ok] by (auto simp: buf_wf_def dest: clear_pkt_flags_pkt_ok)
  then have "tx_ok b G H sh A (s\<lparr>snd_buf := ?sb, m_retrans_data := 0\<rparr>)"
    by (rule tx_ok_pkts [OF ok]) (use clear_pkt_flags_ok in \<open>simp_all add: clear_pkt_flags_tx\<close>)
  then show ?thesis unfolding clear_snd_buf_flags_def .
qed

lemma timer_expired_tx: "tx_ok b G H sh tx_states s \<Longrightarrow> tx_ok b G H sh tx_states (timer_expired iv tick t s)"
proof -
  assume ok: "tx_ok b G H sh tx_states s"
  have f: "tx_ok b G H sh tx_states u" if "both u = both s" for u by (rule tx_okI [OF ok that])
  show ?thesis
  proof (cases t)
    case TCPT_REXMT
    define u where "u = rexmt_backoff (s\<lparr>m_rxtshift := to_i16 (m_rxtshift s + 1)\<rparr>)"
    define v where "v = handle_packet_lost tick (u\<lparr>m_snd_fack := m_snd_una u, m_snd_nxt := m_snd_una u, m_rtt := 0\<rparr>)"
    have "m_snd_una u = m_snd_una s" "m_snd_max u = m_snd_max s" "flag u TF_SENTFIN = flag s TF_SENTFIN"
        "pending_data u = pending_data s" "m_retrans_data u = m_retrans_data s"
      by (simp_all add: u_def rexmt_backoff_def Let_def set_timer_def)
    then have "tx_ok b G H sh tx_states v"
      by (intro tx_okI [OF tx_ok_una [OF ok]]) (simp add: v_def u_def rexmt_backoff_def Let_def)
    then have "tx_ok b G H sh tx_states (snd (cb_output iv (clear_snd_buf_flags v)))"
      by (intro cb_output_tx clear_snd_buf_flags_tx)
    moreover have "tx_ok b G H sh tx_states (cb_drop iv e (s\<lparr>m_rxtshift := k\<rparr>))" for e k by (rule cb_drop_tx) (simp add: f)
    ultimately show ?thesis by (simp add: TCPT_REXMT timer_expired_def timo_rexmt_def Let_def u_def v_def)
  next
    case TCPT_PERSIST
    have "tx_ok b G H sh tx_states (validate_first_pkt (enter_persist s))" by (rule validate_first_pkt_tx) (simp add: f)
    then have "tx_ok b G H sh tx_states ((validate_first_pkt (enter_persist s))\<lparr>m_force := True\<rparr>)" by (rule tx_okI) simp
    then have "tx_ok b G H sh tx_states (snd (cb_output iv ((validate_first_pkt (enter_persist s))\<lparr>m_force := True\<rparr>)))"
      by (rule cb_output_tx)
    then show ?thesis
      by (rule tx_okI) (simp add: TCPT_PERSIST timer_expired_def timo_persist_def Let_def)
  next
    case TCPT_KEEP
    have "tx_ok b G H sh tx_states (respond x (m_snd_una s - 1) TH_ACK s)" for x
      by (rule respond_tx [OF ok]) (simp_all add: has_syn_def has_fin_def has_flag_def udt_const)
    then have "tx_ok b G H sh tx_states (set_timer TCPT_KEEP k (respond x (m_snd_una s - 1) TH_ACK s))" for k x by (rule tx_okI) simp
    moreover have "tx_ok b G H sh tx_states (set_timer TCPT_KEEP k s)" for k by (simp add: f)
    ultimately show ?thesis by (simp add: TCPT_KEEP timer_expired_def timo_keep_def cb_drop_tx [OF ok])
  next
    case TCPT_2MSL
    show ?thesis by (simp add: TCPT_2MSL timer_expired_def timo_2msl_def cb_drop_tx [OF ok])
  qed
qed

lemma tick_timer_tx: "tx_ok b G H sh tx_states s \<Longrightarrow> tx_ok b G H sh tx_states (tick_timer iv tick t s)"
proof -
  assume ok: "tx_ok b G H sh tx_states s"
  have "tx_ok b G H sh tx_states (set_timer t v s)" for v by (rule tx_okI [OF ok]) simp
  with ok show ?thesis by (simp add: tick_timer_def Let_def timer_expired_tx)
qed

lemma handle_slow_timo_tx: "tx_ok b G H sh tx_states s \<Longrightarrow> tx_ok b G H sh tx_states (handle_slow_timo iv tick s)"
proof -
  assume "tx_ok b G H sh tx_states s"
  then have "tx_ok b G H sh tx_states (fold (tick_timer iv tick) all_timers s)" by (simp add: all_timers_def tick_timer_tx)
  then show ?thesis by (rule tx_okI) (simp add: handle_slow_timo_def Let_def)
qed

lemma handle_fast_timo_tx: "tx_ok b G H sh tx_states s \<Longrightarrow> tx_ok b G H sh tx_states (handle_fast_timo iv s)"
proof -
  assume ok: "tx_ok b G H sh tx_states s"
  have "tx_ok b G H sh tx_states (set_flags TF_ACKNOW (clear_flags TF_DELACK s))" by (rule tx_okI [OF ok]) simp
  with ok show ?thesis by (simp add: handle_fast_timo_def cb_output_tx)
qed

lemma handle_receive_tx:
  assumes ok: "tx_ok b G H sh tx_states s" and run: "handle_receive iv tick e ep bytes s = Some t"
  shows "tx_ok b G H sh tx_states t"
proof -
  have f: "tx_ok b G H sh tx_states u" if "both u = both s" for u by (rule tx_okI [OF ok that])
  have r: "both (do_receive u) = both u" for u by (simp add: do_receive_def)
  show ?thesis
  proof (cases "next_layer s \<and> \<not> is_error e \<and> ep = peer_ep s")
    case False
    have "tx_ok b G H sh tx_states (on_disconnected iv (s\<lparr>rcv_pkt := False\<rparr>))" by (rule on_disconnected_tx) (simp add: f)
    with run False show ?thesis by (auto simp: handle_receive_def Let_def f r split: if_splits)
  next
    case True
    then obtain c v where v: "cb_input iv tick bytes (s\<lparr>remote_ep := ep\<rparr>) = Some (c, v)"
      and t: "t = do_receive (if c then v\<lparr>rcv_pkt := False\<rparr> else v)"
      using run by (auto simp: handle_receive_def bind_eq_Some_conv)
    have "tx_ok b G H sh tx_states v" by (rule cb_input_tx [OF _ v]) (simp add: f)
    then show ?thesis by (rule tx_okI) (simp add: t r)
  qed
qed

lemma handle_mtu_tx: "tx_ok b G H sh A s \<Longrightarrow> tx_ok b G H sh A (handle_mtu s)"
proof -
  assume ok: "tx_ok b G H sh A s"
  have m: "tx_ok b G H sh A (u\<lparr>m_maxseg := s_mss\<rparr>)" if "both u = both s" for u
  proof -
    have "tx_ok b G H sh A u" by (rule tx_okI [OF ok that])
    then obtain got F where a: "tx_side H sh u" "since G (got, F, flag u TF_SENTFIN)" "tx_at b H sh A got F u" by (rule tx_okE)
    have "tx_at b H sh A got F (u\<lparr>m_maxseg := s_mss\<rparr>)"
      using a(3) by (auto simp: tx_at_def tx_stream_def tx_view_def s_mss_def MAX_ALL_HEADERS_SIZE_def MAX_HEADER_SIZE_def)
    moreover have "tx_side H sh (u\<lparr>m_maxseg := s_mss\<rparr>)" using a(1) by (simp add: tx_side_def)
    ultimately show ?thesis using a(2) unfolding tx_ok_iff by auto
  qed
  have "set_mtu 1006 u = u\<lparr>m_maxseg := s_mss\<rparr>" for u
    by (simp add: set_mtu_def s_mss_eq) (simp add: udt_const)
  then show ?thesis using ok by (simp add: handle_mtu_def Let_def m)
qed

lemma setsockopt_tx:
  "tx_ok b G H sh A s \<Longrightarrow> proper_event s (Set_option opt v) \<Longrightarrow> tx_ok b G H sh A (snd (setsockopt opt v s))"
proof (cases opt)
  case Opt_snd_buf
  assume ok: "tx_ok b G H sh A s" and p: "proper_event s (Set_option opt v)"
  have "buf_wf (set_hiwat v (snd_buf s))"
    using tx_ok_wf [OF ok] p by (simp add: Opt_snd_buf buf_wf_def set_hiwat_def)
  then have "tx_ok b G H sh A (s\<lparr>snd_buf := set_hiwat v (snd_buf s), m_retrans_data := m_retrans_data s\<rparr>)"
    by (rule tx_ok_pkts [OF ok]) (simp_all add: set_hiwat_def)
  then show ?thesis by (simp add: Opt_snd_buf setsockopt_def)
qed (auto simp: setsockopt_def elim: tx_okI)

lemma tx_socket_step:
  assumes ok: "tx_ok b G H sh tx_states s" and st: "socket_step iv s e = Some t" and ev: "tx_allowed H sh e" "proper_event s e"
  shows "tx_ok b G (H @ sends e) (sh \<or> shuts e) tx_states t"
proof (cases e)
  case (Send cbuf h)
  with ev(1) have "\<not> sh" "length (concat (H @ [cbuf_bytes cbuf])) < 2 ^ 32" by (simp_all add: tx_allowed_def)
  with st ok async_send_tx [of b G H s cbuf iv h] Send show ?thesis by simp
next
  case (Shutdown h)
  with st ev(1) async_shutdown_tx [OF ok, of iv h] show ?thesis by (simp add: tx_allowed_def)
next
  case (Set_option opt v)
  with st setsockopt_tx [OF ok, of opt v] ev show ?thesis by auto
qed (use st ev ok in \<open>auto simp: tx_allowed_def async_receive_tx cancel_tx handle_mtu_tx handle_fast_timo_tx handle_slow_timo_tx
    intro: tx_okI [OF ok] handle_receive_tx [OF ok] split: if_splits\<close>)

lemma tx_step_extends:
  "tx_ok b G H sh tx_states s \<Longrightarrow> tx_step iv (H, sh, s) e = Some (K, sh', t) \<Longrightarrow> tx_ok b G K sh' tx_states t"
  by (auto simp: tx_step_def proper_step_def dest: tx_socket_step split: if_splits)

lemma tx_step_ok: "tx_machine_ok b Hs \<Longrightarrow> tx_step iv Hs e = Some Ht \<Longrightarrow> tx_machine_ok b Ht"
  by (cases Hs, cases Ht) (auto simp: tx_machine_ok_def intro: tx_step_extends)

interpretation tx: machine "tx_start b" "tx_step iv" "tx_machine_ok b" for b iv
  by unfold_locales (fact tx_start_ok, fact tx_step_ok)

text \<open>The bytes accepted from the user, by the place of the next one.\<close>

lemma tx_at_accepted: "tx_at b H sh A got F s \<Longrightarrow> length (concat got) = off b (m_seq (snd_buf s))"
  by (auto simp: tx_at_def tx_stream_def tx_view_def off_of_nat)

lemma tx_at_datagrams:
  "tx_at b H sh A got F s \<Longrightarrow> short H \<Longrightarrow> \<forall>d \<in> set (datagrams s). stream_datagram b (concat got) F d \<and> length d \<le> 978"
  by (auto simp: tx_at_def tx_stream_def tx_view_def tx_datagram_def stream_datagram_def MAX_HEADER_SIZE_def)

section \<open>Properties\<close>

text \<open>C4. The sender's half of reliable delivery. From an established connection whose numbers
  start at \<open>b\<close>, through any events, the user's shutdown included, there are buffers \<open>got\<close>
  among those he handed to \<open>async_send\<close>, in his order, and exactly the bytes the socket has
  accepted, such that every datagram emitted (first transmission, retransmission, probe,
  acknowledgement, reset) carries either no data or the bytes of the concatenated \<open>got\<close> that
  belong at its sequence number, a SYN only without data and before them (those of the handshake),
  and a FIN only after the user has shut down, when the queue is empty, right behind the last of
  all the bytes; and it has at most 978 bytes.\<close>

theorem sender_sends_stream:
  assumes "tx_start b ([], False, s)" and "run (tx_step iv) ([], False, s) es = Some (H, sh, t)"
  shows "\<exists>got F. subseq (got @ map op_bytes (send_ops t)) H \<and> length (concat got) = off b (m_seq (snd_buf t)) \<and>
    (F \<longrightarrow> sh \<and> send_ops t = []) \<and>
    (\<forall>d \<in> set (datagrams t). carries b (concat got) F (parse_datagram d) \<and> length d \<le> 978)"
proof -
  have "tx_ok b outset H sh tx_states t" using tx.run_inv [OF assms] by (simp add: tx_machine_ok_def)
  then obtain got F where a: "tx_at b H sh tx_states got F t" by (rule tx_okE)
  then have "\<forall>d \<in> set (datagrams t). carries b (concat got) F (parse_datagram d) \<and> length d \<le> 978"
    by (auto simp: tx_at_def tx_stream_def tx_view_def tx_datagram_def MAX_HEADER_SIZE_def)
  with a tx_at_accepted [OF a] show ?thesis by (auto simp: tx_at_def)
qed

lemma example_tx_start: "tx_start 0 ([], False, example_socket)"
  by (simp add: tx_start_def example_socket_def create_def udt_socket_init_def cb_init_def flag_def has_flag_def
      canceltimers_def set_timer_def emit_def datagrams_def open_states_def udt_snd_buf_init_def Let_def)

text \<open>Three bytes, then the shutdown.\<close>

definition example_ending :: "socket_event list" where
  "example_ending = [Send \<lparr>cbuf_null = False, cbuf_bytes = [1, 2, 3]\<rparr> 9, Shutdown 8]"

lemma example_ending_run:
  "\<exists>t. run (tx_step (\<lambda>_. 0)) ([], False, example_socket) example_ending = Some ([[1, 2, 3]], True, t)"
  by (simp add: example_ending_def tx_step_def tx_allowed_def proper_step_def short_def)

theorem sender_sends_stream_witness:
  "\<exists>t. run (tx_step (\<lambda>_. 0)) ([], False, example_socket) example_ending = Some ([[1, 2, 3]], True, t) \<and>
     (\<exists>got F. subseq (got @ map op_bytes (send_ops t)) [[1, 2, 3]] \<and>
        (\<forall>d \<in> set (datagrams t). carries 0 (concat got) F (parse_datagram d) \<and> length d \<le> 978))"
proof -
  from example_ending_run obtain t where
    t: "run (tx_step (\<lambda>_. 0)) ([], False, example_socket) example_ending = Some ([[1, 2, 3]], True, t)" by blast
  from sender_sends_stream [OF example_tx_start t] t show ?thesis by blast
qed

end
