(* ===== verification/Udt_Network.thy ===== *)
theory Udt_Network
  imports Udt_Sender
begin

text \<open>
  Two sockets joined by an unreliable network. Each is a socket of \<open>Udt_Socket\<close> whose user sends,
  receives and shuts down; the network may lose, delay, repeat and reorder datagrams, but what it
  hands to one socket as coming from its peer is a datagram the peer has emitted. The direction
  from one socket to the other is the sender's machine of \<open>Udt_Sender\<close> in front of the receiver's
  machine of \<open>Udt_Receive\<close>; every step of a socket is a step of both directions at once.
\<close>

section \<open>The closed system\<close>

record network =
  submitted_a :: "u8 list list"
  shut_a :: bool
  sock_a :: udt_socket
  submitted_b :: "u8 list list"
  shut_b :: bool
  sock_b :: udt_socket

datatype net_event = At_a socket_event | At_b socket_event

text \<open>
  \<open>carried s r e\<close>: the event \<open>e\<close> at the socket \<open>r\<close> is possible when \<open>s\<close> is its peer. A datagram that
  comes from the peer's address is one the peer has emitted; datagrams from other addresses are
  arbitrary. A datagram the peer emits always fits into the receive packet, so the cut at
  \<open>rcv_capacity\<close> loses nothing.
\<close>

fun carried :: "udt_socket \<Rightarrow> udt_socket \<Rightarrow> socket_event \<Rightarrow> bool" where
  "carried s r (Datagram e ep bytes tick_count) \<longleftrightarrow>
     is_error e \<or> ep \<noteq> peer_ep r \<or> bytes \<in> set (datagrams s)"
| "carried s r e \<longleftrightarrow> True"

fun net_step :: "indet \<Rightarrow> indet \<Rightarrow> network \<Rightarrow> net_event \<Rightarrow> network option" where
  "net_step iva ivb n (At_a e) =
     (if carried (sock_b n) (sock_a n) e
      then map_option (\<lambda>(H, sh, s). n\<lparr>submitted_a := H, shut_a := sh, sock_a := s\<rparr>)
        (tx_step iva (submitted_a n, shut_a n, sock_a n) e)
      else None)"
| "net_step iva ivb n (At_b e) =
     (if carried (sock_a n) (sock_b n) e
      then map_option (\<lambda>(H, sh, s). n\<lparr>submitted_b := H, shut_b := sh, sock_b := s\<rparr>)
        (tx_step ivb (submitted_b n, shut_b n, sock_b n) e)
      else None)"

text \<open>
  Both sockets are established and agree on the sequence number each direction starts with;
  nothing has been sent or delivered yet.
\<close>

definition joined :: "udt_seq \<Rightarrow> udt_socket \<Rightarrow> udt_socket \<Rightarrow> bool" where
  "joined b s r \<longleftrightarrow> tx_start b ([], False, s) \<and> rx_start b [] False r"

definition net_start :: "udt_seq \<Rightarrow> udt_seq \<Rightarrow> network \<Rightarrow> bool" where
  "net_start ba bb n \<longleftrightarrow> submitted_a n = [] \<and> submitted_b n = [] \<and> \<not> shut_a n \<and> \<not> shut_b n \<and>
     joined ba (sock_a n) (sock_b n) \<and> joined bb (sock_b n) (sock_a n)"

section \<open>One direction\<close>

text \<open>
  The bytes the sender \<open>s\<close> has accepted are the stream of its datagrams and the stream the
  receiver \<open>r\<close> assembles, and both agree on whether it has ended.
\<close>

definition direction_ok :: "udt_seq \<Rightarrow> u8 list list \<Rightarrow> bool \<Rightarrow> udt_socket \<Rightarrow> udt_socket \<Rightarrow> bool" where
  "direction_ok b H sh s r \<longleftrightarrow> tx_side H sh s \<and>
     (\<exists>got F. tx_at b H sh tx_states got F s \<and> rx_ok b (concat got) F 2 r)"

lemma rx_ok_grow:
  assumes ok: "rx_ok b (concat got) F 2 r" and more: "since (got, F, z) (got', F', z')"
    and len: "length (concat got') < 2 ^ 32" "F' \<Longrightarrow> length (concat got') + 4 < 2 ^ 31"
  shows "rx_ok b (concat got') F' 2 r"
proof (cases F)
  case True
  with more ok show ?thesis by (simp add: since_def)
next
  case False
  obtain rest where g: "concat got' = concat got @ rest" using more by (auto simp: since_def prefix_def)
  from ok False obtain n where "n \<le> length (concat got)" "rx_at b (concat got) False n 0 (rx_view r)"
      "rx_inv b (concat got) False 2 (rx_view r)"
    by (auto simp: rx_ok_def rx_inv_def rx_at_def split: prod.splits)
  then have "rx_at b (concat got') F' n 0 (rx_view r)" by (auto simp: g rx_at_def split: prod.splits)
  then show ?thesis
    using ok len unfolding rx_ok_tuple rx_inv_def prod.case
    by (intro conjI exI [of _ n] exI [of _ 0]) (auto simp: False g rx_view_def intro: in_stream_end [OF in_stream_mono])
qed

lemma tx_at_end_short:
  assumes "tx_at b H sh A got F s" and "tx_side H sh s" and "F"
  shows "short H" "length (concat got) + 4 < 2 ^ 31"
proof -
  show h: "short H" using assms by (auto simp: tx_at_def tx_side_def)
  show "length (concat got) + 4 < 2 ^ 31" using tx_at_len [OF assms(1)] h by (simp add: short_def)
qed

lemma joined_direction: "joined b s r \<Longrightarrow> direction_ok b [] False s r"
proof -
  assume j: "joined b s r"
  have "tx_side [] False s \<and> tx_at b [] False tx_states [] False s" using j by (intro tx_start_at) (simp add: joined_def)
  moreover have "rx_ok b [] False 2 r" using j rx_start_ok by (simp add: joined_def)
  ultimately show ?thesis unfolding direction_ok_def by (intro conjI exI [of _ "[]"] exI [of _ False]) simp_all
qed

lemma direction_sender_step:
  assumes ok: "direction_ok b H sh s r" and st: "tx_step iv (H, sh, s) e = Some (K, sh', t)"
  shows "direction_ok b K sh' t r"
proof -
  from ok obtain got F where d: "tx_side H sh s" "tx_at b H sh tx_states got F s" "rx_ok b (concat got) F 2 r"
    by (auto simp: direction_ok_def)
  have "tx_ok b (got, F, flag s TF_SENTFIN) H sh tx_states s" using d(1,2) since_refl unfolding tx_ok_iff by blast
  from tx_step_extends [OF this st] obtain got' F' where
    g: "tx_side K sh' t" "since (got, F, flag s TF_SENTFIN) (got', F', flag t TF_SENTFIN)" "tx_at b K sh' tx_states got' F' t"
    by (rule tx_okE)
  have "length (concat got') < 2 ^ 32" using g(3) by (simp add: tx_at_def tx_stream_def tx_view_def)
  with rx_ok_grow [OF d(3) g(2)] tx_at_end_short [OF g(3,1)] have "rx_ok b (concat got') F' 2 r" by blast
  with g show ?thesis by (auto simp: direction_ok_def)
qed

lemma direction_receiver_step:
  assumes ok: "direction_ok b H sh s r" and r: "m_state r \<in> tx_states" and c: "carried s r e" and st: "tx_step iv (K, sh', r) e = Some (L, sh'', u)"
  shows "direction_ok b H sh s u"
proof -
  from ok obtain got F where d: "tx_side H sh s" "tx_at b H sh tx_states got F s" "rx_ok b (concat got) F 2 r"
    by (auto simp: direction_ok_def)
  have w: "\<forall>x \<in> set (datagrams s). stream_datagram b (concat got) F (take rcv_capacity x)"
    using d(2) tx_at_end_short [OF d(2,1)]
    by (auto simp: tx_at_def tx_stream_def tx_view_def tx_datagram_def stream_datagram_def udt_const)
  have e: "tx_event e" "proper_step iv r e = Some u"
    using st by (auto simp: tx_step_def tx_allowed_def split: if_splits)
  have "synced (m_state r)" using r by (auto simp: synced_def state_sets)
  then have "rx_event b (concat got) F r e" using e(1) c w by (cases e) auto
  with e(2) have "rx_step iv b (concat got) F r e = Some u" by (simp add: rx_step_def)
  from rx_step_ok [OF d(3) this] show ?thesis using d by (auto simp: direction_ok_def)
qed

section \<open>The invariant of the network\<close>

definition net_ok :: "udt_seq \<Rightarrow> udt_seq \<Rightarrow> network \<Rightarrow> bool" where
  "net_ok ba bb n \<longleftrightarrow> direction_ok ba (submitted_a n) (shut_a n) (sock_a n) (sock_b n) \<and>
     direction_ok bb (submitted_b n) (shut_b n) (sock_b n) (sock_a n)"

lemma net_start_ok: "net_start ba bb n \<Longrightarrow> net_ok ba bb n"
  by (auto simp: net_start_def net_ok_def joined_direction)

lemma direction_state: "direction_ok b H sh s r \<Longrightarrow> m_state s \<in> tx_states"
  by (auto simp: direction_ok_def tx_at_def tx_stream_def tx_view_def)

lemma net_step_ok: "net_ok ba bb n \<Longrightarrow> net_step iva ivb n e = Some m \<Longrightarrow> net_ok ba bb m"
  by (cases e) (auto simp: net_ok_def split: if_splits intro: direction_sender_step
    direction_receiver_step [OF _ direction_state])

interpretation net: machine "net_start ba bb" "net_step iva ivb" "net_ok ba bb" for ba bb iva ivb
  by unfold_locales (fact net_start_ok, fact net_step_ok)

text \<open>What one direction promises its receiver, at any moment and at the end.\<close>

definition received :: "udt_socket \<Rightarrow> u8 list" where
  "received r = delivered r @ payload (m_pkts (rcv_buf r))"

lemma direction_delivers:
  assumes "direction_ok b H sh s r"
  shows "\<exists>got. subseq (got @ map op_bytes (send_ops s)) H \<and> length (concat got) = off b (m_seq (snd_buf s)) \<and>
    prefix (received r) (concat got)"
proof -
  from assms obtain got F where d: "tx_at b H sh tx_states got F s" "rx_ok b (concat got) F 2 r"
    by (auto simp: direction_ok_def)
  have "\<exists>k. received r = take k (concat got)" using d(2) by (auto simp: rx_ok_tuple rx_inv_def rx_at_def received_def)
  then have "prefix (received r) (concat got)" using take_is_prefix by metis
  with d(1) tx_at_accepted [OF d(1)] show ?thesis by (auto simp: tx_at_def)
qed

lemma direction_ends:
  assumes "direction_ok b H sh s r" and "eof_known r"
  shows "sh \<and> send_ops s = [] \<and>
    (\<exists>got. subseq got H \<and> length (concat got) = off b (m_seq (snd_buf s)) \<and> received r = concat got)"
proof -
  from assms(1) obtain got F where d: "tx_at b H sh tx_states got F s" "rx_ok b (concat got) F 2 r"
    by (auto simp: direction_ok_def)
  from rx_ok_eof [OF d(2) assms(2)] have "F" "received r = concat got" by (auto simp: received_def)
  with d(1) tx_at_accepted [OF d(1)] show ?thesis by (auto simp: tx_at_def)
qed

section \<open>An exchange\<close>

text \<open>
  Three bytes and the end: the user of the first socket sends them and shuts down, the datagrams
  with the bytes and with the FIN reach the second socket, whose user waits for four bytes.
\<close>

definition example_net :: network where
  "example_net = \<lparr>submitted_a = [], shut_a = False, sock_a = example_socket,
     submitted_b = [], shut_b = False, sock_b = example_socket\<rparr>"

definition example_shut :: udt_socket where
  "example_shut = async_shutdown (\<lambda>_. 0) 8
     (async_send (\<lambda>_. 0) \<lparr>cbuf_null = False, cbuf_bytes = [1, 2, 3]\<rparr> 9 example_socket)"

definition example_waiting :: udt_socket where
  "example_waiting = async_receive (\<lambda>_. 0) \<lparr>mbuf_null = False, mbuf_size = 4\<rparr> 7 example_socket"

definition example_wire :: "u8 list" where
  "example_wire = [0, 16, 0, 0, 0, 3, 0, 26, 0, 0, 0, 0, 0, 0, 0, 0, 0, 0, 0, 0, 6, 6, 0, 0, 28, 176, 1, 2, 3]"

definition example_fin :: "u8 list" where
  "example_fin = [0, 17, 128, 0, 0, 0, 0, 26, 0, 0, 0, 3, 0, 0, 0, 0, 0, 0, 0, 0, 6, 6, 0, 0, 28, 176]"

definition example_goodbye :: "net_event list" where
  "example_goodbye =
     [At_a (Send \<lparr>cbuf_null = False, cbuf_bytes = [1, 2, 3]\<rparr> 9), At_a (Shutdown 8),
      At_b (Receive \<lparr>mbuf_null = False, mbuf_size = 4\<rparr> 7),
      At_b (Datagram no_error \<lparr>ep_addr = 0, ep_port = 0\<rparr> example_wire 0),
      At_b (Datagram no_error \<lparr>ep_addr = 0, ep_port = 0\<rparr> example_fin 0)]"

lemma example_shut_datagrams:
  "datagrams example_shut =
     [example_wire, [0, 16, 128, 0, 0, 0, 0, 26, 0, 0, 0, 3, 0, 0, 0, 0, 0, 0, 0, 0, 6, 6, 0, 0, 28, 176], example_fin]"
  by code_simp

lemma example_ends:
  "map_option (\<lambda>s. (delivered s, eof_known s)) (Option.bind
     (handle_receive (\<lambda>_. 0) 0 no_error \<lparr>ep_addr = 0, ep_port = 0\<rparr> example_wire example_waiting)
     (handle_receive (\<lambda>_. 0) 0 no_error \<lparr>ep_addr = 0, ep_port = 0\<rparr> example_fin)) = Some ([1, 2, 3], True)"
  by code_simp

lemma example_joined: "joined 0 example_socket example_socket"
  by (simp add: joined_def tx_start_def rx_start_def eof_known_def eof_told_def flag_def has_flag_def example_socket_def
      create_def udt_socket_init_def cb_init_def canceltimers_def set_timer_def emit_def delivered_def datagrams_def buf_wf_def
      open_states_def udt_rcv_buf_init_def udt_snd_buf_init_def Let_def)

lemma example_net_start: "net_start 0 0 example_net"
  by (simp add: net_start_def example_net_def example_joined)

lemma example_goodbye_run:
  "\<exists>m. run (net_step (\<lambda>_. 0) (\<lambda>_. 0)) example_net example_goodbye = Some m \<and>
     submitted_a m = [[1, 2, 3]] \<and> eof_known (sock_b m) \<and> delivered (sock_b m) = [1, 2, 3]"
proof -
  obtain u v where u: "handle_receive (\<lambda>_. 0) 0 no_error \<lparr>ep_addr = 0, ep_port = 0\<rparr> example_wire example_waiting = Some u"
      "handle_receive (\<lambda>_. 0) 0 no_error \<lparr>ep_addr = 0, ep_port = 0\<rparr> example_fin u = Some v"
      "delivered v = [1, 2, 3]" "eof_known v"
    using example_ends by (auto simp: bind_eq_Some_conv)
  have w: "example_wire \<in> set (datagrams example_shut)" "example_fin \<in> set (datagrams example_shut)"
    by (simp_all add: example_shut_datagrams)
  have l: "length example_wire = 29" "length example_fin = 26" by (simp_all add: example_wire_def example_fin_def)
  show ?thesis
    using u w l by (simp add: example_goodbye_def example_net_def tx_step_def tx_allowed_def proper_step_def short_def
        example_shut_def [symmetric] example_waiting_def [symmetric] udt_const)
qed

section \<open>Properties\<close>

text \<open>C1. Two connected sockets over a network that loses, delays, repeats and reorders
  datagrams: at every moment, in both directions at once, what one user has received, followed
  by what is buffered for him, is a prefix of the bytes the other socket has accepted, and these
  are whole buffers the other user handed to \<open>async_send\<close>, in the order he did, with what is
  still queued behind them.\<close>

theorem end_to_end:
  assumes "net_start ba bb n" and "run (net_step iva ivb) n es = Some m"
  shows "(\<exists>got. subseq (got @ map op_bytes (send_ops (sock_a m))) (submitted_a m) \<and>
      length (concat got) = off ba (m_seq (snd_buf (sock_a m))) \<and> prefix (received (sock_b m)) (concat got)) \<and>
    (\<exists>got. subseq (got @ map op_bytes (send_ops (sock_b m))) (submitted_b m) \<and>
      length (concat got) = off bb (m_seq (snd_buf (sock_b m))) \<and> prefix (received (sock_a m)) (concat got))"
  using net.run_inv [OF assms] direction_delivers unfolding net_ok_def by blast

theorem end_to_end_witness:
  "\<exists>m. run (net_step (\<lambda>_. 0) (\<lambda>_. 0)) example_net example_goodbye = Some m \<and> delivered (sock_b m) = [1, 2, 3] \<and>
     (\<exists>got. subseq got [[1, 2, 3 :: u8]] \<and> prefix [1, 2, 3] (concat got))"
proof -
  obtain m where m: "run (net_step (\<lambda>_. 0) (\<lambda>_. 0)) example_net example_goodbye = Some m"
      "submitted_a m = [[1, 2, 3]]" "delivered (sock_b m) = [1, 2, 3]"
    using example_goodbye_run by blast
  note e = conjunct1 [OF end_to_end [OF example_net_start m(1)], unfolded m(2)]
  obtain got where g: "subseq (got @ map op_bytes (send_ops (sock_a m))) [[1, 2, 3]]" "prefix (received (sock_b m)) (concat got)"
    using e by (elim exE conjE) (rule that)
  have "prefix [1, 2, 3] (concat got)" by (rule append_prefixD) (use g(2) m(3) in \<open>simp add: received_def\<close>)
  with m subseq_append_front [OF g(1)] show ?thesis by blast
qed

text \<open>C2. End of stream is the truth: when a socket knows the end of its peer's stream (a receive
  operation was told eof, or the next one will be), the peer's user has shut down, the peer
  has nothing queued, and what was delivered here, followed by what is buffered, is all the bytes
  the peer has ever accepted: nothing is missing at the end.\<close>

theorem end_of_stream:
  assumes "net_start ba bb n" and "run (net_step iva ivb) n es = Some m"
  shows "(eof_known (sock_b m) \<longrightarrow> shut_a m \<and> send_ops (sock_a m) = [] \<and>
      (\<exists>got. subseq got (submitted_a m) \<and> length (concat got) = off ba (m_seq (snd_buf (sock_a m))) \<and>
        received (sock_b m) = concat got)) \<and>
    (eof_known (sock_a m) \<longrightarrow> shut_b m \<and> send_ops (sock_b m) = [] \<and>
      (\<exists>got. subseq got (submitted_b m) \<and> length (concat got) = off bb (m_seq (snd_buf (sock_b m))) \<and>
        received (sock_a m) = concat got))"
  using net.run_inv [OF assms] direction_ends unfolding net_ok_def by blast

theorem end_of_stream_witness:
  "\<exists>m. run (net_step (\<lambda>_. 0) (\<lambda>_. 0)) example_net example_goodbye = Some m \<and> eof_known (sock_b m) \<and>
     shut_a m \<and> (\<exists>got. subseq got [[1, 2, 3]] \<and> received (sock_b m) = concat got)"
proof -
  obtain m where m: "run (net_step (\<lambda>_. 0) (\<lambda>_. 0)) example_net example_goodbye = Some m"
      "submitted_a m = [[1, 2, 3]]" "eof_known (sock_b m)"
    using example_goodbye_run by blast
  note e = mp [OF conjunct1 [OF end_of_stream [OF example_net_start m(1)]] m(3), unfolded m(2)]
  obtain got where g: "shut_a m" "subseq got [[1, 2, 3]]" "received (sock_b m) = concat got"
    using e by (elim exE conjE) (rule that)
  show ?thesis by (intro exI conjI) (fact m(1,3) g)+
qed

end
