(* ===== verification/Udt_Handshake.thy ===== *)
theory Udt_Handshake
  imports Udt_Network
begin

text \<open>
  Two sockets from their construction to the moment \<open>Udt_Network\<close> starts from: the world in which
  any event may happen to either, with datagrams of the peer only among those it has emitted; and
  the three datagrams of a handshake in it.
\<close>

section \<open>The world\<close>




section \<open>The handshake\<close>











section \<open>What it leaves\<close>





section \<open>Properties\<close>


end
