(* ===== verification/Udt_Segments.thy ===== *)
theory Udt_Segments
  imports Udt_Receive "HOL-Library.Sublist" "HOL-Library.Multiset"
begin

text \<open>
  What the routines of \<open>udt_cb_input.cpp\<close> that move packets between the buffers do, as
  functions of the buffers: reassembly, the fast path, acknowledged and selectively
  acknowledged data, the receive window.
\<close>

section \<open>The reassembly queue\<close>

text \<open>
  The queue in ascending order of the distances from a base \<open>b\<close>, all within half the circle,
  as the receive window guarantees.
\<close>

definition reasm_sorted :: "udt_seq \<Rightarrow> udt_packet list \<Rightarrow> bool" where
  "reasm_sorted b q \<longleftrightarrow> (\<forall>p \<in> set q. in_window b (pseq p)) \<and> sorted_wrt (\<lambda>p r. off b (pseq p) < off b (pseq r)) q"

lemma reasm_insert_cases:
  assumes "reasm_sorted b q" and "in_window b (pseq pkt)"
  shows "case reasm_insert pkt q of
      None \<Rightarrow> \<exists>p \<in> set q. pseq p = pseq pkt
    | Some r \<Rightarrow> reasm_sorted b r \<and> set r = insert pkt (set q) \<and> length r = length q + 1 \<and> (\<forall>p \<in> set q. pseq p \<noteq> pseq pkt)"
  using assms
proof (induction q)
  case Nil
  then show ?case by (simp add: reasm_sorted_def)
next
  case (Cons p q)
  then have s: "reasm_sorted b q" and p: "in_window b (pseq p)" "\<forall>r \<in> set q. off b (pseq p) < off b (pseq r)"
    by (auto simp: reasm_sorted_def)
  consider "seq_lt (pseq p) (pseq pkt)" | "pseq p = pseq pkt"
    | "off b (pseq pkt) < off b (pseq p)" "\<not> seq_lt (pseq p) (pseq pkt)" "pseq p \<noteq> pseq pkt"
    using Cons.prems(2) p(1) off_inj [of b "pseq p" "pseq pkt"] by (fastforce simp: seq_lt_off)
  then show ?case
  proof cases
    case 1
    then have "off b (pseq p) < off b (pseq pkt)" using Cons.prems(2) p(1) by (simp add: seq_lt_off)
    with 1 Cons.IH [OF s Cons.prems(2)] p show ?thesis
      by (auto simp: reasm_sorted_def split: option.splits)
  next
    case 2
    then show ?thesis using seq_lt_off [OF p(1) p(1)] by simp
  next
    case 3
    with s p Cons.prems show ?thesis by (auto simp: reasm_sorted_def off_inj)
  qed
qed

lemma merge_loop_moves:
  assumes "merge_loop ps s = (rest, t)"
  shows "\<exists>moved. ps = moved @ rest \<and> m_pkts (rcv_buf t) = m_pkts (rcv_buf s) @ moved \<and> contig (m_rcv_nxt s) moved \<and>
    m_rcv_nxt t = m_rcv_nxt s + word_of_nat (sum_len moved) \<and>
    (case rest of [] \<Rightarrow> True | p # _ \<Rightarrow> pseq p \<noteq> m_rcv_nxt t \<or> ucast (plen p) > acc (rcv_buf t)) \<and>
    m_reasm_pkts (rcv_buf t) = m_reasm_pkts (rcv_buf s) \<and> m_flags t = m_flags s"
  using assms
proof (induction ps s arbitrary: rest t rule: merge_loop.induct)
  case (1 s)
  then show ?case by simp
next
  case (2 p ps s)
  show ?case
  proof (cases "pseq p = m_rcv_nxt s \<and> fst (append_pkt p (rcv_buf s))")
    case False
    with 2(2) show ?thesis by (auto simp: append_pkt_def split: if_splits)
  next
    case True
    then obtain rb where rb: "append_pkt p (rcv_buf s) = (True, rb)" by (cases "append_pkt p (rcv_buf s)") auto
    then have f: "m_pkts rb = m_pkts (rcv_buf s) @ [p]" "m_reasm_pkts rb = m_reasm_pkts (rcv_buf s)"
      by (auto simp: append_pkt_def split: if_splits)
    have "merge_loop ps (s\<lparr>rcv_buf := rb, m_rcv_nxt := m_rcv_nxt s + ucast (plen p)\<rparr>) = (rest, t)"
      using 2(2) True rb by simp
    from 2(1) [OF _ rb [symmetric] _ this] True obtain moved where m: "ps = moved @ rest"
        "m_pkts (rcv_buf t) = m_pkts rb @ moved" "contig (m_rcv_nxt s + ucast (plen p)) moved"
        "m_rcv_nxt t = m_rcv_nxt s + ucast (plen p) + word_of_nat (sum_len moved)"
        "case rest of [] \<Rightarrow> True | p # _ \<Rightarrow> pseq p \<noteq> m_rcv_nxt t \<or> ucast (plen p) > acc (rcv_buf t)"
        "m_reasm_pkts (rcv_buf t) = m_reasm_pkts rb" "m_flags t = m_flags s"
      by auto
    show ?thesis by (rule exI [of _ "p # moved"]) (use m f True in \<open>simp add: add.assoc\<close>)
  qed
qed

lemma merge_reasm_moves:
  "\<exists>moved. m_reasm_pkts (rcv_buf s) = moved @ m_reasm_pkts (rcv_buf (merge_reasm_pkts s)) \<and>
     m_pkts (rcv_buf (merge_reasm_pkts s)) = m_pkts (rcv_buf s) @ moved"
proof -
  obtain rest t where m: "merge_loop (m_reasm_pkts (rcv_buf s)) s = (rest, t)"
    by (cases "merge_loop (m_reasm_pkts (rcv_buf s)) s")
  let ?u = "merge_reasm_pkts s"
  have u: "m_reasm_pkts (rcv_buf ?u) = rest" "m_pkts (rcv_buf ?u) = m_pkts (rcv_buf t)"
    by (simp_all add: merge_reasm_pkts_def m Let_def set_flags_def)
  from merge_loop_moves [OF m] show ?thesis unfolding u by blast
qed

lemma reasm_sorted_suffix: "reasm_sorted b (ps @ qs) \<Longrightarrow> reasm_sorted b qs"
  by (simp add: reasm_sorted_def sorted_wrt_append)

lemma reasm_insert_mset: "reasm_insert pkt q = Some r \<Longrightarrow> mset r = add_mset pkt (mset q)"
  by (induction q arbitrary: r) (auto split: if_splits)

section \<open>The receive window\<close>

lemma accepted_len:
  assumes "drop_out_of_rcv_wnd_packet pkt s = (False, t)" and "pseq pkt = m_rcv_nxt s" and "\<not> has_syn (pflags pkt)"
    and "sint (m_rcv_adv s - m_rcv_nxt s) \<le> sint (acc (rcv_buf s))" and "unat (acc (rcv_buf s)) < 2 ^ 31"
  shows "ucast (plen pkt) \<le> acc (rcv_buf t)"
proof -
  let ?a = "acc (rcv_buf s)"
  have a: "sint ?a = int (unat ?a)" using sint_off_diff [of 0 ?a 0] assms(5) by (simp add: in_window_def off_def)
  have t: "rcv_buf t = rcv_buf s" using assms(1) by (auto simp: drop_out_of_rcv_wnd_packet_def Let_def set_flags_def split: if_splits)
  have w: "word_of_int (max (if sint ?a < 0 then 0 else sint ?a) (sint (m_rcv_adv s - m_rcv_nxt s))) = ?a"
    using assms(4) a by (simp add: max_def)
  have "sint (ucast (plen pkt) - ?a) \<le> 0"
    using assms(1-3) w by (auto simp: drop_out_of_rcv_wnd_packet_def Let_def has_syn_def not_less split: if_splits)
  then have le: "seq_le (ucast (plen pkt)) ?a" by (simp add: seq_le_def)
  have "unat (ucast (plen pkt) :: u32) < 2 ^ 31" using unat_u16_less [of "plen pkt"] by (simp add: unat_ucast_16_32)
  then have "in_window 0 (ucast (plen pkt))" by (simp add: in_window_def off_def)
  moreover have "in_window 0 ?a" using assms(5) by (simp add: in_window_def off_def)
  ultimately have "off 0 (ucast (plen pkt)) \<le> off 0 ?a" using le by (simp add: seq_le_off)
  then show ?thesis by (simp add: t off_def word_le_nat_alt)
qed

section \<open>Acknowledged data\<close>

lemma drop_acked_loop_spec:
  "drop_acked_loop a ps n s = (k, t) \<Longrightarrow> m_pkts (snd_buf s) = ps \<Longrightarrow>
    m_pkts (snd_buf t) = dropWhile (\<lambda>p. \<not> seq_ge (pseq p) a) ps \<and>
    k = n + word_of_nat (sum_len (takeWhile (\<lambda>p. \<not> seq_ge (pseq p) a) ps)) \<and>
    m_cc (snd_buf t) = m_cc (snd_buf s) - (k - n) \<and>
    m_retrans_data t = m_retrans_data s -
      word_of_nat (sum_len (filter (\<lambda>p. has_rexmt (pflags p)) (takeWhile (\<lambda>p. \<not> seq_ge (pseq p) a) ps)))"
proof (induction a ps n s rule: drop_acked_loop.induct)
  case (1 a n s)
  then show ?case by simp
next
  case (2 a p ps n s)
  show ?case
  proof (cases "seq_ge (pseq p) a")
    case True
    with 2(2,3) show ?thesis by simp
  next
    case False
    let ?u = "drop_snd_pkt [] p ps s"
    have "drop_acked_loop a ps (n + ucast (plen p)) ?u = (k, t)" using 2(2) False by simp
    from 2(1) [OF False this] have u:
      "m_pkts (snd_buf t) = dropWhile (\<lambda>p. \<not> seq_ge (pseq p) a) ps"
      "k = n + ucast (plen p) + word_of_nat (sum_len (takeWhile (\<lambda>p. \<not> seq_ge (pseq p) a) ps))"
      "m_cc (snd_buf t) = m_cc (snd_buf ?u) - (k - (n + ucast (plen p)))"
      "m_retrans_data t = m_retrans_data ?u -
        word_of_nat (sum_len (filter (\<lambda>p. has_rexmt (pflags p)) (takeWhile (\<lambda>p. \<not> seq_ge (pseq p) a) ps)))"
      by simp_all
    show ?thesis
      using False u by (simp add: drop_snd_pkt_def drop_at_def Let_def algebra_simps split: if_splits)
  qed
qed

section \<open>Selectively acknowledged data\<close>

text \<open>
  A packet lies in a reported block; a list of packets after some of those that lie in the
  blocks \<open>B\<close> were dropped.
\<close>

definition in_block :: "pair_seq \<Rightarrow> udt_packet \<Rightarrow> bool" where
  "in_block pr p \<longleftrightarrow> \<not> seq_lt (pseq p) (fst pr) \<and> seq_le (pend p) (snd pr)"

definition sack_dropped :: "pair_seq set \<Rightarrow> udt_packet list \<Rightarrow> udt_packet list \<Rightarrow> bool" where
  "sack_dropped B ps qs \<longleftrightarrow> subseq qs ps \<and>
     (\<exists>gone. mset ps = mset qs + mset gone \<and> (\<forall>p \<in> set gone. \<exists>pr \<in> B. in_block pr p))"

lemma sack_dropped_refl: "sack_dropped B ps ps"
  by (auto simp: sack_dropped_def intro: exI [of _ "[]"])

lemma sack_dropped_trans: "sack_dropped B ps qs \<Longrightarrow> sack_dropped C qs rs \<Longrightarrow> B \<subseteq> D \<Longrightarrow> C \<subseteq> D \<Longrightarrow> sack_dropped D ps rs"
  unfolding sack_dropped_def
proof (elim conjE exE, intro conjI)
  fix g h
  assume q: "subseq qs ps" "subseq rs qs" and m: "mset ps = mset qs + mset g" "mset qs = mset rs + mset h"
    and b: "\<forall>p \<in> set g. \<exists>pr \<in> B. in_block pr p" "\<forall>p \<in> set h. \<exists>pr \<in> C. in_block pr p" "B \<subseteq> D" "C \<subseteq> D"
  show "subseq rs ps" using q by (metis subseq_order.trans)
  have "mset ps = mset rs + mset (h @ g)" using m by (simp add: ac_simps)
  moreover have "\<forall>p \<in> set (h @ g). \<exists>pr \<in> D. in_block pr p" using b by (fastforce simp: subset_iff)
  ultimately show "\<exists>gone. mset ps = mset rs + mset gone \<and> (\<forall>p \<in> set gone. \<exists>pr \<in> D. in_block pr p)" by blast
qed

lemma sack_dropped_one: "in_block pr p \<Longrightarrow> sack_dropped {pr} (xs @ p # ys) (xs @ ys)"
  by (auto simp: sack_dropped_def intro!: exI [of _ "[p]"] list_emb_append_mono subseq_Cons2_neq)

lemma sack_block_dropped:
  "sack_block x y pre suf s = (stop, pre', suf', t) \<Longrightarrow> m_pkts (snd_buf s) = pre @ suf \<Longrightarrow>
    m_pkts (snd_buf t) = pre' @ suf' \<and> sack_dropped {(x, y)} (pre @ suf) (pre' @ suf')"
proof (induction x y pre suf s arbitrary: stop pre' suf' t rule: sack_block.induct)
  case (1 x y pre s)
  then show ?case by (simp add: sack_dropped_refl)
next
  case (2 x y pre p ps s)
  consider "seq_lt (pseq p) x" | "\<not> seq_lt (pseq p) x" "seq_le (pend p) y" | "\<not> seq_lt (pseq p) x" "\<not> seq_le (pend p) y"
    by blast
  then show ?case
  proof cases
    case 1
    with 2(3) have "sack_block x y (pre @ [p]) ps s = (stop, pre', suf', t)" by simp
    from 2(1) [OF 1 this] 2(4) show ?thesis by simp
  next
    case k: 2
    with 2(3) have "sack_block x y pre ps (drop_snd_pkt pre p ps s) = (stop, pre', suf', t)" by simp
    from 2(2) [OF k this] have u: "m_pkts (snd_buf t) = pre' @ suf'" "sack_dropped {(x, y)} (pre @ ps) (pre' @ suf')" by simp_all
    from k have "sack_dropped {(x, y)} (pre @ p # ps) (pre @ ps)" by (intro sack_dropped_one) (simp add: in_block_def)
    from sack_dropped_trans [OF this u(2)] u(1) show ?thesis by simp
  next
    case 3
    with 2(3,4) show ?thesis by (auto simp: sack_dropped_refl)
  qed
qed

lemma sack_blocks_dropped:
  "m_pkts (snd_buf s) = pre @ suf \<Longrightarrow> sack_dropped (set prs) (pre @ suf) (m_pkts (snd_buf (sack_blocks prs pre suf s)))"
proof (induction prs arbitrary: pre suf s)
  case Nil
  then show ?case by (simp add: sack_dropped_refl)
next
  case (Cons pr prs)
  obtain stop pre' suf' t where b: "sack_block (fst pr) (snd pr) pre suf s = (stop, pre', suf', t)"
    by (cases "sack_block (fst pr) (snd pr) pre suf s")
  from sack_block_dropped [OF b Cons.prems] have t: "m_pkts (snd_buf t) = pre' @ suf'"
    and d: "sack_dropped {pr} (pre @ suf) (pre' @ suf')" by simp_all
  show ?case
  proof (cases stop)
    case True
    from sack_dropped_trans [OF d sack_dropped_refl [of "{}"]] show ?thesis using True b t by simp
  next
    case False
    from sack_dropped_trans [OF d Cons.IH [OF t]] show ?thesis using False b by (simp add: subset_insertI)
  qed
qed

lemma handle_option_sack_dropped:
  "handle_option_sack o' s = (n, t) \<Longrightarrow>
    n = sizeof_udt_option + sizeof_pair_seq * length (pair_seqs o') \<and>
    sack_dropped (set (pair_seqs o')) (m_pkts (snd_buf s)) (m_pkts (snd_buf t))"
proof (cases "pair_seqs o'")
  case Nil
  assume "handle_option_sack o' s = (n, t)"
  with Nil show ?thesis by (simp add: handle_option_sack_def sack_dropped_refl)
next
  case (Cons pr prs)
  let ?u = "update_snd_fack (snd pr) s"
  have u: "m_pkts (snd_buf ?u) = [] @ m_pkts (snd_buf s)" by (simp add: update_snd_fack_def)
  assume "handle_option_sack o' s = (n, t)"
  then show ?thesis using sack_blocks_dropped [OF u, of "rev (pr # prs)"] u Cons
    by (auto simp: handle_option_sack_def Let_def)
qed

lemma handle_composed_sack:
  assumes "sack_compose (rev pkts) r = (r', Some o')"
  shows "handle_options (sack_mem (sack_hton o')) s = Some (snd (handle_option_sack o' s))"
proof -
  note sp = sack_compose_spec [OF assms]
  let ?b = "sack_mem (sack_hton o')"
  from sack_wire [OF assms, of "[]"] obtain w where w: "sack_of_mem ?b = Some w" "sack_ntoh w = o'" by auto
  obtain rest where b: "?b = TCPOPT_SACK # sack_len o' # rest" using sp(6) by (simp add: sack_mem_def)
  have len: "length ?b = sizeof_udt_option + sizeof_pair_seq * length (pair_seqs o')" by (simp add: length_sack_mem)
  obtain n t where h: "handle_option_sack o' s = (n, t)" by (cases "handle_option_sack o' s")
  then have "n - 2 = length rest" using handle_option_sack_dropped [OF h] len b by simp
  moreover have "handle_options [] t = Some t" by (simp add: handle_options.simps)
  ultimately show ?thesis
    unfolding b by (subst handle_options.simps) (simp add: w [unfolded b] h)
qed

section \<open>Examples\<close>

lemma example_socket_rcv: "m_hiwat (rcv_buf example_socket) = 32768" "m_cc (rcv_buf example_socket) = 0"
    "m_pkts (rcv_buf example_socket) = []" "m_reasm_pkts (rcv_buf example_socket) = []"
    "m_state example_socket = TCPS_ESTABLISHED" "m_rcv_nxt example_socket = 0" "m_snd_una example_socket = 0"
    "m_snd_nxt example_socket = 0" "m_snd_max example_socket = 0" "m_snd_wnd example_socket = 7344"
  by (simp_all add: example_socket_def create_def udt_socket_init_def cb_init_def canceltimers_def set_timer_def
      emit_def udt_rcv_buf_init_def min_cwnd_def Let_def udt_const)

lemma example_socket_acc: "acc (rcv_buf example_socket) = 32768"
  by (simp add: acc_def example_socket_rcv)

text \<open>A queue with a gap, and the segment header prediction waits for.\<close>

definition example_queue :: udt_socket where
  "example_queue = example_socket\<lparr>rcv_buf := (rcv_buf example_socket)\<lparr>m_reasm_pkts := [example_pkt 5 3, example_pkt 20 1]\<rparr>\<rparr>"

lemma example_queue_pkts: "m_reasm_pkts (rcv_buf example_queue) = [example_pkt 5 3, example_pkt 20 1]"
  by (simp add: example_queue_def)

lemma example_queue_sorted: "reasm_sorted 0 (m_reasm_pkts (rcv_buf example_queue))"
  by (simp add: example_queue_pkts reasm_sorted_def in_window_def off_def example_pkt_def)

definition example_predicted :: udt_packet where
  "example_predicted = \<lparr>hdr = \<lparr>uh_ver = 0, uh_flags = TH_ACK, uh_win = 7344, uh_len = 2, uh_off = 20,
     uh_seq = 0, uh_ack = 0, uh_pseq = 0\<rparr>, body = [1, 2]\<rparr>"

lemma example_prediction:
  "do_header_prediction (\<lambda>_. 0) example_predicted example_socket =
     (True, TCP_REASS example_predicted example_socket)"
  by (simp add: do_header_prediction_def TCP_REASS_def append_pkt_def example_predicted_def example_socket_rcv
      example_socket_acc Let_def udt_const set_flags_def or.assoc)

section \<open>Properties\<close>

text \<open>C14. The reassembly queue stays in strictly ascending order. A segment that starts where a
  queued one does is ignored; any other is inserted, and what becomes consecutive moves to the
  receive buffer, so that no packet is lost or duplicated.\<close>

theorem reassembly_sorted:
  assumes "reasm_sorted b (m_reasm_pkts (rcv_buf s))" and "in_window b (pseq pkt)"
  shows "reasm_sorted b (m_reasm_pkts (rcv_buf (tcp_reass pkt s))) \<and>
    (if pseq pkt \<in> pseq ` set (m_reasm_pkts (rcv_buf s)) then tcp_reass pkt s = s
     else \<exists>moved. m_pkts (rcv_buf (tcp_reass pkt s)) = m_pkts (rcv_buf s) @ moved \<and>
       mset (moved @ m_reasm_pkts (rcv_buf (tcp_reass pkt s))) = add_mset pkt (mset (m_reasm_pkts (rcv_buf s))))"
proof (cases "reasm_insert pkt (m_reasm_pkts (rcv_buf s))")
  case None
  then have "tcp_reass pkt s = s" "pseq pkt \<in> pseq ` set (m_reasm_pkts (rcv_buf s))"
    using reasm_insert_cases [OF assms] by (auto simp: tcp_reass_def image_iff) (metis)
  with assms(1) show ?thesis by simp
next
  case (Some q)
  let ?u = "set_flags TF_PACKET_CONSUMED (s\<lparr>rcv_buf := (rcv_buf s)\<lparr>m_reasm_pkts := q\<rparr>\<rparr>)"
  have t: "tcp_reass pkt s = merge_reasm_pkts ?u" by (simp add: tcp_reass_def Some)
  have u: "m_reasm_pkts (rcv_buf ?u) = q" "m_pkts (rcv_buf ?u) = m_pkts (rcv_buf s)" by (simp_all add: set_flags_def)
  obtain moved where m: "q = moved @ m_reasm_pkts (rcv_buf (tcp_reass pkt s))"
      "m_pkts (rcv_buf (tcp_reass pkt s)) = m_pkts (rcv_buf s) @ moved"
    using merge_reasm_moves [of ?u] unfolding t u by blast
  have q: "reasm_sorted b q" "\<forall>p \<in> set (m_reasm_pkts (rcv_buf s)). pseq p \<noteq> pseq pkt"
    using reasm_insert_cases [OF assms] Some by auto
  have "reasm_sorted b (m_reasm_pkts (rcv_buf (tcp_reass pkt s)))"
    using q(1) unfolding m(1) by (rule reasm_sorted_suffix)
  moreover have "mset (moved @ m_reasm_pkts (rcv_buf (tcp_reass pkt s))) = add_mset pkt (mset (m_reasm_pkts (rcv_buf s)))"
    unfolding m(1) [symmetric] by (rule reasm_insert_mset [OF Some])
  ultimately show ?thesis using m(2) q(2) by auto
qed

theorem reassembly_sorted_witness:
  "reasm_sorted 0 (m_reasm_pkts (rcv_buf (tcp_reass (example_pkt 9 2) example_queue))) \<and>
   map pseq (m_reasm_pkts (rcv_buf example_queue)) = [5, 20]"
  using reassembly_sorted [of 0 example_queue "example_pkt 9 2"] example_queue_sorted
  by (simp add: example_queue_pkts example_pkt_def in_window_def off_def)

text \<open>C15. Merging moves the longest deliverable front of the reassembly queue to the receive buffer:
  the packets moved are consecutive from \<open>m_rcv_nxt\<close>, which advances by their bytes; the order is
  kept, and the packet left at the head is not the next one or does not fit.\<close>

theorem merge_moves_front:
  "\<exists>moved. m_reasm_pkts (rcv_buf s) = moved @ m_reasm_pkts (rcv_buf (merge_reasm_pkts s)) \<and>
     m_pkts (rcv_buf (merge_reasm_pkts s)) = m_pkts (rcv_buf s) @ moved \<and> contig (m_rcv_nxt s) moved \<and>
     m_rcv_nxt (merge_reasm_pkts s) = m_rcv_nxt s + word_of_nat (sum_len moved) \<and>
     (case m_reasm_pkts (rcv_buf (merge_reasm_pkts s)) of
        [] \<Rightarrow> True
      | p # _ \<Rightarrow> \<not> (pseq p = m_rcv_nxt (merge_reasm_pkts s) \<and> ucast (plen p) \<le> acc (rcv_buf (merge_reasm_pkts s))))"
proof -
  obtain rest t where m: "merge_loop (m_reasm_pkts (rcv_buf s)) s = (rest, t)"
    by (cases "merge_loop (m_reasm_pkts (rcv_buf s)) s")
  let ?u = "merge_reasm_pkts s"
  have u: "m_reasm_pkts (rcv_buf ?u) = rest" "m_pkts (rcv_buf ?u) = m_pkts (rcv_buf t)" "m_rcv_nxt ?u = m_rcv_nxt t"
      "acc (rcv_buf ?u) = acc (rcv_buf t)"
    by (simp_all add: merge_reasm_pkts_def m Let_def acc_def set_flags_def)
  from merge_loop_moves [OF m] show ?thesis
    unfolding u de_Morgan_conj linorder_not_le by (elim exE conjE) (intro exI conjI)
qed

text \<open>C16. Header prediction on a data segment does to the connection exactly what the ordinary
  reassembly does.\<close>

theorem fast_path_agrees:
  assumes "do_header_prediction iv pkt s = (True, t)" and "plen pkt \<noteq> 0"
  shows "t = TCP_REASS pkt s"
  using assms
  by (auto simp: do_header_prediction_def TCP_REASS_def Let_def set_flags_def or.assoc or.commute or.left_commute
      split: if_splits prod.splits bool.splits)

theorem fast_path_agrees_witness:
  "do_header_prediction (\<lambda>_. 0) example_predicted example_socket =
     (True, TCP_REASS example_predicted example_socket)"
  using fast_path_agrees [OF example_prediction] example_prediction by (simp add: example_predicted_def)

text \<open>C17. An acknowledgement \<open>a\<close> takes the packets that start before it off the front of the send
  buffer and nothing else; the bytes returned, the count of the buffer and the count of
  retransmitted bytes agree with what was taken, and \<open>m_snd_una\<close> is \<open>a\<close>.\<close>

theorem ack_drops_front:
  "m_pkts (snd_buf (snd (drop_acked_data a s))) = dropWhile (\<lambda>p. \<not> seq_ge (pseq p) a) (m_pkts (snd_buf s)) \<and>
   fst (drop_acked_data a s) = word_of_nat (sum_len (takeWhile (\<lambda>p. \<not> seq_ge (pseq p) a) (m_pkts (snd_buf s)))) \<and>
   m_cc (snd_buf (snd (drop_acked_data a s))) = m_cc (snd_buf s) - fst (drop_acked_data a s) \<and>
   m_retrans_data (snd (drop_acked_data a s)) = m_retrans_data s - word_of_nat (sum_len
     (filter (\<lambda>p. has_rexmt (pflags p)) (takeWhile (\<lambda>p. \<not> seq_ge (pseq p) a) (m_pkts (snd_buf s))))) \<and>
   m_snd_una (snd (drop_acked_data a s)) = a"
proof -
  obtain k t where l: "drop_acked_loop a (m_pkts (snd_buf s)) 0 s = (k, t)"
    by (cases "drop_acked_loop a (m_pkts (snd_buf s)) 0 s")
  from drop_acked_loop_spec [OF l refl] show ?thesis
    by (simp add: drop_acked_data_def l update_snd_una_def update_snd_fack_def Let_def)
qed

text \<open>C18. What the sender discards on a selective acknowledgement the receiver holds: when the option
  composed from the receiver's queue \<open>pkts\<close> reaches the sender, it is accepted, and every packet
  it takes out of the send buffer lies inside a run of consecutive packets of \<open>pkts\<close>; the others
  stay in order.\<close>

theorem sack_exchange:
  assumes "sack_compose (rev pkts) r = (r', Some o')"
  shows "\<exists>t gone. handle_options (sack_mem (sack_hton o')) s = Some t \<and>
    subseq (m_pkts (snd_buf t)) (m_pkts (snd_buf s)) \<and> mset (m_pkts (snd_buf s)) = mset (m_pkts (snd_buf t)) + mset gone \<and>
    (\<forall>p \<in> set gone. \<exists>pr. held pkts pr \<and> \<not> seq_lt (pseq p) (fst pr) \<and> seq_le (pend p) (snd pr))"
proof -
  obtain n t where h: "handle_option_sack o' s = (n, t)" by (cases "handle_option_sack o' s")
  from handle_option_sack_dropped [OF h] handle_composed_sack [OF assms, of s] sack_compose_spec(1) [OF assms] h
  show ?thesis by (fastforce simp: sack_dropped_def in_block_def)
qed

theorem sack_exchange_witness:
  "\<exists>t gone. handle_options (sack_mem (sack_hton \<lparr>sack_kind = TCPOPT_SACK, sack_len = 10, pair_seqs = [(5, 8)]\<rparr>)) example_socket = Some t \<and>
     mset (m_pkts (snd_buf example_socket)) = mset (m_pkts (snd_buf t)) + mset gone"
proof -
  have "sack_compose (rev [example_pkt 5 3]) 34 = (24, Some \<lparr>sack_kind = TCPOPT_SACK, sack_len = 10, pair_seqs = [(5, 8)]\<rparr>)"
    by (simp add: sack_compose_def example_pkt_def udt_const)
  from sack_exchange [OF this, of example_socket] show ?thesis by blast
qed

text \<open>The receive window keeps its promise: as long as no more was advertised than there is
  room, a data segment that passes the window check and is the next one expected is never
  refused by the receive buffer.\<close>

theorem in_sequence_fits:
  assumes "drop_out_of_rcv_wnd_packet pkt s = (False, t)" and "pseq pkt = m_rcv_nxt s" and "\<not> has_syn (pflags pkt)"
    and "sint (m_rcv_adv s - m_rcv_nxt s) \<le> sint (acc (rcv_buf s))" and "unat (acc (rcv_buf s)) < 2 ^ 31"
  shows "fst (append_pkt pkt (rcv_buf t))"
  using accepted_len [OF assms] by (simp add: append_pkt_def)

theorem in_sequence_fits_witness:
  "\<exists>t. drop_out_of_rcv_wnd_packet (example_pkt 5 100) (example_socket\<lparr>m_rcv_nxt := 5, m_rcv_adv := 5\<rparr>) = (False, t) \<and>
     fst (append_pkt (example_pkt 5 100) (rcv_buf t))"
proof -
  let ?s = "example_socket\<lparr>m_rcv_nxt := 5, m_rcv_adv := 5\<rparr>"
  have "\<exists>t. drop_out_of_rcv_wnd_packet (example_pkt 5 100) ?s = (False, t)"
    by (simp add: drop_out_of_rcv_wnd_packet_def Let_def example_pkt_def example_socket_rcv example_socket_acc has_flag_def)
  then obtain t where t: "drop_out_of_rcv_wnd_packet (example_pkt 5 100) ?s = (False, t)" by blast
  from in_sequence_fits [OF t] t show ?thesis
    by (simp add: example_pkt_def example_socket_acc has_syn_def has_flag_def)
qed

end
