(* ===== verification/Udt_Checks.thy ===== *)
theory Udt_Checks
  imports Udt_Network Udt_Segments
begin

text \<open>
  The assertions of the debug build: the checks that \<open>udt_cb_input.cpp\<close>, \<open>udt_buf.cpp\<close> and
  \<open>udt_option.cpp\<close> run under \<open>_DEBUG\<close> on the buffers and the SACK option, as functions that tell
  whether every \<open>BOOST_ASSERT\<close> in them holds; and what the invariants of the connection say of them.
\<close>

section \<open>The checks\<close>



text \<open>Packets of the reassembly queue do not overlap the one before.\<close>

fun check_reasm_loop :: "udt_seq \<Rightarrow> udt_packet list \<Rightarrow> bool" where
  "check_reasm_loop nxt_seq [] \<longleftrightarrow> True"
| "check_reasm_loop nxt_seq (ti # i) \<longleftrightarrow>
     \<not> seq_gt nxt_seq (pseq ti) \<and> check_reasm_loop (pseq ti + ucast (plen ti)) i"

fun check_reasm_pkts :: "udt_packet list \<Rightarrow> bool" where
  "check_reasm_pkts [] \<longleftrightarrow> True"
| "check_reasm_pkts (p # i) \<longleftrightarrow> check_reasm_loop (pseq p + ucast (plen p)) i"



text \<open>The blocks of an option are not empty and descend.\<close>

definition check_sack_option :: "udt_option_sack \<Rightarrow> bool" where
  "check_sack_option opt_sack =
     (let i = sack_size (sack_len opt_sack); pair = (\<lambda>j. pair_seqs opt_sack ! j) in
      list_all (\<lambda>j. seq_lt (fst (pair j)) (snd (pair j)) \<and>
        (j \<noteq> i - 1 \<longrightarrow> seq_gt (snd (pair j)) (fst (pair (j + 1))))) [0..<i])"

section \<open>The buffers\<close>










section \<open>The reassembly queue and the option\<close>

text \<open>Within half the circle from \<open>b\<close>: a packet with data, and a queue of such without overlaps.\<close>

definition filled :: "udt_seq \<Rightarrow> udt_packet \<Rightarrow> bool" where
  "filled b p \<longleftrightarrow> plen p \<noteq> 0 \<and> off b (pseq p) + unat (plen p) < 2 ^ 31"

definition apart :: "udt_seq \<Rightarrow> udt_packet list \<Rightarrow> bool" where
  "apart b ps \<longleftrightarrow> (\<forall>p \<in> set ps. filled b p) \<and> sorted_wrt (\<lambda>p r. off b (pend p) \<le> off b (pseq r)) ps"

lemma filled_off:
  assumes "filled b p"
  shows "off b (pend p) = off b (pseq p) + unat (plen p)" and "off b (pseq p) < off b (pend p)"
    and "in_window b (pseq p)" and "in_window b (pend p)"
proof -
  have l: "off b (pseq p) + unat (ucast (plen p) :: u32) < 2 ^ 32" using assms by (simp add: filled_def unat_ucast_16_32)
  show e: "off b (pend p) = off b (pseq p) + unat (plen p)" using off_word_less [OF l] by (simp add: unat_ucast_16_32)
  with assms show "off b (pseq p) < off b (pend p)" "in_window b (pseq p)" "in_window b (pend p)"
    by (simp_all add: filled_def in_window_def unat_gt_0)
qed

lemma check_reasm_loop_apart:
  "\<forall>p \<in> set ps. filled b p \<Longrightarrow> in_window b n \<Longrightarrow>
    check_reasm_loop n ps \<longleftrightarrow> (\<forall>p \<in> set ps. off b n \<le> off b (pseq p)) \<and> apart b ps"
proof (induction ps arbitrary: n)
  case Nil
  then show ?case by (simp add: apart_def)
next
  case (Cons p ps)
  then have f: "filled b p" by simp
  note p = filled_off(3,4,2) [OF f]
  have "check_reasm_loop (pend p) ps \<longleftrightarrow> (\<forall>q \<in> set ps. off b (pend p) \<le> off b (pseq q)) \<and> apart b ps"
    using Cons.IH [OF _ p(2)] Cons.prems by simp
  moreover have "\<not> seq_gt n (pseq p) \<longleftrightarrow> off b n \<le> off b (pseq p)" using Cons.prems(2) p(1) by (simp add: seq_gt_off not_less)
  moreover have "\<forall>q \<in> set ps. off b n \<le> off b (pseq q)"
    if "off b n \<le> off b (pseq p)" "\<forall>q \<in> set ps. off b (pend p) \<le> off b (pseq q)"
    using that p(3) by (meson order_trans less_imp_le)
  ultimately show ?case using Cons.prems(1) by (auto simp: apart_def)
qed

lemma check_reasm_apart: "\<forall>p \<in> set ps. filled b p \<Longrightarrow> check_reasm_pkts ps \<longleftrightarrow> apart b ps"
proof (cases ps)
  case Nil
  then show ?thesis by (simp add: apart_def)
next
  case (Cons p qs)
  assume f: "\<forall>p \<in> set ps. filled b p"
  with Cons have p: "in_window b (pend p)" by (simp add: filled_off)
  have "check_reasm_loop (pend p) qs \<longleftrightarrow> (\<forall>q \<in> set qs. off b (pend p) \<le> off b (pseq q)) \<and> apart b qs"
    by (rule check_reasm_loop_apart [OF _ p]) (use f Cons in simp)
  with Cons f show ?thesis by (auto simp: apart_def)
qed

text \<open>Blocks as the option should have them: not empty, in descending order, without overlaps.\<close>

definition descending :: "udt_seq \<Rightarrow> pair_seq list \<Rightarrow> bool" where
  "descending b prs \<longleftrightarrow> (\<forall>pr \<in> set prs. off b (fst pr) < off b (snd pr) \<and> in_window b (fst pr) \<and> in_window b (snd pr)) \<and>
     sorted_wrt (\<lambda>x y. off b (snd y) \<le> off b (fst x)) prs"

lemma descending_snoc:
  "descending b (prs @ [(a, e)]) \<longleftrightarrow> descending b prs \<and> off b a < off b e \<and> in_window b a \<and> in_window b e \<and>
     (\<forall>pr \<in> set prs. off b e \<le> off b (fst pr))"
  by (auto simp: descending_def sorted_wrt_append)

lemma descending_check:
  assumes d: "descending b (pair_seqs o')" and n: "sack_size (sack_len o') = length (pair_seqs o')"
  shows "check_sack_option o'"
proof -
  let ?p = "pair_seqs o'"
  have one: "seq_lt (fst (?p ! j)) (snd (?p ! j))" if "j < length ?p" for j
    using d nth_mem [OF that] unfolding descending_def by (metis seq_lt_off)
  have two: "seq_gt (snd (?p ! j)) (fst (?p ! (j + 1)))" if j: "j + 1 < length ?p" for j
  proof -
    have m: "?p ! j \<in> set ?p" "?p ! (j + 1) \<in> set ?p" using j by simp_all
    have "off b (snd (?p ! (j + 1))) \<le> off b (fst (?p ! j))"
      using d j by (simp add: descending_def sorted_wrt_iff_nth_less)
    moreover have "off b (fst (?p ! (j + 1))) < off b (snd (?p ! (j + 1)))" "off b (fst (?p ! j)) < off b (snd (?p ! j))"
      using d m unfolding descending_def by blast+
    ultimately have "off b (fst (?p ! (j + 1))) < off b (snd (?p ! j))" by linarith
    moreover have "in_window b (snd (?p ! j))" "in_window b (fst (?p ! (j + 1)))"
      using d m unfolding descending_def by blast+
    ultimately show ?thesis by (simp add: seq_gt_off)
  qed
  show ?thesis unfolding check_sack_option_def Let_def n list_all_iff using one two by auto
qed

text \<open>The loop of \<open>compose\<close> goes down the queue: the run it is in starts above all packets left.\<close>

lemma compose_loop_descending:
  assumes "compose_loop ps r a e pairs = (r', a', e', pairs')"
    and "apart b (rev ps)" and "descending b (pairs @ [(a, e)])" and "\<forall>p \<in> set ps. off b (pend p) \<le> off b a"
  shows "descending b (pairs' @ [(a', e')])"
  using assms
proof (induction ps arbitrary: r a e pairs)
  case Nil
  then show ?case by simp
next
  case (Cons p ps)
  have f: "filled b p" using Cons.prems(2) by (simp add: apart_def)
  have rest: "apart b (rev ps)" "\<forall>q \<in> set ps. off b (pend q) \<le> off b (pseq p)"
    using Cons.prems(2) by (auto simp: apart_def sorted_wrt_append)
  have p: "off b (pseq p) < off b (pend p)" "in_window b (pseq p)" "in_window b (pend p)" using filled_off [OF f] by simp_all
  have below: "off b (pend p) \<le> off b a" using Cons.prems(4) by simp
  show ?case
  proof (cases "r \<ge> sizeof_pair_seq \<and> length pairs < MAX_PAIR_SEQS")
    case False
    with Cons.prems(1,3) show ?thesis by auto
  next
    case go: True
    show ?thesis
    proof (cases "a \<noteq> pend p")
      case True
      show ?thesis
      proof (rule Cons.IH [OF _ rest(1) _ rest(2)])
        show "compose_loop ps (r - sizeof_pair_seq) (pseq p) (pend p) (pairs @ [(a, e)]) = (r', a', e', pairs')"
          using Cons.prems(1) go True by simp
        show "descending b ((pairs @ [(a, e)]) @ [(pseq p, pend p)])"
          using Cons.prems(3) p below by (subst descending_snoc) (auto simp: descending_snoc)
      qed
    next
      case False
      show ?thesis
      proof (rule Cons.IH [OF _ rest(1) _ rest(2)])
        show "compose_loop ps r (pseq p) e pairs = (r', a', e', pairs')" using Cons.prems(1) go False by simp
        show "descending b (pairs @ [(pseq p, e)])" using Cons.prems(3) p False by (auto simp: descending_snoc)
      qed
    qed
  qed
qed

lemma sack_compose_descending:
  assumes c: "sack_compose (rev pkts) r = (r', Some o')" and a: "apart b pkts"
  shows "descending b (pair_seqs o')"
proof -
  from c obtain p ps where rp: "rev pkts = p # ps" by (cases "rev pkts") (auto simp: sack_compose_def)
  then have "apart b (rev ps @ [p])" using a by (simp add: rev_eq_Cons_iff)
  then have f: "filled b p" and rest: "apart b (rev ps)" "\<forall>q \<in> set ps. off b (pend q) \<le> off b (pseq p)"
    by (auto simp: apart_def sorted_wrt_append)
  obtain q x e prs where l: "compose_loop ps (r - sizeof_udt_option) (pseq p) (pend p) [] = (q, x, e, prs)"
    by (cases "compose_loop ps (r - sizeof_udt_option) (pseq p) (pend p) []")
  have d: "descending b (prs @ [(x, e)])"
    by (rule compose_loop_descending [OF l rest(1) _ rest(2)]) (use filled_off [OF f] in \<open>simp add: descending_def\<close>)
  have "pair_seqs o' = prs @ [(x, e)] \<or> pair_seqs o' = prs"
    using c l by (auto simp: sack_compose_def rp Let_def split: if_splits)
  with d show ?thesis by (auto simp: descending_snoc)
qed

section \<open>Properties\<close>



text \<open>C37. The check of the composed option: if the packets of the reassembly queue carry data and lie
  within half of the sequence space, and the queue has passed its own check, the SACK option
  composed from it passes the check of the option.\<close>

theorem sack_check_passes:
  assumes "sack_compose (rev pkts) r = (r', Some o')" and "\<forall>p \<in> set pkts. filled b p" and "check_reasm_pkts pkts"
  shows "check_sack_option o'"
  using sack_compose_descending [OF assms(1), of b] sack_compose_spec(7) [OF assms(1)] assms(2,3)
  by (auto simp: check_reasm_apart intro: descending_check)

theorem sack_check_passes_witness:
  "\<exists>r' o'. sack_compose (rev [example_pkt 10 2, example_pkt 12 3, example_pkt 20 1]) 34 = (r', Some o') \<and>
     pair_seqs o' = [(20, 21), (10, 15)] \<and> check_sack_option o'"
proof -
  let ?q = "[example_pkt 10 2, example_pkt 12 3, example_pkt 20 1]"
  have c: "sack_compose (rev ?q) 34 =
      (16, Some \<lparr>sack_kind = TCPOPT_SACK, sack_len = 18, pair_seqs = [(20, 21), (10, 15)]\<rparr>)"
    by (simp add: sack_compose_def example_pkt_def udt_const)
  have "\<forall>p \<in> set ?q. filled 0 p" by (simp add: filled_def off_def example_pkt_def)
  moreover have "check_reasm_pkts ?q" by (simp add: example_pkt_def seq_gt_def)
  ultimately show ?thesis using sack_check_passes [OF c, of 0] c by simp
qed

text \<open>
  The packets must carry data: a FIN without data that arrives ahead of the data before it is
  queued, reported as an empty block, and fails the check of the option.
\<close>

lemma sack_check_fails_on_fin:
  "\<exists>r' o'. sack_compose (rev [example_pkt 10 0]) 34 = (r', Some o') \<and> \<not> check_sack_option o'"
  by (simp add: sack_compose_def example_pkt_def check_sack_option_def sack_size_def seq_lt_def udt_const)

end
