(* ===== verification/Udt_States.thy ===== *)
theory Udt_States
  imports Udt_Sender
begin

text \<open>
  The connection's state machine. The transitions of \<open>m_state\<close> are scattered over
  \<open>udt_cb_input.cpp\<close>, \<open>udt_usrreq.cpp\<close>, \<open>udt_timo.cpp\<close> and \<open>udt_cb.cpp\<close>; here they are one
  relation, and every event of the socket is shown to follow it.
\<close>

section \<open>The transitions\<close>

text \<open>What the user asks for.\<close>

inductive user_move :: "socket_event \<Rightarrow> tcp_state \<Rightarrow> tcp_state \<Rightarrow> bool" where
  active_open: "user_move (Connect rep h) TCPS_CLOSED TCPS_SYN_SENT"
| passive_open: "user_move (Accept rep h) TCPS_CLOSED TCPS_LISTEN"
| shut_first: "user_move (Shutdown h) TCPS_ESTABLISHED TCPS_FIN_WAIT_1"
| shut_last: "user_move (Shutdown h) TCPS_CLOSE_WAIT TCPS_LAST_ACK"
| no_request: "user_move e st st"

text \<open>What segments, timers, errors and \<open>close\<close> do: the connection only goes on towards its end.\<close>

inductive net_move :: "tcp_state \<Rightarrow> tcp_state \<Rightarrow> bool" where
  syn_received: "net_move TCPS_LISTEN TCPS_SYN_RECEIVED"
| syn_crossed: "net_move TCPS_SYN_SENT TCPS_SYN_RECEIVED"
| syn_acked: "net_move TCPS_SYN_RECEIVED TCPS_ESTABLISHED"
| peer_closes: "net_move TCPS_ESTABLISHED TCPS_CLOSE_WAIT"
| fin_acked: "net_move TCPS_FIN_WAIT_1 TCPS_FIN_WAIT_2"
| both_close: "net_move TCPS_FIN_WAIT_1 TCPS_CLOSING"
| closing_acked: "net_move TCPS_CLOSING TCPS_TIME_WAIT"
| peer_closes_too: "net_move TCPS_FIN_WAIT_2 TCPS_TIME_WAIT"
| dropped: "net_move st TCPS_CLOSED"

inductive_cases net_move_from_closedE: "net_move TCPS_CLOSED st"

inductive_simps net_move_to_established: "net_move st TCPS_ESTABLISHED"

text \<open>How far a connection has come.\<close>

fun progress :: "tcp_state \<Rightarrow> nat" where
  "progress TCPS_LISTEN = 0"
| "progress TCPS_SYN_SENT = 0"
| "progress TCPS_SYN_RECEIVED = 1"
| "progress TCPS_ESTABLISHED = 2"
| "progress TCPS_CLOSE_WAIT = 3"
| "progress TCPS_FIN_WAIT_1 = 3"
| "progress TCPS_FIN_WAIT_2 = 4"
| "progress TCPS_CLOSING = 4"
| "progress TCPS_LAST_ACK = 4"
| "progress TCPS_TIME_WAIT = 5"
| "progress TCPS_CLOSED = 6"

lemma progress_open: "st \<noteq> TCPS_CLOSED \<Longrightarrow> progress st < 6"
  by (cases st) simp_all

lemma net_move_progress: "net_move a b \<Longrightarrow> progress a < progress b \<or> a = TCPS_CLOSED \<and> b = TCPS_CLOSED"
  by (induction rule: net_move.induct) (auto dest: progress_open)

abbreviation "moves s t \<equiv> net_move\<^sup>*\<^sup>* (m_state s) (m_state t)"

lemma moves_same: "m_state t = m_state s \<Longrightarrow> moves s t"
  by simp

lemma moves_view: "tx_view t = tx_view s \<Longrightarrow> moves s t"
  by (simp add: tx_view_def)

lemma moves_trans: "moves s t \<Longrightarrow> moves t u \<Longrightarrow> moves s u"
  by (rule rtranclp_trans)

lemma moves_one: "net_move (m_state s) (m_state t) \<Longrightarrow> moves s t"
  by (rule r_into_rtranclp)

section \<open>Operations that leave the state\<close>

lemma state_of_view: "tx_view t = tx_view s \<Longrightarrow> m_state t = m_state s"
  by (simp add: tx_view_def)

lemma m_state_record [simp]: "m_state (set_flags f s) = m_state s" "m_state (clear_flags f s) = m_state s"
    "m_state (set_timer t v s) = m_state s" "m_state (emit e s) = m_state s"
  by (simp_all add: set_flags_def clear_flags_def set_timer_def emit_def)

lemma m_state_inline [simp]: "m_state (slow_start s) = m_state s" "m_state (reset_rexmt_timer s) = m_state s"
    "m_state (update_snd_una a s) = m_state s" "m_state (update_snd_wnd w s) = m_state s"
    "m_state (update_snd_fack a s) = m_state s" "m_state (handle_packet_lost k s) = m_state s"
    "m_state (update_rtt a s) = m_state s" "m_state (xmit_timer r s) = m_state s"
    "m_state (enter_persist s) = m_state s" "m_state (canceltimers s) = m_state s"
    "m_state (tcp_sendseqinit s) = m_state s" "m_state (tcp_rcvseqinit s) = m_state s"
  by (rule state_of_view, simp)+

lemma m_state_account [simp]: "m_state (out_account f n s) = m_state s"
  by (rule state_of_view) simp

lemma m_state_snd [simp]: "m_state (validate_first_pkt s) = m_state s" "m_state (drop_snd_pkt pre p suf s) = m_state s"
    "m_state (udp_output h d s) = m_state s" "m_state (clear_snd_buf_flags s) = m_state s"
  by (simp_all add: validate_first_pkt_def drop_snd_pkt_def udp_output_def clear_snd_buf_flags_def Let_def split: list.splits)

lemma m_state_respond [simp]: "m_state (respond a q fl s) = m_state s" "m_state (reset_peer s) = m_state s"
  by (simp_all add: respond_def reset_peer_def)

lemma m_state_get_snd_pkt: "get_snd_pkt n s = (p, t) \<Longrightarrow> m_state t = m_state s"
  by (auto simp: get_snd_pkt_def Let_def split: option.splits prod.splits if_splits)

lemma m_state_out_select: "out_select s = (p, a, f, t) \<Longrightarrow> m_state t = m_state s"
  by (auto simp: out_select_def Let_def split: if_splits prod.splits dest!: m_state_get_snd_pkt)

lemma m_state_out_send [simp]: "m_state (out_send w f p s) = m_state s"
  by (simp add: out_send_def Let_def)

lemma m_state_out_pass: "out_pass iv s = (n, again, t) \<Longrightarrow> m_state t = m_state s"
  by (auto simp: out_pass_def Let_def split: prod.splits if_splits dest!: m_state_out_select)

lemma m_state_out_loop: "m_state (snd (out_loop iv k n s)) = m_state s"
  by (induction iv k n s rule: out_loop.induct) (auto split: prod.splits dest!: m_state_out_pass)

lemma m_state_cb_output [simp]: "m_state (snd (cb_output iv s)) = m_state s"
  by (simp add: cb_output_def Let_def m_state_out_loop)

lemma m_state_consume: "consume_pending_data s = (n, t) \<Longrightarrow> m_state t = m_state s"
  using consume_pending_data_state [of s] by simp

lemma m_state_recv_loop: "recv_loop ops b s = (left, out, t) \<Longrightarrow> m_state t = m_state s"
  using tx_view_recv_loop [of ops b s left out t] by (intro state_of_view) simp

lemma m_state_recv_data [simp]: "m_state (recv_data iv s) = m_state s"
  by (auto simp: recv_data_def Let_def split: prod.splits dest: m_state_recv_loop)

lemma m_state_delay [simp]: "m_state (handle_delay_recv_operation e s) = m_state s"
  by (rule state_of_view) simp

lemma m_state_callbacks [simp]: "m_state (on_readable iv s) = m_state s" "m_state (on_writable iv s) = m_state s"
    "m_state (cancel s) = m_state s" "m_state (do_receive s) = m_state s" "m_state (handle_mtu s) = m_state s"
  by (auto simp: on_readable_def on_writable_def cancel_def cancel_next_layer_def do_receive_def handle_mtu_def
      set_mtu_def Let_def split: prod.splits dest: m_state_consume)

lemma m_state_post_all [simp]: "m_state (post_all ops e s) = m_state s"
  by (induction ops e s rule: post_all.induct) simp_all

lemma m_state_disconnected [simp]: "m_state (on_disconnected iv s) = m_state s"
  by (simp add: on_disconnected_def Let_def split: option.splits)

lemma m_state_connected: "on_connected s = Some t \<Longrightarrow> m_state t = m_state s"
  by (auto simp: on_connected_def do_probe_mtu_def bind_eq_Some_conv split: if_splits option.splits)

lemma m_state_merge_loop: "merge_loop ps s = (rest, t) \<Longrightarrow> m_state t = m_state s"
  using tx_view_merge_loop [of ps s rest t] by (intro state_of_view) simp

lemma m_state_reass [simp]: "m_state (TCP_REASS p s) = m_state s"
  by (rule state_of_view) simp

lemma m_state_drop_acked_loop: "m_state (snd (drop_acked_loop a ps n s)) = m_state s"
  by (induction a ps n s rule: drop_acked_loop.induct) simp_all

lemma m_state_drop_acked [simp]: "m_state (snd (drop_acked_data a s)) = m_state s"
  using m_state_drop_acked_loop [of a "m_pkts (snd_buf s)" 0 s] by (auto simp: drop_acked_data_def split: prod.splits)

lemma m_state_prediction: "do_header_prediction iv p s = (b, t) \<Longrightarrow> m_state t = m_state s"
  by (auto simp: do_header_prediction_def Let_def split: if_splits prod.splits bool.splits)

lemma m_state_window: "drop_out_of_rcv_wnd_packet p s = (b, t) \<Longrightarrow> m_state t = m_state s"
  by (auto simp: drop_out_of_rcv_wnd_packet_def Let_def split: if_splits)

lemma m_state_fast_rexmt [simp]: "m_state (do_fast_rexmt iv k a s) = m_state s"
  by (simp add: do_fast_rexmt_def Let_def)

lemma m_state_sack_block: "sack_block x y pre suf s = (b, pre', suf', t) \<Longrightarrow> m_state t = m_state s"
  by (induction x y pre suf s arbitrary: b pre' suf' t rule: sack_block.induct) (auto split: if_splits)

lemma m_state_sack_blocks [simp]: "m_state (sack_blocks prs pre suf s) = m_state s"
  by (induction prs pre suf s rule: sack_blocks.induct)
    (auto split: prod.splits bool.splits dest: m_state_sack_block)

lemma m_state_options: "handle_options b s = Some t \<Longrightarrow> m_state t = m_state s"
  by (rule handle_options_keeps [where P = "\<lambda>t. m_state t = m_state s"])
    (auto simp: handle_option_sack_def handle_option_cwnd_def Let_def split: list.splits)

lemma m_state_same_ack [simp]: "m_state (snd (handle_same_ack iv k a w s)) = m_state s"
  by (simp add: handle_same_ack_def Let_def)

lemma m_state_new_ack: "handle_new_ack a w s = Some (b, t) \<Longrightarrow> m_state t = m_state s"
  by (auto simp: handle_new_ack_def incr_snd_cwnd_def Let_def bind_eq_Some_conv split: if_splits)

section \<open>Operations that move it\<close>

lemma m_state_cb_drop [simp]: "m_state (cb_drop iv e s) = TCPS_CLOSED"
  by (simp add: cb_drop_def Let_def)

lemma reaches_closed [simp]: "net_move\<^sup>*\<^sup>* st TCPS_CLOSED"
  by (rule r_into_rtranclp) (rule dropped)

lemma reaches_next [simp]: "net_move\<^sup>*\<^sup>* TCPS_LISTEN TCPS_SYN_RECEIVED"
    "net_move\<^sup>*\<^sup>* TCPS_SYN_SENT TCPS_SYN_RECEIVED" "net_move\<^sup>*\<^sup>* TCPS_ESTABLISHED TCPS_CLOSE_WAIT"
    "net_move\<^sup>*\<^sup>* TCPS_FIN_WAIT_1 TCPS_FIN_WAIT_2" "net_move\<^sup>*\<^sup>* TCPS_FIN_WAIT_1 TCPS_CLOSING"
    "net_move\<^sup>*\<^sup>* TCPS_CLOSING TCPS_TIME_WAIT" "net_move\<^sup>*\<^sup>* TCPS_FIN_WAIT_2 TCPS_TIME_WAIT"
  by (rule r_into_rtranclp, rule net_move.intros)+

lemma moves_closed: "m_state t = TCPS_CLOSED \<Longrightarrow> moves s t"
  by (rule moves_one) (simp add: dropped)

lemma handle_syn_moves: "handle_syn p s = (b, q, t) \<Longrightarrow> moves s t"
  by (cases "m_state s") (auto simp: handle_syn_def Let_def)

lemma update_ack_state_moves: "update_ack_state s = Some t \<Longrightarrow> moves s t"
proof (cases "m_state s")
  case TCPS_SYN_SENT
  assume "update_ack_state s = Some t"
  with TCPS_SYN_SENT show ?thesis
    by (auto simp: update_ack_state_def Let_def split: if_splits)
next
  case TCPS_SYN_RECEIVED
  assume "update_ack_state s = Some t"
  with TCPS_SYN_RECEIVED have "m_state t = TCPS_ESTABLISHED"
    by (auto simp: update_ack_state_def Let_def bind_eq_Some_conv split: if_splits dest!: m_state_connected)
  with TCPS_SYN_RECEIVED show ?thesis by (intro moves_one) (simp add: syn_acked)
qed (auto simp: update_ack_state_def Let_def split: if_splits)

lemma handle_ack_moves: "handle_ack iv k p s = Some (b, t) \<Longrightarrow> moves s t"
proof -
  assume run: "handle_ack iv k p s = Some (b, t)"
  consider "m_state t = m_state s" | "handle_valid_ack iv k p s = Some (b, t)"
    using run by (auto simp: handle_ack_def Let_def split: if_splits)
  then show ?thesis
  proof cases
    case 1
    then show ?thesis by simp
  next
    case 2
    then obtain u v where u: "(if is_max_ack (uh_ack (hdr p)) s then update_ack_state s else Some s) = Some u"
      and v: "(if unat (uh_off (hdr p)) > sizeof_udt_hdr
          then handle_options (take (unat (uh_off (hdr p)) - sizeof_udt_hdr) (body p)) u else Some u) = Some v"
      and t: "m_state t = m_state v"
      by (auto simp: handle_valid_ack_def Let_def bind_eq_Some_conv split: if_splits dest!: m_state_new_ack)
        (metis m_state_same_ack snd_conv)+
    have "moves s u" using u update_ack_state_moves by (auto split: if_splits)
    moreover have "m_state v = m_state u" using v by (auto split: if_splits dest: m_state_options)
    ultimately show ?thesis using t by simp
  qed
qed

lemma handle_fin_moves: "moves s (handle_fin s)"
  by (cases "m_state s") (auto simp: handle_fin_def TCPS_HAVERCVDFIN_def Let_def)

lemma commit_notifies_moves: "moves s (commit_notifies iv s)"
proof -
  have "m_state (commit_notifies iv s) = TCPS_CLOSED \<or> m_state (commit_notifies iv s) = m_state s"
    unfolding commit_notifies_def Let_def by (simp split: if_split)
  then show ?thesis by (auto intro: moves_closed moves_same)
qed

lemma input_data_moves: "input_data iv k p s = Some t \<Longrightarrow> moves s t"
proof -
  assume run: "input_data iv k p s = Some t"
  obtain u where u: "u = (if plen p \<noteq> 0 \<or> has_flag (pflags p) (TH_SYN OR TH_FIN) then TCP_REASS p s else s)" by blast
  from run obtain b v where v: "(if has_flag (pflags p) TH_ACK then handle_ack iv k p u else Some (False, u)) = Some (b, v)"
    and t: "t = v \<or> t = handle_fin v"
    unfolding input_data_def u [symmetric] Let_def by (auto simp: bind_eq_Some_conv split: if_splits)
  have "m_state u = m_state s" by (simp add: u)
  moreover have "moves u v" using v by (auto split: if_splits dest: handle_ack_moves)
  moreover have "moves v t" using t handle_fin_moves by auto
  ultimately show ?thesis by (metis rtranclp_trans)
qed

lemma input_segment_moves: "input_segment iv k p s = Some t \<Longrightarrow> moves s t"
proof -
  assume run: "input_segment iv k p s = Some t"
  show ?thesis
  proof (cases "m_state s = TCPS_CLOSED \<or> has_flag (pflags p) TH_RST")
    case True
    with run have "m_state t = m_state s" by (auto simp: input_segment_def split: if_splits)
    then show ?thesis by simp
  next
    case False
    obtain d0 s0 where s0: "drop_out_of_rcv_wnd_packet p s = (d0, s0)" by (cases "drop_out_of_rcv_wnd_packet p s")
    obtain d1 s1 where s1: "do_header_prediction iv p s0 = (d1, s1)" by (cases "do_header_prediction iv p s0")
    obtain d2 q s2 where s2: "(if has_flag (pflags p) TH_SYN then handle_syn p s1 else (False, p, s1)) = (d2, q, s2)"
      by (cases "if has_flag (pflags p) TH_SYN then handle_syn p s1 else (False, p, s1)")
    have 0: "m_state s0 = m_state s" by (rule m_state_window [OF s0])
    have 1: "m_state s1 = m_state s0" by (rule m_state_prediction [OF s1])
    have 2: "moves s1 s2" using s2 by (auto split: if_splits dest: handle_syn_moves)
    have "t = s0 \<or> t = s1 \<or> t = s2 \<or> input_data iv k q s2 = Some t"
      using run False s0 s1 s2 by (auto simp: input_segment_def split: bool.splits)
    then show ?thesis
    proof (elim disjE)
      assume "input_data iv k q s2 = Some t"
      from input_data_moves [OF this] 0 1 2 show ?thesis by (metis rtranclp_trans)
    qed (use 0 1 2 in simp_all)
  qed
qed

lemma cb_input_moves: "cb_input iv k bytes s = Some (c, t) \<Longrightarrow> moves s t"
proof -
  assume run: "cb_input iv k bytes s = Some (c, t)"
  consider "t = s" | u v p where "m_state u = m_state s" "input_segment iv k p u = Some v"
      "(c, t) = pkt_consumed (commit_notifies iv v)"
    using run by (auto simp: cb_input_def Let_def bind_eq_Some_conv split: if_splits)
      (metis (no_types, lifting) m_state_inline(7) m_state_record(3) udt_cb.select_convs(1) udt_cb.surjective udt_cb.update_convs)+
  then show ?thesis
  proof cases
    case 1
    then show ?thesis by simp
  next
    case 2
    have "m_state t = m_state (commit_notifies iv v)" using 2(3) by (auto simp: pkt_consumed_def split: if_splits)
    with input_segment_moves [OF 2(2)] commit_notifies_moves [of v iv] 2(1) show ?thesis by (metis rtranclp_trans)
  qed
qed

lemma timer_expired_moves: "moves s (timer_expired iv k t s)"
proof (cases t)
  case TCPT_REXMT
  have "m_state (timo_rexmt iv k s) = TCPS_CLOSED \<or> m_state (timo_rexmt iv k s) = m_state s"
    by (simp add: timo_rexmt_def rexmt_backoff_def Let_def)
  then show ?thesis by (auto simp: TCPT_REXMT timer_expired_def intro: moves_closed moves_same)
next
  case TCPT_KEEP
  have "m_state (timo_keep iv s) = TCPS_CLOSED \<or> m_state (timo_keep iv s) = m_state s" by (simp add: timo_keep_def)
  then show ?thesis by (auto simp: TCPT_KEEP timer_expired_def intro: moves_closed moves_same)
qed (simp_all add: timer_expired_def timo_persist_def timo_2msl_def Let_def moves_closed)

lemma handle_slow_timo_moves: "moves s (handle_slow_timo iv k s)"
proof -
  have one: "moves s (tick_timer iv k t s)" for t s
    using timer_expired_moves [of "set_timer t (to_i16 (m_timers s t - 1)) s" iv k t]
    by (simp add: tick_timer_def Let_def)
  have "moves s (fold (tick_timer iv k) ts s)" for ts
    by (induction ts arbitrary: s) (auto intro: rtranclp_trans one)
  then show ?thesis by (simp add: handle_slow_timo_def Let_def)
qed

lemma handle_receive_moves: "handle_receive iv k e ep bytes s = Some t \<Longrightarrow> moves s t"
proof -
  assume run: "handle_receive iv k e ep bytes s = Some t"
  show ?thesis
  proof (cases "next_layer s \<and> \<not> is_error e \<and> ep = peer_ep s")
    case True
    with run obtain c v where v: "cb_input iv k bytes (s\<lparr>remote_ep := ep\<rparr>) = Some (c, v)"
      and t: "t = do_receive (if c then v\<lparr>rcv_pkt := False\<rparr> else v)"
      by (auto simp: handle_receive_def bind_eq_Some_conv)
    have "m_state t = m_state v" by (simp add: t)
    with cb_input_moves [OF v] show ?thesis by simp
  next
    case False
    with run show ?thesis by (auto simp: handle_receive_def Let_def split: if_splits)
  qed
qed

lemma cb_connect_moves: "m_state (snd (cb_connect iv s)) = (if m_state s = TCPS_CLOSED then TCPS_SYN_SENT else m_state s)"
  by (simp add: cb_connect_def Let_def)

lemma cb_shutdown_moves: "m_state (snd (cb_shutdown iv s)) =
    (case m_state s of TCPS_ESTABLISHED \<Rightarrow> TCPS_FIN_WAIT_1 | TCPS_CLOSE_WAIT \<Rightarrow> TCPS_LAST_ACK | st \<Rightarrow> st)"
  by (simp add: cb_shutdown_def split: tcp_state.splits)

lemma async_connect_state: "async_connect iv rep h s = Some t \<Longrightarrow> user_move (Connect rep h) (m_state s) (m_state t)"
  by (auto simp: async_connect_def do_probe_mtu_def bind_eq_Some_conv cb_connect_moves intro: user_move.intros
      split: if_splits)

lemma async_shutdown_state: "user_move (Shutdown h) (m_state s) (m_state (async_shutdown iv h s))"
  by (cases "m_state s") (simp_all add: async_shutdown_def cb_shutdown_moves user_move.intros)

lemma async_accept_state: "user_move (Accept rep h) (m_state s) (m_state (async_accept rep h s))"
  by (simp add: async_accept_def cb_accept_def user_move.intros)

lemma async_send_state [simp]: "m_state (async_send iv c h s) = m_state s"
  by (auto simp: async_send_def Let_def split: prod.splits dest: m_state_consume)

lemma async_receive_state [simp]: "m_state (async_receive iv buf h s) = m_state s"
  by (simp add: async_receive_def)

lemma close_moves: "moves s (close s)"
  by (simp add: close_def cb_close_def Let_def)

lemma create_moves: "moves s (snd (create b f s))"
  by (simp add: create_def cb_init_def Let_def)

lemma socket_step_moves:
  "socket_step iv s e = Some t \<Longrightarrow> \<exists>st. user_move e (m_state s) st \<and> net_move\<^sup>*\<^sup>* st (m_state t)"
proof -
  assume st: "socket_step iv s e = Some t"
  have eq: "?thesis" if "moves s t" using that user_move.no_request by blast
  have us: "?thesis" if "user_move e (m_state s) (m_state t)" using that by blast
  show ?thesis
  proof (cases e)
    case (Connect rep h)
    with st us show ?thesis by (auto dest: async_connect_state)
  next
    case (Accept rep h)
    with st us show ?thesis using async_accept_state by auto
  next
    case (Shutdown h)
    with st us show ?thesis using async_shutdown_state by auto
  next
    case (Set_option opt v)
    with st eq show ?thesis by (cases opt) (auto simp: setsockopt_def split: if_splits)
  next
    case (Datagram e ep bytes k)
    with st eq show ?thesis by (auto dest: handle_receive_moves)
  next
    case (Slow_tick k)
    with st eq show ?thesis using handle_slow_timo_moves by (auto split: if_splits)
  qed (use st eq close_moves create_moves in \<open>auto simp: handle_fast_timo_def split: if_splits\<close>)
qed

section \<open>A pending drop is carried out\<close>

text \<open>Nothing between the request to drop the connection and its execution takes the request back.\<close>

definition drop_view :: "udt_socket \<Rightarrow> bool \<times> error_code \<times> bool" where
  "drop_view s = (flag s TF_NOTIFY_DROP, m_last_error s, next_layer s)"

lemma drop_view_record [simp]: "drop_view (set_timer t v s) = drop_view s" "drop_view (emit e s) = drop_view s"
    "drop_view (s\<lparr>snd_buf := sb\<rparr>) = drop_view s" "drop_view (s\<lparr>rcv_buf := rb\<rparr>) = drop_view s"
    "drop_view (s\<lparr>m_snd_nxt := x\<rparr>) = drop_view s" "drop_view (s\<lparr>m_snd_max := x\<rparr>) = drop_view s"
    "drop_view (s\<lparr>m_rcv_adv := x\<rparr>) = drop_view s" "drop_view (s\<lparr>m_rxtshift := y\<rparr>) = drop_view s"
    "drop_view (s\<lparr>m_rtt := y\<rparr>) = drop_view s" "drop_view (s\<lparr>m_rtseq := x\<rparr>) = drop_view s"
    "drop_view (s\<lparr>m_snd_cwnd := w\<rparr>) = drop_view s" "drop_view (s\<lparr>m_retrans_data := w\<rparr>) = drop_view s"
    "drop_view (s\<lparr>send_ops := ops\<rparr>) = drop_view s" "drop_view (s\<lparr>pending_data := w\<rparr>) = drop_view s"
    "drop_view (s\<lparr>recv_ops := rops\<rparr>) = drop_view s"
  by (simp_all add: drop_view_def set_timer_def emit_def flag_def)

lemma drop_view_flags [simp]:
  assumes "has_flag f TF_NOTIFY_DROP = False"
  shows "drop_view (set_flags f s) = drop_view s" "drop_view (clear_flags f s) = drop_view s"
proof -
  have "TF_NOTIFY_DROP AND f = 0" using assms by (simp add: has_flag_def and.commute)
  then have "has_flag (m_flags s AND NOT f) TF_NOTIFY_DROP = has_flag (m_flags s) TF_NOTIFY_DROP" by (rule has_flag_clear)
  then show "drop_view (clear_flags f s) = drop_view s" by (simp add: drop_view_def clear_flags_def flag_def)
  show "drop_view (set_flags f s) = drop_view s"
    using assms by (simp add: drop_view_def set_flags_def flag_def has_flag_or_left)
qed

lemma drop_view_inline [simp]: "drop_view (slow_start s) = drop_view s" "drop_view (leave_persist s) = drop_view s"
    "drop_view (enter_persist s) = drop_view s"
  by (simp_all add: slow_start_def leave_persist_def enter_persist_def Let_def)

lemma drop_view_consume_loop: "consume_loop ops n s = (ops', n', t) \<Longrightarrow> drop_view t = drop_view s"
  by (induction ops n s arbitrary: ops' n' t rule: consume_loop.induct)
    (auto simp: Let_def split: prod.splits bool.splits)

lemma drop_view_consume: "consume_pending_data s = (n, t) \<Longrightarrow> drop_view t = drop_view s"
  by (auto simp: consume_pending_data_def split: prod.splits dest: drop_view_consume_loop)

lemma drop_view_get_snd_pkt: "get_snd_pkt n s = (p, t) \<Longrightarrow> drop_view t = drop_view s"
  by (auto simp: get_snd_pkt_def Let_def split: option.splits prod.splits if_splits)

lemma drop_view_out_select: "out_select s = (p, a, f, t) \<Longrightarrow> drop_view t = drop_view s"
proof -
  have c: "drop_view (snd (consume_pending_data u)) = drop_view u" for u
    using drop_view_consume [of u] by (cases "consume_pending_data u") auto
  assume "out_select s = (p, a, f, t)"
  then show ?thesis
    by (auto simp: out_select_def Let_def c split: if_splits prod.splits dest!: drop_view_get_snd_pkt)
qed

lemma drop_view_account [simp]: "drop_view (out_account f n s) = drop_view s"
  by (simp add: out_account_def Let_def has_flag_def udt_const)

lemma drop_view_respond [simp]: "drop_view (udp_output h d s) = drop_view s" "drop_view (respond a q fl s) = drop_view s"
    "drop_view (reset_peer s) = drop_view s"
  by (simp_all add: udp_output_def respond_def reset_peer_def)

lemma drop_view_out_send [simp]: "drop_view (out_send w f p s) = drop_view s"
  by (simp add: out_send_def Let_def has_flag_def udt_const)

lemma drop_view_out_pass: "out_pass iv s = (n, again, t) \<Longrightarrow> drop_view t = drop_view s"
  by (auto simp: out_pass_def Let_def split: prod.splits if_splits dest!: drop_view_out_select)

lemma drop_view_out_loop: "drop_view (snd (out_loop iv k n s)) = drop_view s"
  by (induction iv k n s rule: out_loop.induct) (auto split: prod.splits dest!: drop_view_out_pass)

lemma drop_view_output [simp]: "drop_view (snd (cb_output iv s)) = drop_view s"
  by (simp add: cb_output_def Let_def drop_view_out_loop)

lemma drop_view_dispatch: "drop_view (snd (dispatch_recv_operation ops s)) = drop_view s"
  by (simp add: dispatch_recv_operation_def Let_def split: prod.splits)

lemma drop_view_recv_loop: "recv_loop ops b s = (left, out, t) \<Longrightarrow> drop_view t = drop_view s"
proof (induction ops b s arbitrary: left out t rule: recv_loop.induct)
  case (2 ops rest b s)
  obtain k u where d: "dispatch_recv_operation ops s = (k, u)" by (cases "dispatch_recv_operation ops s")
  then have "drop_view u = drop_view s" using drop_view_dispatch [of ops s] by simp
  with 2 d show ?case by (cases k) (auto simp: delay_recv_operation_def split: if_splits)
qed simp

lemma drop_view_recv_data [simp]: "drop_view (recv_data iv s) = drop_view s"
  by (auto simp: recv_data_def Let_def split: prod.splits dest: drop_view_recv_loop)

lemma drop_view_notify [simp]: "drop_view (on_readable iv s) = drop_view s" "drop_view (on_writable iv s) = drop_view s"
  by (auto simp: on_readable_def on_writable_def split: prod.splits dest: drop_view_consume)

lemma commit_drop:
  assumes "flag s TF_NOTIFY_DROP"
  shows "\<exists>u. commit_notifies iv s = clear_flags TF_NOTIFY_DROP (cb_drop iv (m_last_error s) u) \<and> next_layer u = next_layer s"
proof -
  let ?s1 = "if flag s (TF_ACKNOW OR TF_NEED_OUTPUT) then snd (cb_output iv s) else s"
  let ?s2 = "if flag ?s1 TF_NEED_RESET then clear_flags TF_NEED_RESET (reset_peer ?s1) else ?s1"
  let ?s3 = "if flag ?s2 TF_NOTIFY_READ then clear_flags TF_NOTIFY_READ
      (if above_lowat (rcv_buf ?s2) \<or> TCPS_HAVERCVDFIN ?s2 then on_readable iv ?s2 else ?s2) else ?s2"
  let ?s4 = "if flag ?s3 TF_NOTIFY_WRITE then clear_flags TF_NOTIFY_WRITE (on_writable iv ?s3) else ?s3"
  have f: "has_flag TF_NEED_RESET TF_NOTIFY_DROP = False" "has_flag TF_NOTIFY_READ TF_NOTIFY_DROP = False"
      "has_flag TF_NOTIFY_WRITE TF_NOTIFY_DROP = False"
    by (simp_all add: has_flag_def udt_const)
  have 1: "drop_view ?s1 = drop_view s" by simp
  have 2: "drop_view ?s2 = drop_view ?s1" using f by simp
  have 3: "drop_view ?s3 = drop_view ?s2" using f by simp
  have 4: "drop_view ?s4 = drop_view ?s3" using f by simp
  have "drop_view ?s4 = drop_view s" using 1 2 3 4 by (simp only:)
  then have "flag ?s4 TF_NOTIFY_DROP" "m_last_error ?s4 = m_last_error s"
      "next_layer ?s4 = next_layer s" using assms by (simp_all add: drop_view_def)
  then show ?thesis unfolding commit_notifies_def Let_def by (simp only: if_True) blast
qed

lemma cb_drop_clears:
  assumes "next_layer u" and "is_error e"
  shows "send_ops (cb_drop iv e u) = [] \<and> recv_ops (cb_drop iv e u) = [] \<and> pending_data (cb_drop iv e u) = 0 \<and>
    connect_handler (cb_drop iv e u) = None \<and> accept_handler (cb_drop iv e u) = None \<and>
    shutdown_handler (cb_drop iv e u) = None"
  using assms by (simp add: cb_drop_def on_disconnected_def cancel_def Let_def)

lemma drop_view_post_all [simp]: "drop_view (post_all ops e s) = drop_view s"
  by (induction ops e s rule: post_all.induct) simp_all

lemma error_of_view: "drop_view t = drop_view s \<Longrightarrow> m_last_error t = m_last_error s"
  by (simp add: drop_view_def)

lemma cancel_error [simp]: "m_last_error (cancel s) = m_last_error s"
  by (simp add: cancel_def cancel_next_layer_def Let_def emit_def)

lemma drop_view_disconnected: "m_last_error (on_disconnected iv s) = m_last_error s"
proof -
  have e: "m_last_error (emit e s) = m_last_error s" for e s by (simp add: emit_def)
  have "m_last_error (recv_data iv (post_all ops e s)) = m_last_error s" for ops e
    by (rule error_of_view) simp
  then show ?thesis by (simp add: on_disconnected_def Let_def e split: option.splits)
qed

lemma cb_drop_error: "is_error e \<Longrightarrow> m_last_error (cb_drop iv e s) = e"
  by (simp add: cb_drop_def Let_def drop_view_disconnected)

lemma reset_segment:
  assumes len: "sizeof_udt_hdr \<le> length bytes" "unat (plen (parse_datagram bytes)) + unat (uh_off (hdr (parse_datagram bytes))) = length bytes"
    and fl: "\<not> has_hp (pflags (pkt_of_mem bytes))" "has_rst (pflags (parse_datagram bytes))"
    and s: "m_state s \<noteq> TCPS_CLOSED" "next_layer s"
  shows "\<exists>c t. cb_input iv k bytes s = Some (c, t) \<and> m_state t = TCPS_CLOSED \<and> m_last_error t = udt_error Connection_reset \<and>
    send_ops t = [] \<and> recv_ops t = [] \<and> pending_data t = 0"
proof -
  let ?p = "parse_datagram bytes"
  let ?s = "update_rtt (uh_pseq (hdr ?p)) (set_timer TCPT_KEEP s_keepidle (s\<lparr>m_pseq := pseq ?p, m_idle := 0\<rparr>))"
  let ?v = "set_flags TF_NOTIFY_DROP (?s\<lparr>m_last_error := udt_error Connection_reset\<rparr>)"
  let ?e = "udt_error Connection_reset"
  have n: "next_layer ?s" using s(2) by (simp add: update_rtt_def xmit_timer_def set_timer_def Let_def)
  have "m_state ?s = m_state s" by simp
  then have seg: "input_segment iv k ?p ?s = Some ?v"
    using s(1) fl(2) by (simp add: input_segment_def has_rst_def)
  have "flag ?v TF_NOTIFY_DROP" by (simp add: flag_def set_flags_def has_flag_or_left has_flag_self udt_const)
  from commit_drop [OF this, of iv] obtain u where u: "next_layer u"
      "commit_notifies iv ?v = clear_flags TF_NOTIFY_DROP (cb_drop iv ?e u)"
    using n by (auto simp: set_flags_def)
  have e: "is_error ?e" by simp
  have r: "cb_input iv k bytes s = Some (pkt_consumed (commit_notifies iv ?v))"
    using len fl(1) seg by (simp add: cb_input_def Let_def parse_datagram_def)
  obtain c t where t: "pkt_consumed (clear_flags TF_NOTIFY_DROP (cb_drop iv ?e u)) = (c, t)"
    by (cases "pkt_consumed (clear_flags TF_NOTIFY_DROP (cb_drop iv ?e u))")
  have f: "t = clear_flags TF_PACKET_CONSUMED (clear_flags TF_NOTIFY_DROP (cb_drop iv ?e u)) \<or>
      t = clear_flags TF_NOTIFY_DROP (cb_drop iv ?e u)"
    using t by (auto simp: pkt_consumed_def split: if_splits)
  have "m_state t = TCPS_CLOSED \<and> m_last_error t = ?e \<and> send_ops t = [] \<and> recv_ops t = [] \<and> pending_data t = 0"
    using f cb_drop_clears [OF u(1) e, of iv] cb_drop_error [OF e, of iv u] by (auto simp: clear_flags_def)
  with r u(2) t show ?thesis by simp
qed

section \<open>Runs that open nothing\<close>

fun opens :: "socket_event \<Rightarrow> bool" where
  "opens (Connect rep h) \<longleftrightarrow> True"
| "opens (Accept rep h) \<longleftrightarrow> True"
| "opens _ \<longleftrightarrow> False"

definition closing_step :: "indet \<Rightarrow> udt_socket \<Rightarrow> socket_event \<Rightarrow> udt_socket option" where
  "closing_step iv s e = (if opens e then None else socket_step iv s e)"

lemma net_moves_progress: "net_move\<^sup>*\<^sup>* a b \<Longrightarrow> progress a \<le> progress b"
  by (induction rule: rtranclp.induct) (auto dest: net_move_progress)

lemma user_move_progress: "user_move e a b \<Longrightarrow> \<not> opens e \<Longrightarrow> progress a \<le> progress b"
  by (induction rule: user_move.induct) simp_all

lemma closing_step_progress: "closing_step iv s e = Some t \<Longrightarrow> progress (m_state s) \<le> progress (m_state t)"
  by (auto simp: closing_step_def split: if_splits
      dest!: socket_step_moves net_moves_progress user_move_progress)

interpretation closing: machine "\<lambda>s. p \<le> progress (m_state s)" "closing_step iv" "\<lambda>s. p \<le> progress (m_state s)" for p iv
  by unfold_locales (auto dest: closing_step_progress)

section \<open>Properties\<close>

text \<open>C6. Every event of the socket moves the connection along its state diagram: at most one
  transition the user asked for (connect and accept only from CLOSED, the two halves of
  shutdown), then transitions of the protocol (SYN, acknowledgements, FIN, drop), which never
  lead back.\<close>

theorem state_machine_followed:
  assumes "socket_step iv s e = Some t"
  shows "\<exists>st. user_move e (m_state s) st \<and> net_move\<^sup>*\<^sup>* st (m_state t)"
  by (rule socket_step_moves [OF assms])

theorem state_machine_followed_witness:
  "\<exists>st. user_move (Accept \<lparr>ep_addr = 1, ep_port = 2\<rparr> 3) TCPS_CLOSED st \<and> net_move\<^sup>*\<^sup>* st TCPS_LISTEN"
proof -
  have o': "m_state example_open = TCPS_CLOSED" "next_layer example_open"
    by (simp_all add: example_open_def create_def udt_socket_init_def cb_init_def canceltimers_def set_timer_def emit_def Let_def)
  have "socket_step (\<lambda>_. 0) example_open (Accept \<lparr>ep_addr = 1, ep_port = 2\<rparr> 3) = Some (async_accept \<lparr>ep_addr = 1, ep_port = 2\<rparr> 3 example_open)" by simp
  from state_machine_followed [OF this] show ?thesis
    using o' by (simp add: async_accept_def cb_accept_def do_receive_def emit_def)
qed

text \<open>C7. Over any run in which the user opens no connection, the connection never goes back:
  a half-closed connection is not established again, a closed one stays closed.\<close>

theorem never_backwards:
  assumes "run (closing_step iv) s es = Some t"
  shows "progress (m_state s) \<le> progress (m_state t)"
  by (rule closing.run_inv [OF order.refl assms])

theorem never_backwards_witness:
  "run (closing_step (\<lambda>_. 0)) example_open [Fast_tick, Cancel] = Some (cancel example_open) \<and>
   progress (m_state example_open) \<le> progress (m_state (cancel example_open))"
proof -
  have f: "flag example_open TF_DELACK = False"
    by (simp add: example_open_def create_def udt_socket_init_def cb_init_def canceltimers_def set_timer_def emit_def
        Let_def flag_def has_flag_def)
  have "run (closing_step (\<lambda>_. 0)) example_open [Fast_tick, Cancel] = Some (cancel example_open)"
    by (simp add: closing_step_def handle_fast_timo_def f)
  with never_backwards [OF this] show ?thesis by simp
qed

text \<open>C9. A well-formed datagram with RST, whatever else it carries, closes an open connection: the
  error is \<open>connection_reset\<close>, and no operation is left waiting.\<close>

theorem reset_closes:
  assumes "sizeof_udt_hdr \<le> length bytes"
    and "unat (plen (parse_datagram bytes)) + unat (uh_off (hdr (parse_datagram bytes))) = length bytes"
    and "\<not> has_hp (pflags (pkt_of_mem bytes))" and "has_rst (pflags (parse_datagram bytes))"
    and "m_state s \<noteq> TCPS_CLOSED" and "next_layer s"
  shows "\<exists>c t. cb_input iv k bytes s = Some (c, t) \<and> m_state t = TCPS_CLOSED \<and> m_last_error t = udt_error Connection_reset \<and>
    send_ops t = [] \<and> recv_ops t = [] \<and> pending_data t = 0"
  by (rule reset_segment [OF assms])

definition example_reset :: "u8 list" where
  "example_reset = mem_of_hdr (hton \<lparr>uh_ver = 0, uh_flags = TH_RST, uh_win = 0, uh_len = 0, uh_off = 20,
     uh_seq = 7, uh_ack = 0, uh_pseq = 0\<rparr>)"

lemma hdr_of_mem_alone: "hdr_of_mem (mem_of_hdr h) = h"
  using hdr_of_mem_of_hdr [of h "[]"] by simp

theorem reset_closes_witness:
  "\<exists>c t. cb_input (\<lambda>_. 0) 0 example_reset example_socket = Some (c, t) \<and> m_state t = TCPS_CLOSED"
proof -
  have p: "pflags (pkt_of_mem example_reset) = TH_RST" "hdr (parse_datagram example_reset) =
      \<lparr>uh_ver = 0, uh_flags = TH_RST, uh_win = 0, uh_len = 0, uh_off = 20, uh_seq = 7, uh_ack = 0, uh_pseq = 0\<rparr>"
    by (simp_all add: example_reset_def parse_datagram_def pkt_of_mem_def hdr_of_mem_alone)
  have s: "m_state example_socket \<noteq> TCPS_CLOSED" "next_layer example_socket"
    by (simp_all add: example_socket_def create_def udt_socket_init_def cb_init_def canceltimers_def set_timer_def
        emit_def Let_def)
  have l: "length example_reset = 20" by (simp add: example_reset_def)
  from reset_closes [of example_reset example_socket "\<lambda>_. 0" 0] show ?thesis
    using p s l by (auto simp: has_hp_def has_rst_def has_flag_def udt_const)
qed

end
