(* ===== verification/Udt_Tracker.thy ===== *)
theory Udt_Tracker
  imports Udt_State
begin

text \<open>
  Small parts the helpers of the engine share: \<open>src/udt/tracker.h\<close> (the guard that silences
  completions of an object that was cancelled or deleted), \<open>src/udt/timer.h\<close> and \<open>timer.cpp\<close>
  (the periodic timer of the connection), the byte order of 64-bit integers and the posted-call
  wrapper of \<open>src/udt/utils.h\<close>, and \<open>std::map\<close> as an ordered association list.
\<close>

section \<open>Guards of pending completions\<close>

text \<open>
  A completion handler takes a ticket when it is registered and asks, when it runs, whether the
  ticket is still good. The contract: a ticket just taken was issued, and once the guard has
  moved on, a ticket issued before is expired for ever.
\<close>

locale guard =
  fixes get :: "'t \<Rightarrow> 'w" and expired :: "'t \<Rightarrow> 'w \<Rightarrow> bool" and move :: "'o \<Rightarrow> 't \<Rightarrow> 't"
    and issued :: "'t \<Rightarrow> 'w \<Rightarrow> bool" and ok :: "'t \<Rightarrow> bool"
  assumes issued_get: "ok t \<Longrightarrow> issued t (get t)"
    and ok_move: "ok t \<Longrightarrow> ok (move a t)"
    and issued_move: "issued t w \<Longrightarrow> issued (move a t) w"
    and expired_move: "issued t w \<Longrightarrow> ok t \<Longrightarrow> expired (move a t) w"
begin

lemma ok_moves: "ok t \<Longrightarrow> ok (fold move as t)"
  by (induction as arbitrary: t) (simp_all add: ok_move)

lemma issued_moves: "issued t w \<Longrightarrow> issued (fold move as t) w"
  by (induction as arbitrary: t) (simp_all add: issued_move)

lemma stale: "issued t w \<Longrightarrow> ok t \<Longrightarrow> as \<noteq> [] \<Longrightarrow> expired (fold move as t) w"
proof (induction as rule: rev_induct)
  case (snoc a as)
  then show ?case by (simp add: expired_move issued_moves ok_moves)
qed simp

end

text \<open>
  \<open>tracker\<close>: a \<open>shared_ptr\<close> to a fresh character, known by its number, and the number of
  characters allocated so far. A \<open>weak_ptr\<close> is the number it was made from, or none.
\<close>

type_synonym weak_refer = "nat option"

record tracker =
  m_refer :: "nat option"
  allocated :: nat

definition tracker_init :: tracker where
  "tracker_init = \<lparr>m_refer = Some 0, allocated = 1\<rparr>"

definition tracker_get :: "tracker \<Rightarrow> weak_refer" where
  "tracker_get t = m_refer t"

definition tracker_set :: "tracker \<Rightarrow> tracker" where
  "tracker_set t = \<lparr>m_refer = Some (allocated t), allocated = allocated t + 1\<rparr>"

definition tracker_reset :: "tracker \<Rightarrow> tracker" where
  "tracker_reset t = t\<lparr>m_refer := None\<rparr>"

definition tracker_is_null :: "tracker \<Rightarrow> bool" where
  "tracker_is_null t \<longleftrightarrow> m_refer t = None"

text \<open>\<open>weak_refer::expired\<close>: the tracker holds the only \<open>shared_ptr\<close>.\<close>

definition refer_expired :: "tracker \<Rightarrow> weak_refer \<Rightarrow> bool" where
  "refer_expired t w \<longleftrightarrow> w = None \<or> m_refer t \<noteq> w"

datatype tracker_op = Tracker_set | Tracker_reset

fun tracker_move :: "tracker_op \<Rightarrow> tracker \<Rightarrow> tracker" where
  "tracker_move Tracker_set t = tracker_set t"
| "tracker_move Tracker_reset t = tracker_reset t"

definition tracker_ok :: "tracker \<Rightarrow> bool" where
  "tracker_ok t \<longleftrightarrow> (case m_refer t of None \<Rightarrow> True | Some n \<Rightarrow> n < allocated t)"

definition refer_issued :: "tracker \<Rightarrow> weak_refer \<Rightarrow> bool" where
  "refer_issued t w \<longleftrightarrow> (case w of None \<Rightarrow> True | Some n \<Rightarrow> n < allocated t)"

lemmas tracker_defs = tracker_get_def tracker_set_def tracker_reset_def tracker_is_null_def
  refer_expired_def tracker_ok_def refer_issued_def

interpretation tickets: guard tracker_get refer_expired tracker_move refer_issued tracker_ok
proof
  fix t a w
  show "tracker_ok t \<Longrightarrow> refer_issued t (tracker_get t)"
    by (simp add: tracker_defs)
  show "tracker_ok t \<Longrightarrow> tracker_ok (tracker_move a t)"
    by (cases a) (auto simp: tracker_defs)
  show "refer_issued t w \<Longrightarrow> refer_issued (tracker_move a t) w"
    by (cases a) (auto simp: tracker_defs split: option.splits)
  show "refer_issued t w \<Longrightarrow> tracker_ok t \<Longrightarrow> refer_expired (tracker_move a t) w"
    by (cases a) (auto simp: tracker_defs split: option.splits)
qed

lemma tracker_init_ok [simp]: "tracker_ok tracker_init"
  by (simp add: tracker_init_def tracker_ok_def)

section \<open>Ordered maps\<close>

text \<open>
  The operations the code uses of \<open>std::map\<close>: \<open>insert\<close>, which keeps an entry that is there
  already, a change through an iterator, \<open>erase\<close>, and \<open>find\<close>.
\<close>

locale std_map =
  fixes lookup :: "'m \<Rightarrow> 'k \<Rightarrow> 'v option" and insert_new :: "'k \<Rightarrow> 'v \<Rightarrow> 'm \<Rightarrow> 'm"
    and modify :: "'k \<Rightarrow> ('v \<Rightarrow> 'v) \<Rightarrow> 'm \<Rightarrow> 'm" and remove :: "'k \<Rightarrow> 'm \<Rightarrow> 'm"
    and ordered :: "'m \<Rightarrow> bool"
  assumes lookup_insert: "ordered m \<Longrightarrow>
      lookup (insert_new k v m) = (if lookup m k = None then (lookup m)(k \<mapsto> v) else lookup m)"
    and lookup_modify: "lookup (modify k f m) = (lookup m)(k := map_option f (lookup m k))"
    and lookup_remove: "lookup (remove k m) = (lookup m)(k := None)"
    and ordered_insert: "ordered m \<Longrightarrow> ordered (insert_new k v m)"
    and ordered_modify: "ordered m \<Longrightarrow> ordered (modify k f m)"
    and ordered_remove: "ordered m \<Longrightarrow> ordered (remove k m)"
begin

text \<open>What holds of every value of the map.\<close>

definition all_values :: "('v \<Rightarrow> bool) \<Rightarrow> 'm \<Rightarrow> bool" where
  "all_values P m \<longleftrightarrow> (\<forall>k v. lookup m k = Some v \<longrightarrow> P v)"

lemma all_values_insert: "ordered m \<Longrightarrow> all_values P m \<Longrightarrow> P v \<Longrightarrow> all_values P (insert_new k v m)"
  by (simp add: all_values_def lookup_insert)

lemma all_values_modify:
  "all_values P m \<Longrightarrow> (\<And>v. lookup m k = Some v \<Longrightarrow> P v \<Longrightarrow> P (f v)) \<Longrightarrow> all_values P (modify k f m)"
  by (auto simp: all_values_def lookup_modify)

lemma all_values_remove: "all_values P m \<Longrightarrow> all_values P (remove k m)"
  by (simp add: all_values_def lookup_remove)

text \<open>Inserting a default for every key of a list and changing the entry each time.\<close>

definition visit :: "'v \<Rightarrow> ('v \<Rightarrow> 'v) \<Rightarrow> 'k list \<Rightarrow> 'm \<Rightarrow> 'm" where
  "visit v f ks m = fold (\<lambda>k m. modify k f (insert_new k v m)) ks m"

lemma ordered_visit: "ordered m \<Longrightarrow> ordered (visit v f ks m)"
  unfolding visit_def by (induction ks arbitrary: m) (simp_all add: ordered_insert ordered_modify)

lemma lookup_visit:
  assumes "\<And>v. f (f v) = f v"
  shows "ordered m \<Longrightarrow> lookup (visit v f ks m) k =
    (if k \<in> set ks then Some (f (case lookup m k of None \<Rightarrow> v | Some w \<Rightarrow> w)) else lookup m k)"
  unfolding visit_def
proof (induction ks arbitrary: m)
  case (Cons a ks)
  then have o: "ordered (modify a f (insert_new a v m))" by (simp add: ordered_insert ordered_modify)
  show ?case using Cons.IH [OF o] Cons.prems
    by (auto simp: lookup_modify lookup_insert assms split: option.splits)
qed simp

end

fun map_insert :: "'k::linorder \<Rightarrow> 'v \<Rightarrow> ('k \<times> 'v) list \<Rightarrow> ('k \<times> 'v) list" where
  "map_insert k v [] = [(k, v)]"
| "map_insert k v ((a, w) # m) =
     (if k < a then (k, v) # (a, w) # m else if k = a then (a, w) # m else (a, w) # map_insert k v m)"

definition map_modify :: "'k \<Rightarrow> ('v \<Rightarrow> 'v) \<Rightarrow> ('k \<times> 'v) list \<Rightarrow> ('k \<times> 'v) list" where
  "map_modify k f m = map (\<lambda>(a, w). (a, if a = k then f w else w)) m"

definition map_erase :: "'k \<Rightarrow> ('k \<times> 'v) list \<Rightarrow> ('k \<times> 'v) list" where
  "map_erase k m = filter (\<lambda>(a, w). a \<noteq> k) m"

definition map_sorted :: "('k::linorder \<times> 'v) list \<Rightarrow> bool" where
  "map_sorted m \<longleftrightarrow> sorted_wrt (<) (map fst m)"

lemma map_sorted_simps [simp]: "map_sorted []"
    "map_sorted (p # m) \<longleftrightarrow> (\<forall>q \<in> set m. fst p < fst q) \<and> map_sorted m"
  by (auto simp: map_sorted_def)

lemma map_of_above: "\<forall>q \<in> set m. k < fst q \<Longrightarrow> map_of m k = None"
  for k :: "'k::linorder"
  by (auto simp: map_of_eq_None_iff)

lemma map_of_insert: "map_sorted m \<Longrightarrow>
    map_of (map_insert k v m) = (if map_of m k = None then (map_of m)(k \<mapsto> v) else map_of m)"
proof (induction k v m rule: map_insert.induct)
  case (2 k v a w m)
  show ?case
  proof (cases "k < a")
    case True
    with 2 have "map_of m k = None" by (intro map_of_above) (auto dest: less_trans)
    with True show ?thesis by (auto simp: fun_eq_iff)
  next
    case False
    with 2 show ?thesis by (auto simp: fun_eq_iff)
  qed
qed simp

lemma set_map_insert: "set (map_insert k v m) \<subseteq> insert (k, v) (set m)"
  by (induction k v m rule: map_insert.induct) auto

lemma map_sorted_insert: "map_sorted m \<Longrightarrow> map_sorted (map_insert k v m)"
proof (induction k v m rule: map_insert.induct)
  case (2 k v a w m)
  with set_map_insert [of k v m] show ?case by (auto dest: less_trans)
qed simp

lemma map_of_modify: "map_of (map_modify k f m) = (map_of m)(k := map_option f (map_of m k))"
  by (induction m) (auto simp: map_modify_def fun_eq_iff)

lemma map_of_erase: "map_of (map_erase k m) = (map_of m)(k := None)"
  by (induction m) (auto simp: map_erase_def fun_eq_iff)

interpretation omap: std_map map_of map_insert map_modify map_erase map_sorted
proof
  fix m :: "('a::linorder \<times> 'b) list" and k v f
  show "map_sorted m \<Longrightarrow> map_of (map_insert k v m) = (if map_of m k = None then (map_of m)(k \<mapsto> v) else map_of m)"
    by (rule map_of_insert)
  show "map_of (map_modify k f m) = (map_of m)(k := map_option f (map_of m k))" by (rule map_of_modify)
  show "map_of (map_erase k m) = (map_of m)(k := None)" by (rule map_of_erase)
  show "map_sorted m \<Longrightarrow> map_sorted (map_insert k v m)" by (rule map_sorted_insert)
  show "map_sorted m \<Longrightarrow> map_sorted (map_modify k f m)"
    by (simp add: map_sorted_def map_modify_def comp_def case_prod_beta)
  show "map_sorted m \<Longrightarrow> map_sorted (map_erase k m)"
    unfolding map_sorted_def map_erase_def by (induction m) auto
qed

section \<open>Properties of a run and its history\<close>

text \<open>What holds at the start and survives every step, given the events so far, holds at the end.\<close>

lemma run_history:
  assumes "run step s0 es = Some t" and "P [] s0"
    and "\<And>es s e t. run step s0 es = Some s \<Longrightarrow> P es s \<Longrightarrow> step s e = Some t \<Longrightarrow> P (es @ [e]) t"
  shows "P es t"
  using assms(1)
proof (induction es arbitrary: t rule: rev_induct)
  case Nil
  then show ?case using assms(2) by simp
next
  case (snoc e es)
  then obtain u where "run step s0 es = Some u" "step u e = Some t" by (auto simp: run_append bind_eq_Some_conv)
  with snoc.IH assms(3) show ?case by blast
qed

end
