(* ===== verification/Udt_Hole.thy ===== *)
theory Udt_Hole
  imports Udt_Tracker
begin

text \<open>
  \<open>src/udt/udp_hp_clt.h\<close> and \<open>udp_hp_clt.cpp\<close>: the hole punching client. It keeps a state per
  peer endpoint, sends each peer three copies of a 20-byte header that says how far it has come,
  answers the headers it receives, and gives up after twenty timeouts.
\<close>

section \<open>Endpoints in order\<close>

text \<open>\<open>operator<\<close> of an endpoint: by address, then by port.\<close>

instantiation udp_endpoint_ext :: (linorder) linorder
begin

definition less_eq_udp_endpoint_ext :: "'a udp_endpoint_scheme \<Rightarrow> 'a udp_endpoint_scheme \<Rightarrow> bool" where
  "less_eq_udp_endpoint_ext e f \<longleftrightarrow> ep_addr e < ep_addr f \<or> ep_addr e = ep_addr f \<and>
     (ep_port e < ep_port f \<or> ep_port e = ep_port f \<and> udp_endpoint.more e \<le> udp_endpoint.more f)"

definition less_udp_endpoint_ext :: "'a udp_endpoint_scheme \<Rightarrow> 'a udp_endpoint_scheme \<Rightarrow> bool" where
  "less_udp_endpoint_ext e f \<longleftrightarrow> ep_addr e < ep_addr f \<or> ep_addr e = ep_addr f \<and>
     (ep_port e < ep_port f \<or> ep_port e = ep_port f \<and> udp_endpoint.more e < udp_endpoint.more f)"

instance
proof
  fix x y z :: "'a udp_endpoint_scheme"
  show "x < y \<longleftrightarrow> x \<le> y \<and> \<not> y \<le> x"
    by (auto simp: less_eq_udp_endpoint_ext_def less_udp_endpoint_ext_def)
  show "x \<le> x" by (simp add: less_eq_udp_endpoint_ext_def)
  show "x \<le> y \<Longrightarrow> y \<le> z \<Longrightarrow> x \<le> z"
    by (auto simp: less_eq_udp_endpoint_ext_def)
  show "x \<le> y \<Longrightarrow> y \<le> x \<Longrightarrow> x = y"
    by (cases x; cases y) (auto simp: less_eq_udp_endpoint_ext_def)
  show "x \<le> y \<or> y \<le> x" by (auto simp: less_eq_udp_endpoint_ext_def)
qed

end

section \<open>The state\<close>

datatype hp_state = HP_CLOSED | HP_LISTEN | HP_SYN_SENT | HP_SYN_RECEIVED | HP_ESTABLISHED

record endpoint_info =
  info_snd_buf :: "u8 list"
  info_state :: hp_state

definition endpoint_info_init :: endpoint_info where
  "endpoint_info_init = \<lparr>info_snd_buf = [], info_state = HP_CLOSED\<rparr>"

definition DFT_RCV_BUF_SIZE :: nat where [udt_const]: "DFT_RCV_BUF_SIZE = 2048"
definition DFT_SEND_PACKETS :: nat where [udt_const]: "DFT_SEND_PACKETS = 3"
definition DFT_TIMEOUT_S :: nat where [udt_const]: "DFT_TIMEOUT_S = 3"
definition DFT_TIMEOUT_COUNT :: nat where [udt_const]: "DFT_TIMEOUT_COUNT = 20"

text \<open>What the client does to the outside, in order; the last is the call posted to the \<open>io_service\<close>.\<close>

datatype hp_effect =
    Hp_send udp_endpoint "u8 list"
  | Hp_receive
  | Hp_expires nat
  | Hp_cancel_socket
  | Hp_cancel_timer
  | Hp_post "handler option" error_code "udp_endpoint list"

text \<open>
  \<open>hp_socket\<close> tells whether \<open>socket_\<close> is set. \<open>hp_receives\<close> and \<open>hp_waits\<close> are the operations asio
  still owes a completion, with the arguments bound into their handlers.
\<close>

record udp_hp_clt =
  hp_remote_ep :: udp_endpoint
  peer_eps :: "(udp_endpoint \<times> endpoint_info) list"
  hp_socket :: bool
  hp_handler :: "handler option"
  hp_rcv_buf :: "u8 list"
  hp_last_error :: error_code
  hp_tracker :: tracker
  hp_receives :: "weak_refer list"
  hp_waits :: "(nat \<times> weak_refer) list"
  hp_effects :: "hp_effect list"

definition hp_emit :: "hp_effect list \<Rightarrow> udp_hp_clt \<Rightarrow> udp_hp_clt" where
  "hp_emit es s = s\<lparr>hp_effects := hp_effects s @ es\<rparr>"

section \<open>Operations\<close>

definition udp_hp_clt_init :: udp_hp_clt where
  "udp_hp_clt_init = \<lparr>hp_remote_ep = \<lparr>ep_addr = 0, ep_port = 0\<rparr>, peer_eps = [], hp_socket = False,
     hp_handler = None, hp_rcv_buf = [], hp_last_error = no_error, hp_tracker = tracker_init,
     hp_receives = [], hp_waits = [], hp_effects = []\<rparr>"

text \<open>\<open>std::string::resize\<close>.\<close>

definition str_resize :: "nat \<Rightarrow> u8 list \<Rightarrow> u8 list" where
  "str_resize n b = take n b @ replicate (n - length b) 0"

text \<open>
  \<open>sk\<close>: whether the socket pointer is set and open, and whether it has a local endpoint. The
  result is 0 or -1.
\<close>

definition hp_create :: "bool \<Rightarrow> bool \<Rightarrow> udp_hp_clt \<Rightarrow> int \<times> udp_hp_clt" where
  "hp_create is_open bound s =
     (if \<not> is_open then (- 1, s)
      else if \<not> bound then (- 1, s)
      else let s = s\<lparr>hp_socket := True\<rparr>;
               s = (if tracker_is_null (hp_tracker s) then s\<lparr>hp_tracker := tracker_set (hp_tracker s)\<rparr> else s)
           in (0, s\<lparr>hp_rcv_buf := str_resize DFT_RCV_BUF_SIZE (hp_rcv_buf s)\<rparr>))"

definition hp_cancel :: "udp_hp_clt \<Rightarrow> udp_hp_clt" where
  "hp_cancel s =
     (let s = s\<lparr>hp_tracker := tracker_reset (hp_tracker s)\<rparr>;
          s = (if hp_socket s then hp_emit [Hp_cancel_socket] s else s)
      in hp_emit [Hp_cancel_timer] s)"

definition hp_close :: "udp_hp_clt \<Rightarrow> udp_hp_clt" where
  "hp_close s =
     (if \<not> hp_socket s then s
      else (hp_cancel s)\<lparr>hp_socket := False, hp_handler := None, hp_rcv_buf := [], hp_last_error := no_error\<rparr>)"

definition prepare_send_peer_data :: "u8 \<Rightarrow> u8 list" where
  "prepare_send_peer_data flags =
     mem_of_hdr (hton \<lparr>uh_ver = 0, uh_flags = flags OR TH_HP, uh_win = 0, uh_len = 0,
       uh_off = word_of_nat sizeof_udt_hdr, uh_seq = 0, uh_ack = 0, uh_pseq = 0\<rparr>)"

text \<open>The loop of \<open>output\<close>: the packet for the peer's state, then three copies of what it holds.\<close>

definition hp_prepare :: "endpoint_info \<Rightarrow> endpoint_info" where
  "hp_prepare info =
     (case info_state info of
        HP_SYN_SENT \<Rightarrow> info\<lparr>info_snd_buf := prepare_send_peer_data TH_SYN\<rparr>
      | HP_SYN_RECEIVED \<Rightarrow> info\<lparr>info_snd_buf := prepare_send_peer_data (TH_SYN OR TH_ACK)\<rparr>
      | HP_ESTABLISHED \<Rightarrow> info\<lparr>info_snd_buf := prepare_send_peer_data TH_ACK\<rparr>
      | _ \<Rightarrow> info)"

fun hp_output_loop :: "(udp_endpoint \<times> endpoint_info) list \<Rightarrow> (udp_endpoint \<times> endpoint_info) list \<times> hp_effect list" where
  "hp_output_loop [] = ([], [])"
| "hp_output_loop ((ep, info) # m) =
     (let info = hp_prepare info;
          sent = (if info_snd_buf info \<noteq> [] then replicate DFT_SEND_PACKETS (Hp_send ep (info_snd_buf info)) else [])
      in case hp_output_loop m of (m', es) \<Rightarrow> ((ep, info) # m', sent @ es))"

definition hp_output :: "udp_hp_clt \<Rightarrow> udp_hp_clt" where
  "hp_output s = (case hp_output_loop (peer_eps s) of (m, es) \<Rightarrow> hp_emit es (s\<lparr>peer_eps := m\<rparr>))"

definition hp_async_receive :: "udp_hp_clt \<Rightarrow> udp_hp_clt" where
  "hp_async_receive s = hp_emit [Hp_receive] (s\<lparr>hp_receives := hp_receives s @ [tracker_get (hp_tracker s)]\<rparr>)"

definition hp_notify :: "udp_hp_clt \<Rightarrow> udp_hp_clt" where
  "hp_notify s = hp_emit [Hp_post (hp_handler s) (hp_last_error s)
     (map fst (filter (\<lambda>(ep, info). info_state info = HP_ESTABLISHED) (peer_eps s)))] s"

definition hp_async_wait :: "nat \<Rightarrow> udp_hp_clt \<Rightarrow> udp_hp_clt" where
  "hp_async_wait remain_count s =
     (if remain_count = 0 then hp_notify (s\<lparr>hp_last_error := asio_error Timed_out\<rparr>)
      else hp_emit [Hp_expires DFT_TIMEOUT_S]
             (s\<lparr>hp_waits := hp_waits s @ [(remain_count, tracker_get (hp_tracker s))]\<rparr>))"

text \<open>No result without a socket: the code calls through the null pointer.\<close>

definition async_hole_punch :: "handler \<Rightarrow> udp_endpoint list \<Rightarrow> udp_hp_clt \<Rightarrow> udp_hp_clt option" where
  "async_hole_punch h eps s =
     (if \<not> hp_socket s then None
      else let s = s\<lparr>hp_handler := Some h,
                     peer_eps := fold (\<lambda>ep m. map_modify ep (\<lambda>i. i\<lparr>info_state := HP_SYN_SENT\<rparr>)
                                               (map_insert ep endpoint_info_init m)) eps (peer_eps s)\<rparr>
           in Some (hp_async_wait DFT_TIMEOUT_COUNT (hp_async_receive (hp_output s))))"

text \<open>The header lies at the front of the receive buffer; \<open>ntoh\<close> converts it in place.\<close>

definition hp_answer :: "u8 \<Rightarrow> hp_state \<Rightarrow> bool \<times> hp_state" where
  "hp_answer flags st =
     (let (need_output, st) =
            (if has_syn flags \<and> (st = HP_CLOSED \<or> st = HP_SYN_SENT) then (True, HP_SYN_RECEIVED) else (False, st));
          st = (if has_ack flags \<and> st = HP_SYN_RECEIVED then HP_ESTABLISHED else st)
      in (need_output, st))"

definition handle_peer_resp :: "nat \<Rightarrow> udp_endpoint \<Rightarrow> udp_hp_clt \<Rightarrow> udp_hp_clt" where
  "handle_peer_resp len ep s =
     (let h = hdr_of_mem (hp_rcv_buf s)
      in if len \<noteq> sizeof_udt_hdr \<or> \<not> has_hp (uh_flags h) then s
         else let s = s\<lparr>hp_rcv_buf := mem_of_hdr (ntoh h) @ drop sizeof_udt_hdr (hp_rcv_buf s)\<rparr>
              in case map_of (peer_eps s) ep of
                   None \<Rightarrow> s
                 | Some info \<Rightarrow>
                     if info_state info = HP_ESTABLISHED then s
                     else case hp_answer (uh_flags h) (info_state info) of
                            (need_output, st) \<Rightarrow>
                              let s = s\<lparr>peer_eps := map_modify ep (\<lambda>i. i\<lparr>info_state := st\<rparr>) (peer_eps s)\<rparr>
                              in if need_output then hp_output s else s)"

text \<open>
  asio has stored the sender in \<open>remote_ep_\<close> and the datagram, cut to the size of the buffer, in
  \<open>rcv_buf_\<close> before the handler runs.
\<close>

definition hp_handle_async_receive ::
  "error_code \<Rightarrow> udp_endpoint \<Rightarrow> u8 list \<Rightarrow> weak_refer \<Rightarrow> udp_hp_clt \<Rightarrow> udp_hp_clt" where
  "hp_handle_async_receive e ep bytes wref s =
     (let bytes = take (length (hp_rcv_buf s)) bytes;
          s = s\<lparr>hp_remote_ep := ep, hp_rcv_buf := bytes @ drop (length bytes) (hp_rcv_buf s)\<rparr>
      in if e = asio_error Operation_aborted \<or> refer_expired (hp_tracker s) wref then s
         else case map_of (peer_eps s) (hp_remote_ep s) of
                None \<Rightarrow> hp_async_receive s
              | Some _ \<Rightarrow>
                  if \<not> is_error e
                  then let s = handle_peer_resp (length bytes) (hp_remote_ep s) s
                       in if map_option info_state (map_of (peer_eps s) (hp_remote_ep s)) = Some HP_ESTABLISHED
                          then hp_notify s else hp_async_receive s
                  else let s = s\<lparr>peer_eps := map_erase (hp_remote_ep s) (peer_eps s)\<rparr>
                       in if peer_eps s = [] then hp_notify (s\<lparr>hp_last_error := e\<rparr>) else hp_async_receive s)"

definition handle_async_timeout :: "error_code \<Rightarrow> nat \<Rightarrow> weak_refer \<Rightarrow> udp_hp_clt \<Rightarrow> udp_hp_clt" where
  "handle_async_timeout e remain_count wref s =
     (if e = asio_error Operation_aborted \<or> refer_expired (hp_tracker s) wref then s
      else hp_async_wait (remain_count - 1) (hp_output s))"

section \<open>The client as a machine\<close>

text \<open>The owner's calls, and the completion of the \<open>n\<close>-th operation owed.\<close>

datatype hp_event =
    Hp_create bool bool
  | Hp_cancel
  | Hp_close
  | Hp_punch handler "udp_endpoint list"
  | Hp_received nat error_code udp_endpoint "u8 list"
  | Hp_timeout nat error_code

definition owed_rest :: "nat \<Rightarrow> 'a list \<Rightarrow> 'a list" where
  "owed_rest n ws = take n ws @ drop (Suc n) ws"

fun hp_step :: "udp_hp_clt \<Rightarrow> hp_event \<Rightarrow> udp_hp_clt option" where
  "hp_step s (Hp_create is_open bound) = Some (snd (hp_create is_open bound s))"
| "hp_step s Hp_cancel = Some (hp_cancel s)"
| "hp_step s Hp_close = Some (hp_close s)"
| "hp_step s (Hp_punch h eps) = async_hole_punch h eps s"
| "hp_step s (Hp_received n e ep bytes) =
     (if n < length (hp_receives s)
      then Some (hp_handle_async_receive e ep bytes (hp_receives s ! n) (s\<lparr>hp_receives := owed_rest n (hp_receives s)\<rparr>))
      else None)"
| "hp_step s (Hp_timeout n e) =
     (if n < length (hp_waits s)
      then Some (handle_async_timeout e (fst (hp_waits s ! n)) (snd (hp_waits s ! n)) (s\<lparr>hp_waits := owed_rest n (hp_waits s)\<rparr>))
      else None)"

end
