(* ===== verification/Udt_Punch.thy ===== *)
theory Udt_Punch
  imports Udt_Hole Udt_Input
begin

text \<open>
  What the hole punching client promises: it reports only peers it heard from, it completes in
  one round that gets through, it gives up after twenty timeouts, and it is silent once it is
  cancelled.
\<close>

section \<open>The state of a peer\<close>

definition hp_state_of :: "udp_hp_clt \<Rightarrow> udp_endpoint \<Rightarrow> hp_state option" where
  "hp_state_of s ep = map_option info_state (map_of (peer_eps s) ep)"

definition hp_posted :: "udp_hp_clt \<Rightarrow> udp_endpoint \<Rightarrow> bool" where
  "hp_posted s ep \<longleftrightarrow> (\<exists>h e eps. Hp_post h e eps \<in> set (hp_effects s) \<and> ep \<in> set eps)"

lemma info_state_prepare [simp]: "info_state (hp_prepare i) = info_state i"
  by (simp add: hp_prepare_def split: hp_state.split)

lemma hp_output_loop_fst: "fst (hp_output_loop m) = map (\<lambda>(ep, i). (ep, hp_prepare i)) m"
  by (induction m) (auto simp: Let_def split: prod.splits)

lemma hp_output_loop_snd: "Hp_post h e eps \<notin> set (snd (hp_output_loop m))"
  by (induction m) (auto simp: Let_def split: prod.splits)

lemma map_of_prepare: "map_of (map (\<lambda>(ep, i). (ep, hp_prepare i)) m) ep = map_option hp_prepare (map_of m ep)"
  by (induction m) auto

lemma map_sorted_prepare: "map_sorted (map (\<lambda>(ep, i). (ep, hp_prepare i)) m) = map_sorted m"
  by (simp add: map_sorted_def comp_def case_prod_beta)

lemma hp_output_frame [simp]:
  "hp_remote_ep (hp_output s) = hp_remote_ep s" "hp_socket (hp_output s) = hp_socket s"
  "hp_handler (hp_output s) = hp_handler s" "hp_rcv_buf (hp_output s) = hp_rcv_buf s"
  "hp_last_error (hp_output s) = hp_last_error s" "hp_tracker (hp_output s) = hp_tracker s"
  "hp_receives (hp_output s) = hp_receives s" "hp_waits (hp_output s) = hp_waits s"
  by (simp_all add: hp_output_def hp_emit_def split: prod.split)

lemma peer_eps_output: "peer_eps (hp_output s) = map (\<lambda>(ep, i). (ep, hp_prepare i)) (peer_eps s)"
  by (simp add: hp_output_def hp_emit_def case_prod_beta hp_output_loop_fst)

lemma hp_state_of_output [simp]: "hp_state_of (hp_output s) ep = hp_state_of s ep"
  by (simp add: hp_state_of_def peer_eps_output map_of_prepare option.map_comp comp_def)

lemma hp_posted_output [simp]: "hp_posted (hp_output s) ep = hp_posted s ep"
  using hp_output_loop_snd [of _ _ _ "peer_eps s"]
  by (auto simp: hp_posted_def hp_output_def hp_emit_def split: prod.splits)

lemma map_sorted_distinct: "map_sorted m \<Longrightarrow> distinct (map fst m)"
  unfolding map_sorted_def by (simp add: strict_sorted_iff)

lemma map_sorted_lookup: "map_sorted m \<Longrightarrow> map_of m k = Some v \<longleftrightarrow> (k, v) \<in> set m"
  by (rule map_of_eq_Some_iff [OF map_sorted_distinct])

lemma hp_notify_frame [simp]:
  "peer_eps (hp_notify s) = peer_eps s" "hp_rcv_buf (hp_notify s) = hp_rcv_buf s"
  "hp_tracker (hp_notify s) = hp_tracker s" "hp_waits (hp_notify s) = hp_waits s"
  "hp_receives (hp_notify s) = hp_receives s" "hp_state_of (hp_notify s) ep = hp_state_of s ep"
  "hp_handler (hp_notify s) = hp_handler s" "hp_last_error (hp_notify s) = hp_last_error s"
  by (simp_all add: hp_notify_def hp_emit_def hp_state_of_def)

lemma hp_posted_notify: "map_sorted (peer_eps s) \<Longrightarrow>
    hp_posted (hp_notify s) ep \<longleftrightarrow> hp_posted s ep \<or> hp_state_of s ep = Some HP_ESTABLISHED"
  by (force simp: hp_posted_def hp_notify_def hp_emit_def hp_state_of_def map_sorted_lookup)

lemma hp_async_receive_frame [simp]:
  "peer_eps (hp_async_receive s) = peer_eps s" "hp_rcv_buf (hp_async_receive s) = hp_rcv_buf s"
  "hp_tracker (hp_async_receive s) = hp_tracker s" "hp_waits (hp_async_receive s) = hp_waits s"
  "hp_receives (hp_async_receive s) = hp_receives s @ [tracker_get (hp_tracker s)]"
  "hp_state_of (hp_async_receive s) ep = hp_state_of s ep"
  "hp_posted (hp_async_receive s) ep = hp_posted s ep"
  "hp_handler (hp_async_receive s) = hp_handler s" "hp_last_error (hp_async_receive s) = hp_last_error s"
  by (simp_all add: hp_async_receive_def hp_emit_def hp_state_of_def hp_posted_def)

lemma hp_async_wait_frame [simp]:
  "peer_eps (hp_async_wait n s) = peer_eps s" "hp_rcv_buf (hp_async_wait n s) = hp_rcv_buf s"
  "hp_tracker (hp_async_wait n s) = hp_tracker s" "hp_receives (hp_async_wait n s) = hp_receives s"
  "hp_waits (hp_async_wait n s) = (if n = 0 then hp_waits s else hp_waits s @ [(n, tracker_get (hp_tracker s))])"
  "hp_state_of (hp_async_wait n s) ep = hp_state_of s ep" "hp_handler (hp_async_wait n s) = hp_handler s"
  by (simp_all add: hp_async_wait_def hp_emit_def hp_state_of_def)

lemma hp_posted_wait: "map_sorted (peer_eps s) \<Longrightarrow>
    hp_posted (hp_async_wait n s) ep \<Longrightarrow> hp_posted s ep \<or> hp_state_of s ep = Some HP_ESTABLISHED"
  using hp_posted_notify [of "s\<lparr>hp_last_error := asio_error Timed_out\<rparr>" ep]
  by (auto simp: hp_async_wait_def hp_emit_def hp_posted_def hp_state_of_def split: if_splits)

section \<open>Answering a header\<close>

text \<open>A datagram that is a hole punching header with a given flag.\<close>

definition hp_header :: "u8 list \<Rightarrow> u8 \<Rightarrow> bool" where
  "hp_header bytes f \<longleftrightarrow> length bytes = sizeof_udt_hdr \<and> has_hp (bytes ! 1) \<and> has_flag (bytes ! 1) f"

lemma uh_flags_hdr_of_mem: "uh_flags (hdr_of_mem b) = b ! 1"
  by (simp add: hdr_of_mem_def)

lemma handle_peer_resp_frame [simp]:
  "hp_remote_ep (handle_peer_resp len ep s) = hp_remote_ep s" "hp_tracker (handle_peer_resp len ep s) = hp_tracker s"
  "hp_waits (handle_peer_resp len ep s) = hp_waits s" "hp_receives (handle_peer_resp len ep s) = hp_receives s"
  "hp_handler (handle_peer_resp len ep s) = hp_handler s" "hp_last_error (handle_peer_resp len ep s) = hp_last_error s"
  "hp_posted (handle_peer_resp len ep s) f = hp_posted s f"
  by (simp_all add: handle_peer_resp_def Let_def hp_posted_output split: option.split prod.split)
    (simp_all add: hp_posted_def)

lemma length_peer_resp: "sizeof_udt_hdr \<le> length (hp_rcv_buf s) \<Longrightarrow>
    length (hp_rcv_buf (handle_peer_resp len ep s)) = length (hp_rcv_buf s)"
  by (simp add: handle_peer_resp_def Let_def sizeof_udt_hdr_def split: option.split prod.split)

lemma map_sorted_peer_resp: "map_sorted (peer_eps s) \<Longrightarrow> map_sorted (peer_eps (handle_peer_resp len ep s))"
  by (simp add: handle_peer_resp_def Let_def peer_eps_output map_sorted_prepare omap.ordered_modify
      split: option.split prod.split)

lemma hp_state_of_peer_resp: "hp_state_of (handle_peer_resp len ep s) f =
    (if f = ep \<and> len = sizeof_udt_hdr \<and> has_hp (hp_rcv_buf s ! 1)
     then map_option (\<lambda>st. if st = HP_ESTABLISHED then st else snd (hp_answer (hp_rcv_buf s ! 1) st)) (hp_state_of s ep)
     else hp_state_of s f)"
proof (cases "len = sizeof_udt_hdr \<and> has_hp (hp_rcv_buf s ! 1)")
  case True
  let ?s = "s\<lparr>hp_rcv_buf := mem_of_hdr (ntoh (hdr_of_mem (hp_rcv_buf s))) @ drop sizeof_udt_hdr (hp_rcv_buf s)\<rparr>"
  show ?thesis
  proof (cases "map_of (peer_eps s) ep")
    case None
    with True show ?thesis by (simp add: handle_peer_resp_def uh_flags_hdr_of_mem Let_def hp_state_of_def)
  next
    case (Some info)
    obtain out st where a: "hp_answer (hp_rcv_buf s ! 1) (info_state info) = (out, st)" by fastforce
    have m: "hp_state_of (?s\<lparr>peer_eps := map_modify ep (\<lambda>i. i\<lparr>info_state := st\<rparr>) (peer_eps s)\<rparr>) f =
        (if f = ep then Some st else hp_state_of s f)"
      using Some by (simp add: hp_state_of_def omap.lookup_modify)
    show ?thesis
    proof (cases "info_state info = HP_ESTABLISHED")
      case True
      with \<open>len = sizeof_udt_hdr \<and> has_hp (hp_rcv_buf s ! 1)\<close> Some show ?thesis
        by (simp add: handle_peer_resp_def uh_flags_hdr_of_mem Let_def hp_state_of_def)
    next
      case False
      with True Some a m have "hp_state_of (handle_peer_resp len ep s) f = (if f = ep then Some st else hp_state_of s f)"
        by (cases "f = ep") (simp_all add: handle_peer_resp_def uh_flags_hdr_of_mem Let_def)
      with True Some a False show ?thesis by (simp add: hp_state_of_def)
    qed
  qed
next
  case False
  then show ?thesis by (auto simp: handle_peer_resp_def uh_flags_hdr_of_mem Let_def)
qed


section \<open>Only peers that were heard\<close>

text \<open>
  \<open>asked es ep\<close>: a caller named the endpoint; \<open>heard es ep f\<close>: a header with flag \<open>f\<close> came from it.
\<close>

definition asked :: "hp_event list \<Rightarrow> udp_endpoint \<Rightarrow> bool" where
  "asked es ep \<longleftrightarrow> (\<exists>h eps. Hp_punch h eps \<in> set es \<and> ep \<in> set eps)"

definition heard :: "hp_event list \<Rightarrow> udp_endpoint \<Rightarrow> u8 \<Rightarrow> bool" where
  "heard es ep f \<longleftrightarrow> (\<exists>n e bytes. Hp_received n e ep bytes \<in> set es \<and> \<not> is_error e \<and> hp_header bytes f)"

fun earned :: "hp_event list \<Rightarrow> udp_endpoint \<Rightarrow> hp_state \<Rightarrow> bool" where
  "earned es ep HP_SYN_RECEIVED \<longleftrightarrow> asked es ep \<and> heard es ep TH_SYN"
| "earned es ep HP_ESTABLISHED \<longleftrightarrow> asked es ep \<and> heard es ep TH_SYN \<and> heard es ep TH_ACK"
| "earned es ep st \<longleftrightarrow> asked es ep"

declare earned.simps [simp del]

lemma earned_asked: "earned es ep st \<Longrightarrow> asked es ep"
  by (cases st) (auto simp: earned.simps)

lemma earned_mono: "earned es ep st \<Longrightarrow> earned (es @ fs) ep st"
  by (cases st) (auto simp: earned.simps asked_def heard_def)

lemma earned_answer:
  assumes "earned es ep st" "hp_header bytes TH_HP" "\<not> is_error e"
  shows "earned (es @ [Hp_received n e ep bytes]) ep (snd (hp_answer (bytes ! 1) st))"
proof -
  have h: "has_flag (bytes ! 1) f \<Longrightarrow> heard (es @ [Hp_received n e ep bytes]) ep f" for f
    using assms(2,3) by (auto simp: heard_def hp_header_def)
  have m: "earned (es @ [Hp_received n e ep bytes]) ep st" using assms(1) by (rule earned_mono)
  then show ?thesis using h
    by (cases st) (auto simp: earned.simps hp_answer_def has_syn_def has_ack_def Let_def)
qed

definition hp_good :: "hp_event list \<Rightarrow> udp_hp_clt \<Rightarrow> bool" where
  "hp_good es s \<longleftrightarrow> map_sorted (peer_eps s) \<and> (hp_rcv_buf s = [] \<or> length (hp_rcv_buf s) = DFT_RCV_BUF_SIZE) \<and>
     (\<forall>ep st. hp_state_of s ep = Some st \<longrightarrow> earned es ep st) \<and>
     (\<forall>ep. hp_posted s ep \<longrightarrow> earned es ep HP_ESTABLISHED)"

lemma hp_goodI:
  assumes "map_sorted (peer_eps s)" "hp_rcv_buf s = [] \<or> length (hp_rcv_buf s) = DFT_RCV_BUF_SIZE"
    and "\<And>ep st. hp_state_of s ep = Some st \<Longrightarrow> earned es ep st"
    and "\<And>ep. hp_posted s ep \<Longrightarrow> earned es ep HP_ESTABLISHED"
  shows "hp_good es s"
  using assms unfolding hp_good_def by blast

lemma hp_goodD:
  assumes "hp_good es s"
  shows "map_sorted (peer_eps s)" "hp_rcv_buf s = [] \<or> length (hp_rcv_buf s) = DFT_RCV_BUF_SIZE"
    "hp_state_of s ep = Some st \<Longrightarrow> earned es ep st" "hp_posted s ep \<Longrightarrow> earned es ep HP_ESTABLISHED"
  using assms unfolding hp_good_def by blast+

text \<open>The invariant depends on four views of the state only.\<close>

lemma hp_good_cong:
  assumes "hp_good es s" "peer_eps t = peer_eps s" "hp_rcv_buf t = hp_rcv_buf s \<or> hp_rcv_buf t = []"
    "\<And>h e eps. Hp_post h e eps \<in> set (hp_effects t) \<Longrightarrow> Hp_post h e eps \<in> set (hp_effects s)"
  shows "hp_good es t"
  using assms unfolding hp_good_def hp_state_of_def hp_posted_def by metis

lemma hp_good_mono: "hp_good es s \<Longrightarrow> hp_good (es @ fs) s"
  unfolding hp_good_def using earned_mono by blast

lemma hp_good_output: "hp_good es s \<Longrightarrow> hp_good es (hp_output s)"
  by (simp add: hp_good_def peer_eps_output map_sorted_prepare)

lemma hp_good_notify: "hp_good es s \<Longrightarrow> hp_good es (hp_notify s)"
  unfolding hp_good_def by (auto simp: hp_posted_notify)

lemma hp_good_receive: "hp_good es s \<Longrightarrow> hp_good es (hp_async_receive s)"
  by (simp add: hp_good_def)

lemma hp_good_wait: "hp_good es s \<Longrightarrow> hp_good es (hp_async_wait n s)"
  unfolding hp_good_def by (auto dest: hp_posted_wait)

lemma hp_good_init: "hp_good [] udp_hp_clt_init"
  by (simp add: hp_good_def udp_hp_clt_init_def hp_state_of_def hp_posted_def)

lemma hp_good_create: "hp_good es s \<Longrightarrow> hp_good es (snd (hp_create is_open bound s))"
  by (auto simp: hp_good_def hp_create_def Let_def hp_state_of_def hp_posted_def str_resize_def DFT_RCV_BUF_SIZE_def)

lemma hp_good_cancel: "hp_good es s \<Longrightarrow> hp_good es (hp_cancel s)"
  by (erule hp_good_cong) (auto simp: hp_cancel_def hp_emit_def Let_def split: if_splits)

lemma hp_good_close: "hp_good es s \<Longrightarrow> hp_good es (hp_close s)"
  by (erule hp_good_cong) (auto simp: hp_close_def hp_cancel_def hp_emit_def Let_def split: if_splits)

lemma hp_state_of_visit: "map_sorted m \<Longrightarrow>
  map_option info_state (map_of (fold (\<lambda>ep m. map_modify ep (\<lambda>i. i\<lparr>info_state := HP_SYN_SENT\<rparr>)
     (map_insert ep endpoint_info_init m)) eps m) ep) =
  (if ep \<in> set eps then Some HP_SYN_SENT else map_option info_state (map_of m ep))"
  using omap.lookup_visit [of "\<lambda>i. i\<lparr>info_state := HP_SYN_SENT\<rparr>" m endpoint_info_init eps ep]
  by (simp add: omap.visit_def)

lemma map_sorted_visit: "map_sorted m \<Longrightarrow>
  map_sorted (fold (\<lambda>ep m. map_modify ep f (map_insert ep v m)) eps m)"
  using omap.ordered_visit [of m v f eps] by (simp add: omap.visit_def)

lemma hp_good_punch:
  assumes "hp_good es s" "async_hole_punch h eps s = Some t"
  shows "hp_good (es @ [Hp_punch h eps]) t"
proof -
  let ?m = "fold (\<lambda>ep m. map_modify ep (\<lambda>i. i\<lparr>info_state := HP_SYN_SENT\<rparr>)
     (map_insert ep endpoint_info_init m)) eps (peer_eps s)"
  let ?u = "s\<lparr>hp_handler := Some h, peer_eps := ?m\<rparr>"
  have "hp_good (es @ [Hp_punch h eps]) ?u"
  proof (rule hp_goodI)
    show "map_sorted (peer_eps ?u)" using hp_goodD(1) [OF assms(1)] by (simp add: map_sorted_visit)
    show "hp_rcv_buf ?u = [] \<or> length (hp_rcv_buf ?u) = DFT_RCV_BUF_SIZE"
      using hp_goodD(2) [OF assms(1)] by simp
    fix ep
    show "hp_posted ?u ep \<Longrightarrow> earned (es @ [Hp_punch h eps]) ep HP_ESTABLISHED"
      by (rule earned_mono, rule hp_goodD(4) [OF assms(1)]) (simp add: hp_posted_def)
    fix st
    assume "hp_state_of ?u ep = Some st"
    then have "ep \<in> set eps \<and> st = HP_SYN_SENT \<or> hp_state_of s ep = Some st"
      using hp_state_of_visit [OF hp_goodD(1) [OF assms(1)], of eps ep]
      by (simp add: hp_state_of_def split: if_splits)
    then show "earned (es @ [Hp_punch h eps]) ep st"
    proof
      assume "ep \<in> set eps \<and> st = HP_SYN_SENT"
      then show ?thesis by (auto simp: earned.simps asked_def)
    next
      assume "hp_state_of s ep = Some st"
      from earned_mono [OF hp_goodD(3) [OF assms(1) this]] show ?thesis .
    qed
  qed
  then show ?thesis using assms(2)
    by (auto simp: async_hole_punch_def Let_def intro!: hp_good_wait hp_good_receive hp_good_output split: if_splits)
qed

text \<open>A completion of the receive: asio's writes, then the handler. \<open>hp_landed\<close> is the state the handler sees.\<close>

definition hp_landed :: "udp_endpoint \<Rightarrow> u8 list \<Rightarrow> udp_hp_clt \<Rightarrow> udp_hp_clt" where
  "hp_landed ep bytes s = s\<lparr>hp_remote_ep := ep, hp_rcv_buf := take (length (hp_rcv_buf s)) bytes @
     drop (length (take (length (hp_rcv_buf s)) bytes)) (hp_rcv_buf s)\<rparr>"

lemma hp_landed_frame [simp]:
  "hp_remote_ep (hp_landed ep bytes s) = ep" "peer_eps (hp_landed ep bytes s) = peer_eps s"
  "length (hp_rcv_buf (hp_landed ep bytes s)) = length (hp_rcv_buf s)"
  "hp_tracker (hp_landed ep bytes s) = hp_tracker s" "hp_state_of (hp_landed ep bytes s) f = hp_state_of s f"
  "hp_posted (hp_landed ep bytes s) f = hp_posted s f" "hp_receives (hp_landed ep bytes s) = hp_receives s"
  "hp_waits (hp_landed ep bytes s) = hp_waits s" "hp_handler (hp_landed ep bytes s) = hp_handler s"
  "hp_last_error (hp_landed ep bytes s) = hp_last_error s"
  by (auto simp: hp_landed_def hp_state_of_def hp_posted_def)

lemma hp_landed_header:
  assumes "hp_rcv_buf s = [] \<or> length (hp_rcv_buf s) = DFT_RCV_BUF_SIZE"
    and "length (take (length (hp_rcv_buf s)) bytes) = sizeof_udt_hdr"
  shows "length bytes = sizeof_udt_hdr" and "hp_rcv_buf (hp_landed ep bytes s) ! 1 = bytes ! 1"
    and "sizeof_udt_hdr \<le> length (hp_rcv_buf s)"
  using assms by (auto simp: hp_landed_def sizeof_udt_hdr_def DFT_RCV_BUF_SIZE_def nth_append min_def split: if_splits)

lemma hp_handle_async_receive_landed:
  "hp_handle_async_receive e ep bytes w s =
     (let t = hp_landed ep bytes s; n = length (take (length (hp_rcv_buf s)) bytes)
      in if e = asio_error Operation_aborted \<or> refer_expired (hp_tracker s) w then t
         else case map_of (peer_eps s) ep of
                None \<Rightarrow> hp_async_receive t
              | Some _ \<Rightarrow>
                  if \<not> is_error e
                  then let u = handle_peer_resp n ep t
                       in if hp_state_of u ep = Some HP_ESTABLISHED then hp_notify u else hp_async_receive u
                  else let u = t\<lparr>peer_eps := map_erase ep (peer_eps s)\<rparr>
                       in if peer_eps u = [] then hp_notify (u\<lparr>hp_last_error := e\<rparr>) else hp_async_receive u)"
  by (simp add: hp_handle_async_receive_def hp_landed_def hp_state_of_def Let_def split: option.split)

lemma hp_good_peer_resp:
  assumes g: "hp_good es s" and e: "\<not> is_error e"
  shows "hp_good (es @ [Hp_received k e ep bytes])
    (handle_peer_resp (length (take (length (hp_rcv_buf s)) bytes)) ep (hp_landed ep bytes s))"
    (is "hp_good ?es (handle_peer_resp ?n ep ?t)")
proof (rule hp_goodI)
  note buf = hp_goodD(2) [OF g]
  show "map_sorted (peer_eps (handle_peer_resp ?n ep ?t))"
    using hp_goodD(1) [OF g] by (simp add: map_sorted_peer_resp)
  show "hp_rcv_buf (handle_peer_resp ?n ep ?t) = [] \<or> length (hp_rcv_buf (handle_peer_resp ?n ep ?t)) = DFT_RCV_BUF_SIZE"
  proof (cases "?n = sizeof_udt_hdr")
    case True
    with hp_landed_header(3) [OF buf True] have "length (hp_rcv_buf (handle_peer_resp ?n ep ?t)) = length (hp_rcv_buf s)"
      by (simp add: length_peer_resp del: length_take)
    with buf show ?thesis by auto
  next
    case False
    then have "hp_rcv_buf (handle_peer_resp ?n ep ?t) = hp_rcv_buf ?t" by (simp add: handle_peer_resp_def Let_def del: length_take)
    with buf hp_landed_frame(3) [of ep bytes s] show ?thesis by (metis length_0_conv)
  qed
  fix f
  show "hp_posted (handle_peer_resp ?n ep ?t) f \<Longrightarrow> earned ?es f HP_ESTABLISHED"
    by (rule earned_mono, rule hp_goodD(4) [OF g]) simp
  fix st
  assume st: "hp_state_of (handle_peer_resp ?n ep ?t) f = Some st"
  show "earned ?es f st"
  proof (cases "f = ep \<and> ?n = sizeof_udt_hdr \<and> has_hp (hp_rcv_buf ?t ! 1)")
    case True
    then have n: "?n = sizeof_udt_hdr" and hp: "has_hp (hp_rcv_buf ?t ! 1)" by blast+
    note l2 = hp_landed_header(2) [OF buf n, of ep]
    have l1: "hp_header bytes TH_HP"
      using hp_landed_header(1) [OF buf n] hp unfolding l2 hp_header_def has_hp_def by blast
    from st True obtain old where old: "hp_state_of s ep = Some old"
      "st = (if old = HP_ESTABLISHED then old else snd (hp_answer (bytes ! 1) old))"
      unfolding hp_state_of_peer_resp l2 by auto
    note o = hp_goodD(3) [OF g old(1)]
    show ?thesis using True old(2) earned_mono [OF o] earned_answer [OF o l1 e] by auto
  next
    case False
    with st have "hp_state_of s f = Some st" unfolding hp_state_of_peer_resp by auto
    from earned_mono [OF hp_goodD(3) [OF g this]] show ?thesis .
  qed
qed

lemma hp_good_handle:
  assumes g: "hp_good es s"
  shows "hp_good (es @ [Hp_received n e ep bytes]) (hp_handle_async_receive e ep bytes w s)"
proof -
  let ?es = "es @ [Hp_received n e ep bytes]" and ?t = "hp_landed ep bytes s"
  have t: "hp_good ?es ?t"
  proof (rule hp_goodI)
    show "hp_rcv_buf ?t = [] \<or> length (hp_rcv_buf ?t) = DFT_RCV_BUF_SIZE"
      using hp_goodD(2) [OF g] hp_landed_frame(3) [of ep bytes s] by (metis length_0_conv)
  qed (use hp_goodD [OF g] earned_mono in auto)
  have x: "hp_good ?es (?t\<lparr>peer_eps := map_erase ep (peer_eps s)\<rparr>)" (is "hp_good _ ?x")
  proof (rule hp_goodI)
    show "map_sorted (peer_eps ?x)" using hp_goodD(1) [OF g] by (simp add: omap.ordered_remove)
    show "hp_rcv_buf ?x = [] \<or> length (hp_rcv_buf ?x) = DFT_RCV_BUF_SIZE" using hp_goodD(2) [OF t] by simp
    fix f
    show "hp_posted ?x f \<Longrightarrow> earned ?es f HP_ESTABLISHED" using hp_goodD(4) [OF t, of f] by (simp add: hp_posted_def)
    fix st
    show "hp_state_of ?x f = Some st \<Longrightarrow> earned ?es f st"
      using hp_goodD(3) [OF t, of f st] by (simp add: hp_state_of_def omap.lookup_remove split: if_splits)
  qed
  then have y: "hp_good ?es (hp_notify (?x\<lparr>hp_last_error := e\<rparr>))"
    by (intro hp_good_notify) (erule hp_good_cong, auto)
  show ?thesis
    unfolding hp_handle_async_receive_landed
    using t x y hp_good_peer_resp [OF g, of e n ep bytes]
    by (cases "map_erase ep (peer_eps s) = []")
      (simp_all add: hp_good_receive hp_good_notify Let_def del: length_take split: option.split)
qed

lemma hp_good_step:
  assumes g: "hp_good es s" and s: "hp_step s e = Some t"
  shows "hp_good (es @ [e]) t"
proof -
  note m = hp_good_mono [OF g, of "[e]"]
  have owed: "hp_good fs (s\<lparr>hp_receives := ws\<rparr>)" "hp_good fs (s\<lparr>hp_waits := vs\<rparr>)" if "hp_good fs s" for fs ws vs
    by (rule hp_good_cong [OF that], auto)+
  show ?thesis
  proof (cases e)
    case (Hp_punch h eps)
    with s g show ?thesis by (auto intro: hp_good_punch)
  next
    case (Hp_received n ec ep bytes)
    with s g show ?thesis by (auto intro!: hp_good_handle owed split: if_splits)
  next
    case (Hp_timeout n ec)
    with s m show ?thesis
      by (auto simp: handle_async_timeout_def intro!: hp_good_wait hp_good_output owed split: if_splits)
  qed (use s m in \<open>auto intro: hp_good_create hp_good_cancel hp_good_close\<close>)
qed

lemma hp_good_run: "run hp_step udp_hp_clt_init es = Some s \<Longrightarrow> hp_good es s"
  by (rule run_history [where P = hp_good]) (blast intro: hp_good_init hp_good_step)+

section \<open>Tickets and waits\<close>

text \<open>Every step moves the tracker by some of its operations; cancelling and closing by at least one.\<close>

lemma hp_tracker_step: "hp_step s e = Some t \<Longrightarrow> \<exists>ops. hp_tracker t = fold tracker_move ops (hp_tracker s)"
proof (cases e)
  case (Hp_create is_open bound)
  assume "hp_step s e = Some t"
  with Hp_create have "hp_tracker t = fold tracker_move [] (hp_tracker s) \<or>
      hp_tracker t = fold tracker_move [Tracker_set] (hp_tracker s)"
    by (auto simp: hp_create_def Let_def)
  then show ?thesis by blast
next
  case Hp_cancel
  assume "hp_step s e = Some t"
  with Hp_cancel have "hp_tracker t = fold tracker_move [Tracker_reset] (hp_tracker s)"
    by (auto simp: hp_cancel_def hp_emit_def Let_def)
  then show ?thesis by blast
next
  case Hp_close
  assume "hp_step s e = Some t"
  with Hp_close have "hp_tracker t = fold tracker_move [] (hp_tracker s) \<or>
      hp_tracker t = fold tracker_move [Tracker_reset] (hp_tracker s)"
    by (auto simp: hp_close_def hp_cancel_def hp_emit_def Let_def split: if_splits)
  then show ?thesis by blast
next
  case (Hp_punch h eps)
  assume "hp_step s e = Some t"
  with Hp_punch have "hp_tracker t = fold tracker_move [] (hp_tracker s)"
    by (auto simp: async_hole_punch_def Let_def split: if_splits)
  then show ?thesis by blast
next
  case (Hp_received n ec ep bytes)
  assume "hp_step s e = Some t"
  with Hp_received have "hp_tracker t = fold tracker_move [] (hp_tracker s)"
    by (auto simp: hp_handle_async_receive_landed Let_def split: if_splits option.splits)
  then show ?thesis by blast
next
  case (Hp_timeout n ec)
  assume "hp_step s e = Some t"
  with Hp_timeout have "hp_tracker t = fold tracker_move [] (hp_tracker s)"
    by (auto simp: handle_async_timeout_def Let_def split: if_splits)
  then show ?thesis by blast
qed

lemma hp_tracker_run: "run hp_step s es = Some t \<Longrightarrow> \<exists>ops. hp_tracker t = fold tracker_move ops (hp_tracker s)"
proof (induction es arbitrary: s)
  case Nil
  then have "hp_tracker t = fold tracker_move [] (hp_tracker s)" by simp
  then show ?case by blast
next
  case (Cons e es)
  then obtain u where "hp_step s e = Some u" "run hp_step u es = Some t" by (auto simp: bind_eq_Some_conv)
  with Cons.IH hp_tracker_step [of s e u] obtain as bs where
    "hp_tracker u = fold tracker_move as (hp_tracker s)" "hp_tracker t = fold tracker_move bs (hp_tracker u)" by blast
  then have "hp_tracker t = fold tracker_move (as @ bs) (hp_tracker s)" by simp
  then show ?case by blast
qed

text \<open>Every ticket bound into an operation asio owes was issued.\<close>

definition hp_issued :: "udp_hp_clt \<Rightarrow> bool" where
  "hp_issued s \<longleftrightarrow> tracker_ok (hp_tracker s) \<and> (\<forall>w \<in> set (hp_receives s) \<union> snd ` set (hp_waits s). refer_issued (hp_tracker s) w)"

lemma set_owed_rest: "set (owed_rest n ws) \<subseteq> set ws"
  unfolding owed_rest_def using set_take_subset [of n ws] set_drop_subset [of "Suc n" ws] by auto

text \<open>A step adds only the current ticket to what is owed.\<close>

lemma hp_handle_frame [simp]:
  "hp_tracker (hp_handle_async_receive e ep bytes w s) = hp_tracker s"
  "hp_waits (hp_handle_async_receive e ep bytes w s) = hp_waits s"
  "hp_handler (hp_handle_async_receive e ep bytes w s) = hp_handler s"
  by (simp_all add: hp_handle_async_receive_landed Let_def split: option.split)

lemma hp_receives_handle: "set (hp_receives (hp_handle_async_receive e ep bytes w s)) \<subseteq>
    insert (tracker_get (hp_tracker s)) (set (hp_receives s))"
  by (auto simp: hp_handle_async_receive_landed Let_def split: option.splits if_splits)

lemma hp_owed_step:
  assumes "hp_step s e = Some t"
  shows "set (hp_receives t) \<subseteq> insert (tracker_get (hp_tracker t)) (set (hp_receives s))"
    and "snd ` set (hp_waits t) \<subseteq> insert (tracker_get (hp_tracker t)) (snd ` set (hp_waits s))"
proof -
  have "set (hp_receives t) \<subseteq> insert (tracker_get (hp_tracker t)) (set (hp_receives s)) \<and>
      snd ` set (hp_waits t) \<subseteq> insert (tracker_get (hp_tracker t)) (snd ` set (hp_waits s))"
  proof (cases e)
    case (Hp_received n ec ep bytes)
    let ?s = "s\<lparr>hp_receives := owed_rest n (hp_receives s)\<rparr>"
    from assms Hp_received have t: "t = hp_handle_async_receive ec ep bytes (hp_receives s ! n) ?s" by (auto split: if_splits)
    from hp_receives_handle [of ec ep bytes "hp_receives s ! n" ?s] set_owed_rest [of n "hp_receives s"]
    have "set (hp_receives t) \<subseteq> insert (tracker_get (hp_tracker s)) (set (hp_receives s))" unfolding t by auto
    with t show ?thesis by auto
  next
    case (Hp_timeout n ec)
    with assms set_owed_rest [of n "hp_waits s"] show ?thesis
      by (auto simp: handle_async_timeout_def split: if_splits)
  next
    case (Hp_punch h eps)
    with assms show ?thesis by (auto simp: async_hole_punch_def Let_def split: if_splits)
  qed (use assms in \<open>auto simp: hp_create_def hp_cancel_def hp_close_def hp_emit_def Let_def split: if_splits\<close>)
  then show "set (hp_receives t) \<subseteq> insert (tracker_get (hp_tracker t)) (set (hp_receives s))"
    "snd ` set (hp_waits t) \<subseteq> insert (tracker_get (hp_tracker t)) (snd ` set (hp_waits s))" by auto
qed

lemma hp_issued_step:
  assumes i: "hp_issued s" and s: "hp_step s e = Some t"
  shows "hp_issued t"
proof -
  obtain ops where ops: "hp_tracker t = fold tracker_move ops (hp_tracker s)" using hp_tracker_step [OF s] by blast
  from i have ok: "tracker_ok (hp_tracker s)" by (simp add: hp_issued_def)
  have t: "tracker_ok (hp_tracker t)" unfolding ops by (rule tickets.ok_moves [OF ok])
  have old: "refer_issued (hp_tracker t) w" if "w \<in> set (hp_receives s) \<union> snd ` set (hp_waits s)" for w
    unfolding ops using i that by (intro tickets.issued_moves) (auto simp: hp_issued_def)
  have "refer_issued (hp_tracker t) w" if "w \<in> set (hp_receives t) \<union> snd ` set (hp_waits t)" for w
  proof -
    from that hp_owed_step [OF s] have "w = tracker_get (hp_tracker t) \<or> w \<in> set (hp_receives s) \<union> snd ` set (hp_waits s)"
      by (auto simp only: Un_iff insert_iff subset_iff)
    then show ?thesis using tickets.issued_get [OF t] old by (elim disjE) simp_all
  qed
  with t show ?thesis by (simp add: hp_issued_def)
qed

lemma hp_issued_init: "hp_issued udp_hp_clt_init"
  by (auto simp: hp_issued_def udp_hp_clt_init_def)

lemma hp_issued_run: "run hp_step udp_hp_clt_init es = Some s \<Longrightarrow> hp_issued s"
  by (rule run_history [where P = "\<lambda>_. hp_issued"]) (blast intro: hp_issued_init hp_issued_step)+

text \<open>After a cancel, a ticket from before is expired whatever comes next.\<close>

lemma hp_cancel_expires:
  assumes "hp_issued s" and "w \<in> set (hp_receives s) \<union> snd ` set (hp_waits s)"
    and "run hp_step (hp_cancel s) es = Some t"
  shows "refer_expired (hp_tracker t) w"
proof -
  obtain ops where "hp_tracker t = fold tracker_move ops (hp_tracker (hp_cancel s))" using hp_tracker_run [OF assms(3)] by blast
  moreover have "hp_tracker (hp_cancel s) = tracker_move Tracker_reset (hp_tracker s)"
    by (simp add: hp_cancel_def hp_emit_def Let_def)
  ultimately have "hp_tracker t = fold tracker_move (Tracker_reset # ops) (hp_tracker s)" by simp
  moreover have "refer_issued (hp_tracker s) w" "tracker_ok (hp_tracker s)" using assms(1,2) by (auto simp: hp_issued_def)
  ultimately show ?thesis using tickets.stale [of "hp_tracker s" w "Tracker_reset # ops"] by simp
qed

section \<open>Giving up\<close>

text \<open>Completions only: datagrams in any number, and waits that end because their time is over.\<close>

fun hp_running :: "hp_event \<Rightarrow> bool" where
  "hp_running (Hp_received n e ep bytes) \<longleftrightarrow> True"
| "hp_running (Hp_timeout n e) \<longleftrightarrow> e \<noteq> asio_error Operation_aborted"
| "hp_running _ \<longleftrightarrow> False"

fun is_timeout :: "hp_event \<Rightarrow> bool" where
  "is_timeout (Hp_timeout n e) \<longleftrightarrow> True"
| "is_timeout _ \<longleftrightarrow> False"

definition timeouts :: "hp_event list \<Rightarrow> nat" where
  "timeouts es = length (filter is_timeout es)"

text \<open>\<open>hp_chain h k s\<close>: one wait with \<open>k\<close> rounds to go is owed, or the handler got \<open>timed_out\<close>.\<close>

definition hp_chain :: "handler \<Rightarrow> nat \<Rightarrow> udp_hp_clt \<Rightarrow> bool" where
  "hp_chain h k s \<longleftrightarrow> \<not> tracker_is_null (hp_tracker s) \<and> hp_handler s = Some h \<and>
     (if k = 0 then hp_waits s = [] \<and> (\<exists>eps. Hp_post (Some h) (asio_error Timed_out) eps \<in> set (hp_effects s))
      else hp_waits s = [(k, tracker_get (hp_tracker s))])"

lemma hp_effects_grow:
  "set (hp_effects s) \<subseteq> set (hp_effects (hp_output s))" "set (hp_effects s) \<subseteq> set (hp_effects (hp_notify s))"
  "set (hp_effects s) \<subseteq> set (hp_effects (hp_async_receive s))"
  "set (hp_effects s) \<subseteq> set (hp_effects (handle_peer_resp len ep s))"
  by (auto simp: hp_output_def hp_notify_def hp_async_receive_def hp_emit_def handle_peer_resp_def Let_def
      split: prod.split option.split)

lemma hp_effects_handle: "set (hp_effects s) \<subseteq> set (hp_effects (hp_handle_async_receive e ep bytes w s))"
proof -
  have "hp_effects (hp_landed ep bytes s) = hp_effects s" by (simp add: hp_landed_def)
  then show ?thesis
    unfolding hp_handle_async_receive_landed Let_def using hp_effects_grow
    by (fastforce split: option.split)
qed

lemma hp_chain_handle:
  assumes "hp_chain h k s"
  shows "hp_chain h k (hp_handle_async_receive e ep bytes w (s\<lparr>hp_receives := ws\<rparr>))"
proof -
  have "set (hp_effects s) \<subseteq> set (hp_effects (hp_handle_async_receive e ep bytes w (s\<lparr>hp_receives := ws\<rparr>)))"
    using hp_effects_handle [of "s\<lparr>hp_receives := ws\<rparr>" e ep bytes w] by simp
  with assms show ?thesis by (simp add: hp_chain_def subset_iff split: if_splits) blast
qed

lemma hp_chain_timeout:
  assumes c: "hp_chain h k s" and s: "hp_step s (Hp_timeout n e) = Some t" and e: "e \<noteq> asio_error Operation_aborted"
  shows "k \<noteq> 0 \<and> hp_chain h (k - 1) t"
proof -
  have k: "k \<noteq> 0" using c s by (auto simp: hp_chain_def split: if_splits)
  then have w: "hp_waits s = [(k, tracker_get (hp_tracker s))]" "n = 0" using c s by (auto simp: hp_chain_def split: if_splits)
  have "\<not> refer_expired (hp_tracker s) (tracker_get (hp_tracker s))" using c by (auto simp: hp_chain_def tracker_defs)
  with s w e have t: "t = hp_async_wait (k - 1) (hp_output (s\<lparr>hp_waits := []\<rparr>))"
    by (simp add: handle_async_timeout_def owed_rest_def)
  show ?thesis
  proof (cases "k = 1")
    case True
    with t c show ?thesis by (auto simp: hp_chain_def hp_async_wait_def hp_notify_def hp_emit_def)
  next
    case False
    with k t c show ?thesis by (simp add: hp_chain_def)
  qed
qed

lemma hp_chain_run:
  "hp_chain h k s \<Longrightarrow> run hp_step s es = Some t \<Longrightarrow> list_all hp_running es \<Longrightarrow>
     timeouts es \<le> k \<and> hp_chain h (k - timeouts es) t"
proof (induction es arbitrary: k s)
  case Nil
  then show ?case by (simp add: timeouts_def)
next
  case (Cons e es)
  then obtain u where u: "hp_step s e = Some u" "run hp_step u es = Some t" by (auto simp: bind_eq_Some_conv)
  show ?case
  proof (cases e)
    case (Hp_received n ec ep bytes)
    with u(1) Cons.prems(1) have "hp_chain h k u" by (auto intro: hp_chain_handle split: if_splits)
    from Cons.IH [OF this u(2)] Cons.prems(3) Hp_received show ?thesis by (simp add: timeouts_def)
  next
    case (Hp_timeout n ec)
    with u(1) Cons.prems have "k \<noteq> 0 \<and> hp_chain h (k - 1) u" by (intro hp_chain_timeout) auto
    with Cons.IH [of "k - 1" u] u(2) Cons.prems(3) Hp_timeout show ?thesis by (auto simp: timeouts_def)
  qed (use Cons.prems in auto)
qed

lemma hp_chain_punch:
  assumes "async_hole_punch h eps s = Some t" and "\<not> tracker_is_null (hp_tracker s)" and "hp_waits s = []"
  shows "hp_chain h DFT_TIMEOUT_COUNT t"
proof -
  obtain m where "t = hp_async_wait DFT_TIMEOUT_COUNT (hp_async_receive (hp_output (s\<lparr>hp_handler := Some h, peer_eps := m\<rparr>)))"
    using assms(1) by (auto simp: async_hole_punch_def Let_def split: if_splits)
  then show ?thesis using assms(2,3) by (simp add: hp_chain_def DFT_TIMEOUT_COUNT_def)
qed


section \<open>A round that gets through\<close>

text \<open>
  \<open>hp_datagram ep s\<close> is what \<open>output\<close> last prepared for a peer; \<open>hp_listens\<close> says that a receive is
  outstanding, \<open>hp_deliver\<close> completes it with a datagram.
\<close>

definition hp_datagram :: "udp_endpoint \<Rightarrow> udp_hp_clt \<Rightarrow> u8 list" where
  "hp_datagram ep s = (case map_of (peer_eps s) ep of None \<Rightarrow> [] | Some info \<Rightarrow> info_snd_buf info)"

definition hp_listens :: "udp_hp_clt \<Rightarrow> bool" where
  "hp_listens s \<longleftrightarrow> \<not> tracker_is_null (hp_tracker s) \<and> hp_receives s = [tracker_get (hp_tracker s)] \<and>
     length (hp_rcv_buf s) = DFT_RCV_BUF_SIZE \<and> map_sorted (peer_eps s)"

definition hp_deliver :: "udp_endpoint \<Rightarrow> u8 list \<Rightarrow> udp_hp_clt \<Rightarrow> udp_hp_clt" where
  "hp_deliver src bytes s =
     (case hp_step s (Hp_received 0 no_error src bytes) of None \<Rightarrow> s | Some t \<Rightarrow> t)"

text \<open>
  One round between the clients at \<open>a\<close> and \<open>b\<close>: one of the copies the first sends arrives, one
  of those the second then sends arrives, and one of those the first then sends arrives.
\<close>

definition hp_round :: "udp_endpoint \<Rightarrow> udp_endpoint \<Rightarrow> udp_hp_clt \<Rightarrow> udp_hp_clt \<Rightarrow> udp_hp_clt \<times> udp_hp_clt" where
  "hp_round a b A B =
     (let A = hp_output A;
          B = hp_output (hp_deliver a (hp_datagram b A) B);
          A = hp_output (hp_deliver b (hp_datagram a B) A);
          B = hp_deliver a (hp_datagram b A) B
      in (A, B))"

text \<open>What \<open>output\<close> prepares it also sends, three times.\<close>

lemma hp_output_sends:
  assumes "map_of (peer_eps (hp_output s)) ep = Some info" "info_snd_buf info \<noteq> []"
  shows "Hp_send ep (info_snd_buf info) \<in> set (hp_effects (hp_output s))"
proof -
  have "map_of (fst (hp_output_loop m)) ep = Some info \<Longrightarrow> Hp_send ep (info_snd_buf info) \<in> set (snd (hp_output_loop m))" for m
    using assms(2) by (induction m) (auto simp: Let_def DFT_SEND_PACKETS_def split: prod.splits if_splits)
  from this [of "peer_eps s"] assms(1) show ?thesis by (auto simp: hp_output_def hp_emit_def split: prod.splits)
qed

text \<open>The flags a peer in a given state is sent.\<close>

fun hp_flags :: "hp_state \<Rightarrow> u8" where
  "hp_flags HP_SYN_SENT = TH_SYN"
| "hp_flags HP_SYN_RECEIVED = TH_SYN OR TH_ACK"
| "hp_flags _ = TH_ACK"

abbreviation "hp_open st \<equiv> st = HP_SYN_SENT \<or> st = HP_SYN_RECEIVED \<or> st = HP_ESTABLISHED"

lemma hp_datagram_output:
  assumes "hp_state_of s ep = Some st" "hp_open st"
  shows "hp_datagram ep (hp_output s) = prepare_send_peer_data (hp_flags st)"
  using assms unfolding hp_datagram_def peer_eps_output map_of_prepare hp_state_of_def
  by (auto simp: hp_prepare_def)

lemma prepare_header:
  "length (prepare_send_peer_data f) = sizeof_udt_hdr" "prepare_send_peer_data f ! 1 = f OR TH_HP"
  by (simp_all add: prepare_send_peer_data_def sizeof_udt_hdr_def mem_of_hdr_def hton_def)

definition hp_next :: "u8 \<Rightarrow> hp_state \<Rightarrow> hp_state" where
  "hp_next f st = (if st = HP_ESTABLISHED then st else snd (hp_answer (f OR TH_HP) st))"

lemma has_hp_or: "has_hp (f OR TH_HP)"
  by (simp add: has_hp_def flag_simps has_flag_self TH_HP_def)

lemma hp_state_of_receives [simp]: "hp_state_of (s\<lparr>hp_receives := ws\<rparr>) ep = hp_state_of s ep"
  by (simp add: hp_state_of_def)

lemma hp_deliver_state:
  assumes l: "hp_listens s" and st: "hp_state_of s src = Some st"
  shows "hp_state_of (hp_deliver src (prepare_send_peer_data f) s) src = Some (hp_next f st)"
    and "hp_next f st \<noteq> HP_ESTABLISHED \<Longrightarrow> hp_listens (hp_deliver src (prepare_send_peer_data f) s)"
    and "hp_next f st = HP_ESTABLISHED \<Longrightarrow> hp_posted (hp_deliver src (prepare_send_peer_data f) s) src"
    and "hp_next f st = HP_ESTABLISHED \<Longrightarrow> hp_receives (hp_deliver src (prepare_send_peer_data f) s) = []"
proof -
  let ?b = "prepare_send_peer_data f" and ?s = "s\<lparr>hp_receives := []\<rparr>"
  let ?t = "hp_landed src ?b ?s"
  let ?u = "handle_peer_resp sizeof_udt_hdr src ?t"
  note n = prepare_header(1) [of f]
  have b: "length (hp_rcv_buf ?s) = DFT_RCV_BUF_SIZE" using l by (simp add: hp_listens_def)
  then have len: "length (take (length (hp_rcv_buf ?s)) ?b) = sizeof_udt_hdr"
    by (simp add: n sizeof_udt_hdr_def DFT_RCV_BUF_SIZE_def)
  have flags: "hp_rcv_buf ?t ! 1 = f OR TH_HP"
    using hp_landed_header(2) [of ?s ?b src] b len prepare_header(2) [of f] by simp
  have m: "map_of (peer_eps s) src \<noteq> None" using st by (auto simp: hp_state_of_def)
  have ok: "\<not> refer_expired (hp_tracker s) (tracker_get (hp_tracker s))" using l by (auto simp: hp_listens_def tracker_defs)
  have "hp_deliver src ?b s = hp_handle_async_receive no_error src ?b (tracker_get (hp_tracker s)) ?s"
    using l by (simp add: hp_deliver_def hp_listens_def owed_rest_def)
  also have "\<dots> = (if hp_state_of ?u src = Some HP_ESTABLISHED then hp_notify ?u else hp_async_receive ?u)"
    using m ok len by (auto simp: hp_handle_async_receive_landed Let_def no_error_def asio_error_def is_error_def)
  finally have d: "hp_deliver src ?b s = (if hp_state_of ?u src = Some HP_ESTABLISHED then hp_notify ?u else hp_async_receive ?u)" .
  have u: "hp_state_of ?u src = Some (hp_next f st)"
    using st flags has_hp_or [of f] by (simp add: hp_state_of_peer_resp hp_next_def)
  then show "hp_state_of (hp_deliver src ?b s) src = Some (hp_next f st)" by (simp add: d)
  have sorted: "map_sorted (peer_eps ?u)" using l by (simp add: map_sorted_peer_resp hp_listens_def)
  then show "hp_next f st = HP_ESTABLISHED \<Longrightarrow> hp_posted (hp_deliver src ?b s) src"
    using u by (simp add: d hp_posted_notify)
  show "hp_next f st = HP_ESTABLISHED \<Longrightarrow> hp_receives (hp_deliver src ?b s) = []" using u by (simp add: d)
  show "hp_next f st \<noteq> HP_ESTABLISHED \<Longrightarrow> hp_listens (hp_deliver src ?b s)"
    using u l sorted b by (simp add: d hp_listens_def length_peer_resp sizeof_udt_hdr_def DFT_RCV_BUF_SIZE_def)
qed

lemma hp_listens_output [simp]: "hp_listens (hp_output s) = hp_listens s"
  by (simp add: hp_listens_def peer_eps_output map_sorted_prepare)

text \<open>A client whose peer is established need not listen; one that does not, must.\<close>

definition hp_ready :: "udp_endpoint \<Rightarrow> hp_state \<Rightarrow> udp_hp_clt \<Rightarrow> bool" where
  "hp_ready ep st s \<longleftrightarrow> hp_state_of s ep = Some st \<and>
     (if st = HP_ESTABLISHED then hp_posted s ep \<and> hp_receives s = [] else hp_open st \<and> hp_listens s)"

lemma hp_ready_open: "hp_ready ep st s \<Longrightarrow> hp_open st"
  by (auto simp: hp_ready_def split: if_splits)

lemma hp_ready_output [simp]: "hp_ready ep st (hp_output s) = hp_ready ep st s"
  by (simp add: hp_ready_def)

lemma hp_next_open: "hp_open st \<Longrightarrow> hp_open (hp_next f st)"
  by (auto simp: hp_next_def hp_answer_def Let_def)

lemma hp_deliver_silent: "hp_receives s = [] \<Longrightarrow> hp_deliver src bytes s = s"
  by (simp add: hp_deliver_def)

lemma hp_deliver_ready:
  assumes r: "hp_ready src st s"
  shows "hp_ready src (hp_next f st) (hp_deliver src (prepare_send_peer_data f) s)"
proof (cases "st = HP_ESTABLISHED")
  case True
  with r show ?thesis by (simp add: hp_ready_def hp_deliver_silent hp_next_def)
next
  case False
  with r have l: "hp_listens s" "hp_state_of s src = Some st" "hp_open st" by (auto simp: hp_ready_def)
  show ?thesis
    using hp_deliver_state [OF l(1,2), of f] hp_next_open [OF l(3), of f] by (auto simp: hp_ready_def)
qed

text \<open>The states of two peers that can still meet: neither starts over while the other is done.\<close>

definition hp_compatible :: "hp_state \<Rightarrow> hp_state \<Rightarrow> bool" where
  "hp_compatible st su \<longleftrightarrow> hp_open st \<and> hp_open su \<and> \<not> (st = HP_SYN_SENT \<and> su = HP_ESTABLISHED) \<and>
     \<not> (su = HP_SYN_SENT \<and> st = HP_ESTABLISHED)"

lemma hp_states_meet:
  assumes "hp_compatible st su"
  defines "su' \<equiv> hp_next (hp_flags st) su"
  defines "st' \<equiv> hp_next (hp_flags su') st"
  shows "st' = HP_ESTABLISHED \<and> hp_next (hp_flags st') su' = HP_ESTABLISHED"
  using assms(1) unfolding st'_def su'_def hp_compatible_def
  by (elim conjE disjE) (simp_all add: hp_next_def hp_answer_def Let_def has_syn_def has_ack_def has_flag_def udt_const)

lemma hp_round_ready:
  assumes A: "hp_ready b st A" and B: "hp_ready a su B" and c: "hp_compatible st su"
    and r: "hp_round a b A B = (A', B')"
  shows "hp_ready b HP_ESTABLISHED A' \<and> hp_ready a HP_ESTABLISHED B'"
proof -
  let ?su = "hp_next (hp_flags st) su" let ?st = "hp_next (hp_flags ?su) st"
  let ?A1 = "hp_output A"
  let ?B1 = "hp_output (hp_deliver a (hp_datagram b ?A1) B)"
  let ?A2 = "hp_output (hp_deliver b (hp_datagram a ?B1) ?A1)"
  let ?B2 = "hp_deliver a (hp_datagram b ?A2) ?B1"
  have data: "hp_datagram ep (hp_output s) = prepare_send_peer_data (hp_flags u)" if "hp_ready ep u s" for ep u s
    using that by (intro hp_datagram_output hp_ready_open) (auto simp: hp_ready_def)
  have B1: "hp_ready a ?su (hp_deliver a (hp_datagram b ?A1) B)"
    unfolding data [OF A] by (rule hp_deliver_ready [OF B])
  have A2: "hp_ready b ?st (hp_deliver b (hp_datagram a ?B1) ?A1)"
    unfolding data [OF B1] by (rule hp_deliver_ready) (simp add: A)
  have B2: "hp_ready a (hp_next (hp_flags ?st) ?su) ?B2"
    unfolding data [OF A2] by (rule hp_deliver_ready) (simp add: B1)
  have "A' = ?A2" using r by (auto simp only: hp_round_def Let_def prod.inject)
  moreover have "B' = ?B2" using r unfolding hp_round_def Let_def prod.inject by (elim conjE) (rule sym)
  moreover have "hp_ready a HP_ESTABLISHED ?B2"
    using B2 unfolding conjunct2 [OF hp_states_meet [OF c]] .
  ultimately show ?thesis using A2 conjunct1 [OF hp_states_meet [OF c]] by simp
qed

text \<open>A client that was just created and asked for one peer.\<close>

definition example_punch :: "udp_endpoint \<Rightarrow> udp_hp_clt" where
  "example_punch ep = the (run hp_step udp_hp_clt_init [Hp_create True True, Hp_punch 7 [ep]])"

lemma hp_init_simps [simp]:
  "peer_eps udp_hp_clt_init = []" "hp_tracker udp_hp_clt_init = tracker_init" "hp_waits udp_hp_clt_init = []"
  "hp_receives udp_hp_clt_init = []" "hp_effects udp_hp_clt_init = []" "hp_rcv_buf udp_hp_clt_init = []"
  "tracker_get tracker_init = Some 0" "\<not> tracker_is_null tracker_init"
  by (simp_all add: udp_hp_clt_init_def tracker_get_def tracker_is_null_def tracker_init_def)

lemma hp_create_init: "hp_create True True udp_hp_clt_init =
    (0, udp_hp_clt_init\<lparr>hp_socket := True, hp_rcv_buf := replicate 2048 0\<rparr>)"
  by (simp add: hp_create_def Let_def str_resize_def DFT_RCV_BUF_SIZE_def)

lemma example_punch_run:
  "run hp_step udp_hp_clt_init [Hp_create True True, Hp_punch 7 [ep]] = Some (example_punch ep)"
  unfolding example_punch_def
  by (simp add: hp_create_init async_hole_punch_def Let_def)

lemma example_punch_ready: "hp_ready ep HP_SYN_SENT (example_punch ep)"
proof -
  have "example_punch ep = hp_async_wait DFT_TIMEOUT_COUNT (hp_async_receive (hp_output
      (udp_hp_clt_init\<lparr>hp_socket := True, hp_rcv_buf := replicate 2048 0, hp_handler := Some 7,
        peer_eps := [(ep, endpoint_info_init\<lparr>info_state := HP_SYN_SENT\<rparr>)]\<rparr>)))"
    unfolding example_punch_def
    by (simp add: hp_create_init async_hole_punch_def Let_def map_modify_def)
  then show ?thesis
    by (simp add: hp_ready_def hp_listens_def DFT_RCV_BUF_SIZE_def peer_eps_output) (simp add: hp_state_of_def)
qed

section \<open>Beside a connection\<close>

text \<open>The packets of the hole punching client do not disturb a connection
  on the same socket: \<open>udt_cb::input\<close> leaves its state as it is, whatever the state and the flags.\<close>

lemma cb_input_ignores_hp:
  "cb_input iv tick_count (prepare_send_peer_data flags) s = Some (False, s)"
proof -
  have "pflags (pkt_of_mem (prepare_send_peer_data flags)) = flags OR TH_HP"
    using prepare_header(2) [of flags] by (simp add: pkt_of_mem_def uh_flags_hdr_of_mem)
  then show ?thesis using prepare_header(1) [of flags] has_hp_or [of flags] by (simp add: cb_input_def Let_def)
qed

section \<open>Properties\<close>

text \<open>C23. Whatever completes and in whatever order, the client reports only
  endpoints its owner asked for and from which a hole punching header with \<open>SYN\<close> and one with
  \<open>ACK\<close> arrived: a third party cannot make it report an endpoint.\<close>

theorem hole_punch_heard:
  assumes "run hp_step udp_hp_clt_init es = Some s" and "Hp_post h e eps \<in> set (hp_effects s)" and "ep \<in> set eps"
  shows "asked es ep \<and> heard es ep TH_SYN \<and> heard es ep TH_ACK"
proof -
  have "hp_posted s ep" using assms(2,3) by (auto simp: hp_posted_def)
  with hp_goodD(4) [OF hp_good_run [OF assms(1)]] show ?thesis by (simp add: earned.simps)
qed

theorem hole_punch_heard_witness:
  "heard [Hp_create True True, Hp_punch 7 [\<lparr>ep_addr = 1, ep_port = 2\<rparr>],
     Hp_received 0 no_error \<lparr>ep_addr = 1, ep_port = 2\<rparr> (prepare_send_peer_data (TH_SYN OR TH_ACK))]
     \<lparr>ep_addr = 1, ep_port = 2\<rparr> TH_ACK"
proof -
  let ?ep = "\<lparr>ep_addr = 1, ep_port = 2\<rparr>"
  let ?r = "Hp_received 0 no_error ?ep (prepare_send_peer_data (TH_SYN OR TH_ACK))"
  have r: "hp_ready ?ep HP_SYN_SENT (example_punch ?ep)" by (rule example_punch_ready)
  have n: "hp_next (TH_SYN OR TH_ACK) HP_SYN_SENT = HP_ESTABLISHED"
    by (simp add: hp_next_def hp_answer_def Let_def has_syn_def has_ack_def has_flag_def udt_const)
  have "hp_listens (example_punch ?ep)" using r by (simp add: hp_ready_def)
  then obtain s where s: "hp_step (example_punch ?ep) ?r = Some s" by (simp add: hp_listens_def)
  then have "hp_posted s ?ep"
    using hp_deliver_ready [OF r, of "TH_SYN OR TH_ACK"] n by (simp add: hp_ready_def hp_deliver_def)
  then obtain h e eps where p: "Hp_post h e eps \<in> set (hp_effects s)" "?ep \<in> set eps" by (auto simp: hp_posted_def)
  have "run hp_step udp_hp_clt_init ([Hp_create True True, Hp_punch 7 [?ep]] @ [?r]) = Some s"
    unfolding run_append example_punch_run using s by simp
  from hole_punch_heard [OF this p] show ?thesis by simp
qed

text \<open>C22. If one copy of each packet gets through, a single round suffices:
  from any states in which neither side starts over while the other is done, both clients have
  established the other's endpoint and posted it to their handlers.\<close>

theorem hole_punch_completes:
  assumes "hp_ready b st A" and "hp_ready a su B" and "hp_compatible st su" and "hp_round a b A B = (A', B')"
  shows "hp_state_of A' b = Some HP_ESTABLISHED \<and> hp_posted A' b \<and>
    hp_state_of B' a = Some HP_ESTABLISHED \<and> hp_posted B' a"
  using hp_round_ready [OF assms] by (simp add: hp_ready_def)

theorem hole_punch_completes_witness:
  "\<exists>A' B'. hp_round \<lparr>ep_addr = 1, ep_port = 2\<rparr> \<lparr>ep_addr = 3, ep_port = 4\<rparr>
      (example_punch \<lparr>ep_addr = 3, ep_port = 4\<rparr>) (example_punch \<lparr>ep_addr = 1, ep_port = 2\<rparr>) = (A', B') \<and>
    hp_posted A' \<lparr>ep_addr = 3, ep_port = 4\<rparr> \<and> hp_posted B' \<lparr>ep_addr = 1, ep_port = 2\<rparr>"
proof -
  let ?a = "\<lparr>ep_addr = 1, ep_port = 2\<rparr>" and ?b = "\<lparr>ep_addr = 3, ep_port = 4\<rparr>"
  obtain A' B' where r: "hp_round ?a ?b (example_punch ?b) (example_punch ?a) = (A', B')" by fastforce
  have "hp_compatible HP_SYN_SENT HP_SYN_SENT" by (simp add: hp_compatible_def)
  from hole_punch_completes [OF example_punch_ready example_punch_ready this r] r show ?thesis by blast
qed

text \<open>C24. A hole punch ends: while only completions occur, at most twenty
  waits of three seconds run, exactly one is outstanding before the twentieth ends, and then the
  handler has been posted \<open>timed_out\<close> and no wait is left.\<close>

theorem hole_punch_gives_up:
  assumes "async_hole_punch h eps s = Some t" and "\<not> tracker_is_null (hp_tracker s)" and "hp_waits s = []"
    and "run hp_step t es = Some u" and "list_all hp_running es"
  shows "timeouts es \<le> DFT_TIMEOUT_COUNT \<and>
    (if timeouts es = DFT_TIMEOUT_COUNT
     then hp_waits u = [] \<and> (\<exists>eps. Hp_post (Some h) (asio_error Timed_out) eps \<in> set (hp_effects u))
     else map fst (hp_waits u) = [DFT_TIMEOUT_COUNT - timeouts es])"
  using hp_chain_run [OF hp_chain_punch [OF assms(1-3)] assms(4,5)] by (auto simp: hp_chain_def split: if_splits)

theorem hole_punch_gives_up_witness:
  "\<exists>t u. async_hole_punch 7 [\<lparr>ep_addr = 1, ep_port = 2\<rparr>] (snd (hp_create True True udp_hp_clt_init)) = Some t \<and>
     run hp_step t [Hp_timeout 0 no_error] = Some u \<and> map fst (hp_waits u) = [19]"
proof -
  let ?s = "snd (hp_create True True udp_hp_clt_init)"
  obtain t where t: "async_hole_punch 7 [\<lparr>ep_addr = 1, ep_port = 2\<rparr>] ?s = Some t"
    by (simp add: hp_create_init async_hole_punch_def Let_def)
  have s: "\<not> tracker_is_null (hp_tracker ?s)" "hp_waits ?s = []" by (simp_all add: hp_create_init)
  from hp_chain_punch [OF t s] have "length (hp_waits t) = 1" by (simp add: hp_chain_def DFT_TIMEOUT_COUNT_def)
  then obtain u where u: "run hp_step t [Hp_timeout 0 no_error] = Some u" by simp
  from hole_punch_gives_up [OF t s u] t u show ?thesis
    by (simp add: timeouts_def DFT_TIMEOUT_COUNT_def no_error_def asio_error_def)
qed

text \<open>C25. Once the client is cancelled, the completions still owed to it do
  nothing, whatever is called in between (it may even be created again and punch new holes): a
  receive leaves only what asio wrote, a wait leaves the state as it is.\<close>

theorem cancelled_is_silent:
  assumes "run hp_step udp_hp_clt_init es = Some s" and "run hp_step (hp_cancel s) fs = Some t"
    and "w \<in> set (hp_receives s)" and "(n, v) \<in> set (hp_waits s)"
  shows "hp_handle_async_receive e ep bytes w t = hp_landed ep bytes t \<and> handle_async_timeout e n v t = t"
proof -
  note i = hp_issued_run [OF assms(1)]
  have "refer_expired (hp_tracker t) w" "refer_expired (hp_tracker t) v"
    using assms(3,4) by (auto intro!: hp_cancel_expires [OF i _ assms(2)] intro: rev_image_eqI)
  then show ?thesis by (simp add: hp_handle_async_receive_landed handle_async_timeout_def Let_def)
qed

theorem cancelled_is_silent_witness:
  "\<exists>s t. run hp_step udp_hp_clt_init [Hp_create True True, Hp_punch 7 [\<lparr>ep_addr = 1, ep_port = 2\<rparr>]] = Some s \<and>
     run hp_step (hp_cancel s) [Hp_create True True] = Some t \<and>
     handle_async_timeout no_error 20 (Some 0) t = t"
proof -
  let ?ep = "\<lparr>ep_addr = 1, ep_port = 2\<rparr>" and ?s = "example_punch \<lparr>ep_addr = 1, ep_port = 2\<rparr>"
  have x: "async_hole_punch 7 [?ep] (udp_hp_clt_init\<lparr>hp_socket := True, hp_rcv_buf := replicate 2048 0\<rparr>) = Some ?s"
    using example_punch_run [of ?ep] by (simp add: hp_create_init)
  have "tracker_get (hp_tracker ?s) = Some 0" "hp_receives ?s = [Some 0]" "hp_waits ?s = [(20, Some 0)]"
    using x by (auto simp: async_hole_punch_def Let_def DFT_TIMEOUT_COUNT_def dest!: sym [of _ "example_punch _"])
  then have m: "Some 0 \<in> set (hp_receives ?s)" "(20, Some 0) \<in> set (hp_waits ?s)" by simp_all
  obtain t where t: "run hp_step (hp_cancel ?s) [Hp_create True True] = Some t" by simp
  from cancelled_is_silent [OF example_punch_run t m, of no_error] t example_punch_run show ?thesis by blast
qed

end
