(* ===== verification/Udt_Text.thy ===== *)
theory Udt_Text
  imports Udt_State
begin

text \<open>
  The text answers of the address and NAT servers: the C library functions the code reads them
  with (\<open>strchr\<close>, \<open>atoi\<close>, \<open>std::string::find\<close>, \<open>rfind\<close> and \<open>substr\<close>, \<open>lexical_cast\<close> of an unsigned
  number) on lists of bytes, and \<open>parse_endpoint\<close>, which \<open>src/udt/udp_pub_addr.cpp\<close> and
  \<open>src/udt/udp_chknat.cpp\<close> have in the same words. Parsing a dotted address is asio's
  (\<open>address_v4::from_string\<close>) and stays a parameter.
\<close>

section \<open>C strings\<close>

definition COLON :: u8 where [udt_const]: "COLON = 58"
definition BLANK :: u8 where [udt_const]: "BLANK = 32"
definition EQUALS :: u8 where [udt_const]: "EQUALS = 61"
definition BAR :: u8 where [udt_const]: "BAR = 124"

text \<open>The text up to the terminating zero; \<open>strchr\<close> is the rest of it from the first match on.\<close>

definition c_str :: "u8 list \<Rightarrow> u8 list" where
  "c_str b = takeWhile (\<lambda>c. c \<noteq> 0) b"

definition strchr :: "u8 \<Rightarrow> u8 list \<Rightarrow> u8 list option" where
  "strchr c b = (case dropWhile (\<lambda>d. d \<noteq> c) (c_str b) of [] \<Rightarrow> None | r \<Rightarrow> Some r)"

definition is_digit :: "u8 \<Rightarrow> bool" where
  "is_digit c \<longleftrightarrow> 48 \<le> c \<and> c \<le> 57"

definition is_space :: "u8 \<Rightarrow> bool" where
  "is_space c \<longleftrightarrow> c = 32 \<or> 9 \<le> c \<and> c \<le> 13"

text \<open>\<open>atoi\<close>: blanks, a sign, digits; out of range it answers the nearest \<open>int\<close>, as Windows' does.\<close>

definition digits_value :: "u8 list \<Rightarrow> nat" where
  "digits_value ds = fold (\<lambda>c n. 10 * n + (unat c - 48)) ds 0"

definition atoi :: "u8 list \<Rightarrow> int" where
  "atoi b =
     (let b = dropWhile is_space b;
          (neg, b) = (case b of [] \<Rightarrow> (False, [])
                      | c # r \<Rightarrow> if c = 45 then (True, r) else if c = 43 then (False, r) else (False, c # r));
          n = int (digits_value (takeWhile is_digit b))
      in max (- 2147483648) (min 2147483647 (if neg then - n else n)))"

text \<open>\<open>lexical_cast<std::string>\<close> of an unsigned number.\<close>

fun dec :: "nat \<Rightarrow> u8 list" where
  "dec n = (if n < 10 then [word_of_nat (48 + n)] else dec (n div 10) @ [word_of_nat (48 + n mod 10)])"

declare dec.simps [simp del]

lemma digit_word:
  assumes "k < 10"
  shows "is_digit (word_of_nat (48 + k))" "unat (word_of_nat (48 + k) :: u8) = 48 + k"
proof -
  have u: "unat (word_of_nat (48 + k) :: u8) = 48 + k" using assms by (intro unat_word_of_nat_small) simp
  then show "unat (word_of_nat (48 + k) :: u8) = 48 + k" .
  show "is_digit (word_of_nat (48 + k))" using u assms by (simp add: is_digit_def word_le_nat_alt)
qed

lemma dec_digits: "list_all is_digit (dec n) \<and> dec n \<noteq> []"
proof (induction n rule: dec.induct)
  case (1 n)
  then show ?case using digit_word(1) [of n] digit_word(1) [of "n mod 10"] by (subst (1 2) dec.simps) auto
qed

lemma digits_value_append: "digits_value (ds @ [c]) = 10 * digits_value ds + (unat c - 48)"
  by (simp add: digits_value_def)

lemma digits_value_dec: "digits_value (dec n) = n"
proof (induction n rule: dec.induct)
  case (1 n)
  show ?case
  proof (cases "n < 10")
    case True
    then have "dec n = [word_of_nat (48 + n)]" by (simp add: dec.simps)
    then show ?thesis using digit_word(2) [OF True] by (simp add: digits_value_def)
  next
    case False
    then have "dec n = dec (n div 10) @ [word_of_nat (48 + n mod 10)]" by (simp add: dec.simps)
    then show ?thesis
      using 1 False digit_word(2) [of "n mod 10"] by (simp add: digits_value_append)
  qed
qed

lemma digit_plain: "is_digit c \<Longrightarrow> \<not> is_space c \<and> c \<noteq> 45 \<and> c \<noteq> 43 \<and> c \<noteq> 0 \<and> c \<noteq> COLON \<and> c \<noteq> BLANK \<and> c \<noteq> BAR \<and> c \<noteq> EQUALS"
  by (auto simp: is_digit_def is_space_def udt_const word_le_nat_alt)

text \<open>A printed number is read back, up to the first byte that is no digit.\<close>

lemma atoi_dec:
  assumes "n < 2 ^ 31" and "rest = [] \<or> \<not> is_digit (hd rest)"
  shows "atoi (dec n @ rest) = int n"
proof -
  obtain c ds where c: "dec n = c # ds" using dec_digits [of n] by (cases "dec n") auto
  then have d: "is_digit c" "list_all is_digit ds" using dec_digits [of n] by auto
  have t: "takeWhile is_digit (dec n @ rest) = dec n"
    using dec_digits [of n] assms(2) by (cases rest) (simp_all add: takeWhile_append2 list_all_iff takeWhile_tail)
  have "dropWhile is_space (dec n @ rest) = dec n @ rest" using d(1) digit_plain by (simp add: c)
  then have "atoi (dec n @ rest) = max (- 2147483648) (min 2147483647 (int (digits_value (takeWhile is_digit (dec n @ rest)))))"
    using digit_plain [OF d(1)] by (simp add: atoi_def Let_def c)
  with t digits_value_dec assms(1) show ?thesis by simp
qed

section \<open>Parsing an endpoint\<close>

text \<open>\<open>find\<close> and \<open>rfind\<close> answer a position or \<open>npos\<close>; \<open>substr\<close> cuts a count given as a \<open>size_t\<close>.\<close>

fun str_find :: "u8 \<Rightarrow> u8 list \<Rightarrow> nat option" where
  "str_find c [] = None"
| "str_find c (d # b) = (if d = c then Some 0 else map_option Suc (str_find c b))"

definition str_rfind :: "u8 \<Rightarrow> u8 list \<Rightarrow> nat option" where
  "str_rfind c b = map_option (\<lambda>n. length b - Suc n) (str_find c (rev b))"

definition str_substr :: "nat \<Rightarrow> u32 \<Rightarrow> u8 list \<Rightarrow> u8 list" where
  "str_substr pos n b = take (unat n) (drop pos b)"

text \<open>The loop \<open>while (str[pos] == ' ') pos++\<close>; behind the end lies a zero.\<close>

function skip_blanks :: "u8 list \<Rightarrow> nat \<Rightarrow> nat" where
  "skip_blanks str pos = (if pos < length str \<and> str ! pos = BLANK then skip_blanks str (pos + 1) else pos)"
  by pat_completeness auto
termination by (relation "measure (\<lambda>(str, pos). length str - pos)") auto

declare skip_blanks.simps [simp del]

definition parse_endpoint :: "(u8 list \<Rightarrow> u32 option) \<Rightarrow> u8 list \<Rightarrow> udp_endpoint option" where
  "parse_endpoint from_string str =
     (case str_find COLON str of
        None \<Rightarrow> None
      | Some pos \<Rightarrow>
          let pos = skip_blanks str (pos + 1) in
          case str_rfind COLON str of
            None \<Rightarrow> None
          | Some pos1 \<Rightarrow>
              let ip = str_substr pos (word_of_nat pos1 - word_of_nat pos) str;
                  port = word_of_int (atoi (drop (pos1 + 1) str)) :: u16
              in Some \<lparr>ep_addr = (case from_string ip of None \<Rightarrow> 0 | Some a \<Rightarrow> a), ep_port = port\<rparr>)"

lemma str_find_append: "c \<notin> set a \<Longrightarrow> str_find c (a @ c # b) = Some (length a)"
  by (induction a) auto

lemma str_rfind_append: "c \<notin> set b \<Longrightarrow> str_rfind c (a @ c # b) = Some (length a)"
  using str_find_append [of c "rev b" "rev a"] by (simp add: str_rfind_def)

lemma skip_blanks_append:
  "rest = [] \<or> hd rest \<noteq> BLANK \<Longrightarrow> skip_blanks (a @ replicate k BLANK @ rest) (length a) = length a + k"
proof (induction k arbitrary: a)
  case 0
  then show ?case by (cases rest) (simp_all add: skip_blanks.simps)
next
  case (Suc k)
  have "skip_blanks (a @ replicate (Suc k) BLANK @ rest) (length a) =
      skip_blanks ((a @ [BLANK]) @ replicate k BLANK @ rest) (length (a @ [BLANK]))"
    by (subst skip_blanks.simps) (simp add: nth_append)
  with Suc.IH [of "a @ [BLANK]"] Suc.prems show ?case by simp
qed

text \<open>A label, a colon, blanks, an address, a colon and a port number are read as what they say.\<close>

lemma parse_endpoint_text:
  assumes "COLON \<notin> set label" "COLON \<notin> set ip" "ip = [] \<or> hd ip \<noteq> BLANK"
    and "length label + k + length ip < 2 ^ 31"
  shows "parse_endpoint from_string (label @ COLON # replicate k BLANK @ ip @ COLON # dec (unat (port :: u16))) =
    Some \<lparr>ep_addr = (case from_string ip of None \<Rightarrow> 0 | Some a \<Rightarrow> a), ep_port = port\<rparr>"
proof -
  let ?str = "label @ COLON # replicate k BLANK @ ip @ COLON # dec (unat port)"
  have f: "str_find COLON ?str = Some (length label)" using assms(1) by (rule str_find_append)
  have s: "skip_blanks ?str (length label + 1) = length label + 1 + k"
    using skip_blanks_append [of "ip @ COLON # dec (unat port)" "label @ [COLON]" k] assms(3)
    by (cases ip) (simp_all add: udt_const)
  have nd: "COLON \<notin> set (dec (unat port))"
    using dec_digits [of "unat port"] digit_plain by (auto simp: list_all_iff)
  have r: "str_rfind COLON ?str = Some (length label + 1 + k + length ip)"
    using str_rfind_append [OF nd, of "label @ COLON # replicate k BLANK @ ip"] by simp
  have "word_of_nat (length label + 1 + k + length ip) - word_of_nat (length label + 1 + k) = (word_of_nat (length ip) :: u32)"
    by simp
  moreover have "unat (word_of_nat (length ip) :: u32) = length ip" using assms(4) by (intro unat_word_of_nat_small) simp
  ultimately have i: "str_substr (length label + 1 + k)
      (word_of_nat (length label + 1 + k + length ip) - word_of_nat (length label + 1 + k)) ?str = ip"
    by (simp add: str_substr_def)
  have "drop (length label + 1 + k + length ip + 1) ?str = dec (unat port)" by simp
  moreover have "atoi (dec (unat port)) = int (unat port)"
    using atoi_dec [of "unat port" "[]"] unat_u16_less [of port] by simp
  ultimately have p: "(word_of_int (atoi (drop (length label + 1 + k + length ip + 1) ?str)) :: u16) = port" by simp
  show ?thesis unfolding parse_endpoint_def f option.case Let_def s r i p ..
qed

end
