(* ===== verification/Udt_Pub_Addr.thy ===== *)
theory Udt_Pub_Addr
  imports Udt_Text Udt_Tracker
begin

text \<open>
  \<open>src/udt/udp_pub_addr.h\<close> and \<open>udp_pub_addr.cpp\<close>: asking a server for the public endpoint of the
  socket. The request carries a transaction number; the answer is taken when it comes from the
  server and names that number. Resolving the host name and the results of \<open>send_to\<close> are asio's:
  parameters of the steps.
\<close>

section \<open>The state\<close>

definition no_endpoint :: udp_endpoint where
  "no_endpoint = \<lparr>ep_addr = 0, ep_port = 0\<rparr>"

definition PA_TIMEOUT_S :: nat where [udt_const]: "PA_TIMEOUT_S = 5"
definition PA_SEND_COUNT :: nat where [udt_const]: "PA_SEND_COUNT = 5"
definition PA_RCV_BUF_SIZE :: nat where [udt_const]: "PA_RCV_BUF_SIZE = 2048"

datatype pa_effect =
    Pa_send udp_endpoint "u8 list"
  | Pa_receive
  | Pa_expires nat
  | Pa_resolve "u8 list" "u8 list"
  | Pa_cancel_timer
  | Pa_cancel_socket
  | Pa_cancel_resolver
  | Pa_post "handler option" error_code udp_endpoint

text \<open>
  \<open>pa_socket\<close> and \<open>pa_resolver\<close> tell whether the pointers are set; \<open>s_trid\<close> is the counter all
  objects of the class share. The last three lists are the completions asio owes.
\<close>

record udp_pub_addr =
  pa_server_ep :: udp_endpoint
  pa_socket :: bool
  pa_handler :: "handler option"
  pub_addr_ep :: udp_endpoint
  pa_remote_ep :: udp_endpoint
  pa_resolver :: bool
  pa_tracker :: tracker
  s_trid :: u32
  pa_trid :: u32
  server_hostname :: "u8 list"
  server_port :: u16
  pa_last_error :: error_code
  pa_receives :: "weak_refer list"
  pa_waits :: "weak_refer list"
  pa_resolves :: "weak_refer list"
  pa_effects :: "pa_effect list"

definition pa_emit :: "pa_effect list \<Rightarrow> udp_pub_addr \<Rightarrow> udp_pub_addr" where
  "pa_emit es s = s\<lparr>pa_effects := pa_effects s @ es\<rparr>"

section \<open>Operations\<close>

definition udp_pub_addr_init :: "u32 \<Rightarrow> udp_pub_addr" where
  "udp_pub_addr_init trid = \<lparr>pa_server_ep = no_endpoint, pa_socket = False, pa_handler = None,
     pub_addr_ep = no_endpoint, pa_remote_ep = no_endpoint, pa_resolver = False, pa_tracker = tracker_init,
     s_trid = trid, pa_trid = 0, server_hostname = [], server_port = 0, pa_last_error = no_error,
     pa_receives = [], pa_waits = [], pa_resolves = [], pa_effects = []\<rparr>"

definition pa_ticket :: "udp_pub_addr \<Rightarrow> udp_pub_addr" where
  "pa_ticket s = (if tracker_is_null (pa_tracker s) then s\<lparr>pa_tracker := tracker_set (pa_tracker s)\<rparr> else s)"

definition pa_create :: "u8 list \<Rightarrow> u16 \<Rightarrow> udp_pub_addr \<Rightarrow> udp_pub_addr" where
  "pa_create hostname port s = pa_ticket (s\<lparr>pa_socket := True, server_hostname := hostname, server_port := port\<rparr>)"

definition pa_cancel :: "udp_pub_addr \<Rightarrow> udp_pub_addr" where
  "pa_cancel s =
     (let s = pa_emit [Pa_cancel_timer] (s\<lparr>pa_tracker := tracker_reset (pa_tracker s)\<rparr>);
          s = (if pa_socket s then pa_emit [Pa_cancel_socket] s else s)
      in if pa_resolver s then pa_emit [Pa_cancel_resolver] (s\<lparr>pa_resolver := False\<rparr>) else s)"

text \<open>The body of \<open>close\<close> is commented out in the source.\<close>

definition pa_close :: "udp_pub_addr \<Rightarrow> udp_pub_addr" where
  "pa_close s = s"

definition pa_notify :: "udp_pub_addr \<Rightarrow> udp_pub_addr" where
  "pa_notify s = pa_emit [Pa_post (pa_handler s) (pa_last_error s) (pub_addr_ep s)] s"

definition pa_async_wait :: "udp_pub_addr \<Rightarrow> udp_pub_addr" where
  "pa_async_wait s = pa_emit [Pa_expires PA_TIMEOUT_S] (s\<lparr>pa_waits := pa_waits s @ [tracker_get (pa_tracker s)]\<rparr>)"

definition pa_async_receive :: "udp_pub_addr \<Rightarrow> udp_pub_addr" where
  "pa_async_receive s =
     (let s = pa_async_wait s
      in pa_emit [Pa_receive] (s\<lparr>pa_receives := pa_receives s @ [tracker_get (pa_tracker s)]\<rparr>))"

text \<open>\<open>sent i\<close> is the error code of the \<open>i\<close>-th \<open>send_to\<close>; \<open>n\<close> sends are left.\<close>

fun pa_send_loop :: "(nat \<Rightarrow> error_code) \<Rightarrow> u8 list \<Rightarrow> nat \<Rightarrow> udp_pub_addr \<Rightarrow> udp_pub_addr" where
  "pa_send_loop sent buf 0 s = s"
| "pa_send_loop sent buf (Suc n) s =
     (let s = pa_emit [Pa_send (pa_server_ep s) buf] s;
          e = sent (PA_SEND_COUNT - Suc n)
      in if is_error e then pa_notify (s\<lparr>pa_last_error := e\<rparr>) else pa_send_loop sent buf n s)"

definition pa_request :: "u32 \<Rightarrow> u8 list" where
  "pa_request trid = [65, EQUALS] @ dec (unat trid)"

definition pa_send_request :: "(nat \<Rightarrow> error_code) \<Rightarrow> udp_pub_addr \<Rightarrow> udp_pub_addr" where
  "pa_send_request sent s =
     (let s = s\<lparr>s_trid := s_trid s + 1\<rparr>;
          s = s\<lparr>pa_trid := s_trid s\<rparr>;
          s = pa_async_receive s
      in pa_send_loop sent (pa_request (pa_trid s)) PA_SEND_COUNT s)"

definition pa_async_resolve ::
  "(u8 list \<Rightarrow> u32 option) \<Rightarrow> (nat \<Rightarrow> error_code) \<Rightarrow> udp_pub_addr \<Rightarrow> udp_pub_addr" where
  "pa_async_resolve from_string sent s =
     (case from_string (server_hostname s) of
        Some a \<Rightarrow> pa_send_request sent (s\<lparr>pa_server_ep := \<lparr>ep_addr = a, ep_port = server_port s\<rparr>\<rparr>)
      | None \<Rightarrow>
          let s = s\<lparr>pa_server_ep := \<lparr>ep_addr = 0, ep_port = server_port s\<rparr>, pa_resolver := True,
                    pa_resolves := pa_resolves s @ [tracker_get (pa_tracker s)]\<rparr>
          in pa_emit [Pa_resolve (server_hostname s) (dec (unat (server_port s)))] s)"

definition async_pub_addr ::
  "(u8 list \<Rightarrow> u32 option) \<Rightarrow> (nat \<Rightarrow> error_code) \<Rightarrow> handler \<Rightarrow> udp_pub_addr \<Rightarrow> udp_pub_addr" where
  "async_pub_addr from_string sent h s =
     (let s = pa_ticket (s\<lparr>pa_handler := Some h\<rparr>);
          s = s\<lparr>pub_addr_ep := no_endpoint\<rparr>
      in if pa_server_ep s = no_endpoint then pa_async_resolve from_string sent s else pa_send_request sent s)"

text \<open>\<open>i\<close> is the first endpoint the resolver found, if any.\<close>

definition pa_handle_resolve ::
  "(nat \<Rightarrow> error_code) \<Rightarrow> error_code \<Rightarrow> udp_endpoint option \<Rightarrow> weak_refer \<Rightarrow> udp_pub_addr \<Rightarrow> udp_pub_addr" where
  "pa_handle_resolve sent e i wref s =
     (if refer_expired (pa_tracker s) wref \<or> e = asio_error Operation_aborted then s
      else case i of
             Some ep \<Rightarrow> if \<not> is_error e then pa_send_request sent (s\<lparr>pa_server_ep := ep\<rparr>)
                        else pa_notify (s\<lparr>pa_last_error := e\<rparr>)
           | None \<Rightarrow> pa_notify (s\<lparr>pa_last_error := e\<rparr>))"

text \<open>The endpoint an answer names, if it carries the transaction number.\<close>

definition pa_answer :: "(u8 list \<Rightarrow> u32 option) \<Rightarrow> u32 \<Rightarrow> u8 list \<Rightarrow> udp_endpoint option" where
  "pa_answer from_string trid text =
     (case strchr EQUALS text of
        None \<Rightarrow> None
      | Some cp \<Rightarrow>
          if (word_of_int (atoi (tl cp)) :: u32) = trid
          then (case strchr BAR text of None \<Rightarrow> None | Some cp \<Rightarrow> parse_endpoint from_string (tl cp))
          else None)"

text \<open>
  A datagram of \<open>bytes_received\<close> bytes lies at the front of \<open>rcv_buf_\<close>; the zero written behind
  it misses the buffer when the datagram fills it. What an earlier datagram left behind the zero
  is never read.
\<close>

definition pa_handle_receive ::
  "(u8 list \<Rightarrow> u32 option) \<Rightarrow> error_code \<Rightarrow> udp_endpoint \<Rightarrow> u8 list \<Rightarrow> weak_refer \<Rightarrow> udp_pub_addr \<Rightarrow> udp_pub_addr option" where
  "pa_handle_receive from_string e ep bytes wref s =
     (let bytes = take PA_RCV_BUF_SIZE bytes;
          s = s\<lparr>pa_remote_ep := ep\<rparr>
      in if refer_expired (pa_tracker s) wref \<or> e = asio_error Operation_aborted then Some s
         else if \<not> is_error e \<and> bytes \<noteq> []
         then if pa_remote_ep s = pa_server_ep s
              then if length bytes = PA_RCV_BUF_SIZE then None
                   else case pa_answer from_string (pa_trid s) bytes of
                          Some public \<Rightarrow> Some (pa_notify (s\<lparr>pub_addr_ep := public\<rparr>))
                        | None \<Rightarrow> Some (pa_async_receive s)
              else Some (pa_async_receive s)
         else Some (pa_notify (s\<lparr>pa_last_error := e\<rparr>)))"

definition pa_handle_wait :: "error_code \<Rightarrow> weak_refer \<Rightarrow> udp_pub_addr \<Rightarrow> udp_pub_addr" where
  "pa_handle_wait e wref s =
     (if refer_expired (pa_tracker s) wref \<or> e = asio_error Operation_aborted then s
      else pa_notify (s\<lparr>pa_last_error := asio_error Timed_out\<rparr>))"

section \<open>The query as a machine\<close>

datatype pa_event =
    Pa_created "u8 list" u16
  | Pa_asked handler "nat \<Rightarrow> error_code"
  | Pa_cancelled
  | Pa_closed
  | Pa_resolved nat error_code "udp_endpoint option" "nat \<Rightarrow> error_code"
  | Pa_received nat error_code udp_endpoint "u8 list"
  | Pa_waited nat error_code

definition drop_owed :: "nat \<Rightarrow> 'a list \<Rightarrow> 'a list" where
  "drop_owed n ws = take n ws @ drop (Suc n) ws"

fun pa_step :: "(u8 list \<Rightarrow> u32 option) \<Rightarrow> udp_pub_addr \<Rightarrow> pa_event \<Rightarrow> udp_pub_addr option" where
  "pa_step fs s (Pa_created hostname port) = Some (pa_create hostname port s)"
| "pa_step fs s (Pa_asked h sent) = (if pa_socket s then Some (async_pub_addr fs sent h s) else None)"
| "pa_step fs s Pa_cancelled = Some (pa_cancel s)"
| "pa_step fs s Pa_closed = Some (pa_close s)"
| "pa_step fs s (Pa_resolved n e i sent) =
     (if n < length (pa_resolves s)
      then Some (pa_handle_resolve sent e i (pa_resolves s ! n) (s\<lparr>pa_resolves := drop_owed n (pa_resolves s)\<rparr>))
      else None)"
| "pa_step fs s (Pa_received n e ep bytes) =
     (if n < length (pa_receives s)
      then pa_handle_receive fs e ep bytes (pa_receives s ! n) (s\<lparr>pa_receives := drop_owed n (pa_receives s)\<rparr>)
      else None)"
| "pa_step fs s (Pa_waited n e) =
     (if n < length (pa_waits s)
      then Some (pa_handle_wait e (pa_waits s ! n) (s\<lparr>pa_waits := drop_owed n (pa_waits s)\<rparr>))
      else None)"

section \<open>Where an endpoint comes from\<close>

text \<open>
  \<open>says fs trid text ep\<close>: the number behind the first \<open>=\<close> is the transaction, and the endpoint
  stands behind the first bar. \<open>answered fs trid es ep\<close>: somewhere in the run a datagram from the
  server of that moment was received that says so with the transaction of that moment.
\<close>

definition says :: "(u8 list \<Rightarrow> u32 option) \<Rightarrow> u32 \<Rightarrow> u8 list \<Rightarrow> udp_endpoint \<Rightarrow> bool" where
  "says fs trid text ep \<longleftrightarrow> (\<exists>num rest. strchr EQUALS text = Some (EQUALS # num) \<and> word_of_int (atoi num) = trid \<and>
     strchr BAR text = Some (BAR # rest) \<and> parse_endpoint fs rest = Some ep)"

lemma strchr_head: "strchr c b = Some r \<Longrightarrow> r = c # tl r"
  unfolding strchr_def using hd_dropWhile [of "\<lambda>d. d \<noteq> c" "c_str b"]
  by (cases "dropWhile (\<lambda>d. d \<noteq> c) (c_str b)") auto

lemma pa_answer_says: "pa_answer fs trid text = Some ep \<Longrightarrow> says fs trid text ep"
  unfolding pa_answer_def says_def
  by (auto split: option.splits if_splits dest: strchr_head)

definition answered :: "(u8 list \<Rightarrow> u32 option) \<Rightarrow> u32 \<Rightarrow> pa_event list \<Rightarrow> udp_endpoint \<Rightarrow> bool" where
  "answered fs trid es ep \<longleftrightarrow>
     (\<exists>before n e bytes rest s. es = before @ Pa_received n e (pa_server_ep s) bytes # rest \<and>
        run (pa_step fs) (udp_pub_addr_init trid) before = Some s \<and> \<not> is_error e \<and>
        says fs (pa_trid s) bytes ep)"

lemma answered_mono: "answered fs trid es ep \<Longrightarrow> answered fs trid (es @ gs) ep"
  unfolding answered_def by (metis append.assoc append_Cons)

definition pa_good :: "(udp_endpoint \<Rightarrow> bool) \<Rightarrow> udp_pub_addr \<Rightarrow> bool" where
  "pa_good K s \<longleftrightarrow> (pub_addr_ep s = no_endpoint \<or> K (pub_addr_ep s)) \<and>
     (\<forall>h e ep. Pa_post h e ep \<in> set (pa_effects s) \<longrightarrow> ep = no_endpoint \<or> K ep)"

lemma pa_good_simps [simp]:
  "pa_good K (s\<lparr>pa_last_error := e\<rparr>) = pa_good K s" "pa_good K (s\<lparr>pa_remote_ep := ep\<rparr>) = pa_good K s"
  "pa_good K (s\<lparr>pa_receives := ws\<rparr>) = pa_good K s" "pa_good K (s\<lparr>pa_waits := ws\<rparr>) = pa_good K s"
  "pa_good K (s\<lparr>pa_resolves := ws\<rparr>) = pa_good K s" "pa_good K (s\<lparr>pa_server_ep := ep\<rparr>) = pa_good K s"
  "pa_good K (s\<lparr>s_trid := n\<rparr>) = pa_good K s" "pa_good K (s\<lparr>pa_trid := n\<rparr>) = pa_good K s"
  "pa_good K (s\<lparr>pa_tracker := t\<rparr>) = pa_good K s" "pa_good K (s\<lparr>pa_handler := h\<rparr>) = pa_good K s"
  "pa_good K (s\<lparr>pa_resolver := b\<rparr>) = pa_good K s" "pa_good K (s\<lparr>pa_socket := b\<rparr>) = pa_good K s"
  "pa_good K (s\<lparr>server_hostname := hn\<rparr>) = pa_good K s" "pa_good K (s\<lparr>server_port := p\<rparr>) = pa_good K s"
  by (simp_all add: pa_good_def)

lemma pa_good_emit [simp]: "(\<And>h e ep. Pa_post h e ep \<notin> set es) \<Longrightarrow> pa_good K (pa_emit es s) = pa_good K s"
  by (auto simp: pa_good_def pa_emit_def)

lemma pa_good_notify [simp]: "pa_good K s \<Longrightarrow> pa_good K (pa_notify s)"
  by (auto simp: pa_good_def pa_notify_def pa_emit_def)

lemma pa_good_async [simp]: "pa_good K (pa_async_wait s) = pa_good K s" "pa_good K (pa_async_receive s) = pa_good K s"
    "pa_good K (pa_ticket s) = pa_good K s"
  by (simp_all add: pa_async_wait_def pa_async_receive_def pa_ticket_def Let_def)

lemma pa_good_send_loop: "pa_good K s \<Longrightarrow> pa_good K (pa_send_loop sent buf n s)"
  by (induction n arbitrary: s) (simp_all add: Let_def)

lemma pa_good_send_request: "pa_good K s \<Longrightarrow> pa_good K (pa_send_request sent s)"
  by (simp add: pa_send_request_def Let_def pa_good_send_loop)

lemma pa_good_reset: "pa_good K s \<Longrightarrow> pa_good K (s\<lparr>pub_addr_ep := no_endpoint\<rparr>)"
  by (simp add: pa_good_def)

lemma pa_good_asked: "pa_good K s \<Longrightarrow> pa_good K (async_pub_addr fs sent h s)"
  by (auto simp: async_pub_addr_def pa_async_resolve_def Let_def
      intro!: pa_good_send_request pa_good_reset split: option.split)

lemma pa_good_cancel: "pa_good K s \<Longrightarrow> pa_good K (pa_cancel s)"
  by (simp add: pa_cancel_def Let_def)

lemma pa_answer_take: "length bytes < PA_RCV_BUF_SIZE \<Longrightarrow> take PA_RCV_BUF_SIZE bytes = bytes"
  by simp

lemma pa_good_receive:
  assumes g: "pa_good K s" and r: "pa_handle_receive fs e ep bytes w s = Some t"
    and K: "\<And>public. ep = pa_server_ep s \<Longrightarrow> \<not> is_error e \<Longrightarrow> pa_answer fs (pa_trid s) bytes = Some public \<Longrightarrow> K public"
  shows "pa_good K t"
proof -
  have full: "length bytes < PA_RCV_BUF_SIZE" if "length (take PA_RCV_BUF_SIZE bytes) \<noteq> PA_RCV_BUF_SIZE"
    using that by auto
  have new: "pa_good K (s\<lparr>pa_remote_ep := ep, pub_addr_ep := public\<rparr>)"
    if "ep = pa_server_ep s" "\<not> is_error e" "pa_answer fs (pa_trid s) (take PA_RCV_BUF_SIZE bytes) = Some public"
      "length (take PA_RCV_BUF_SIZE bytes) \<noteq> PA_RCV_BUF_SIZE" for public
  proof -
    have "K public" using K [of public] that pa_answer_take [OF full [OF that(4)]] by simp
    with g show ?thesis by (simp add: pa_good_def)
  qed
  then show ?thesis using g r
    by (auto simp: pa_handle_receive_def Let_def simp del: length_take split: if_splits option.splits)
qed

lemma pa_good_step:
  assumes g: "pa_good (answered fs trid es) s" and run: "run (pa_step fs) (udp_pub_addr_init trid) es = Some s"
    and s: "pa_step fs s e = Some t"
  shows "pa_good (answered fs trid (es @ [e])) t"
proof -
  have m: "pa_good (answered fs trid (es @ [e])) s" using g answered_mono [of fs trid es _ "[e]"] by (auto simp: pa_good_def)
  show ?thesis
  proof (cases e)
    case (Pa_received n ec ep bytes)
    let ?u = "s\<lparr>pa_receives := drop_owed n (pa_receives s)\<rparr>"
    have "pa_handle_receive fs ec ep bytes (pa_receives s ! n) ?u = Some t"
      using s Pa_received by (auto split: if_splits)
    then show ?thesis
    proof (rule pa_good_receive [rotated])
      show "pa_good (answered fs trid (es @ [e])) ?u" using m by simp
      fix public
      assume "ep = pa_server_ep ?u" "\<not> is_error ec" "pa_answer fs (pa_trid ?u) bytes = Some public"
      then have "es @ [e] = es @ Pa_received n ec (pa_server_ep s) bytes # []" "\<not> is_error ec"
          "says fs (pa_trid s) bytes public"
        using Pa_received pa_answer_says by simp_all
      with run show "answered fs trid (es @ [e]) public" unfolding answered_def by blast
    qed
  next
    case (Pa_resolved n ec i sent)
    with s m show ?thesis
      by (auto simp: pa_handle_resolve_def intro!: pa_good_send_request pa_good_notify split: if_splits option.splits)
  next
    case (Pa_waited n ec)
    with s m show ?thesis by (auto simp: pa_handle_wait_def split: if_splits)
  next
    case (Pa_asked h sent)
    with s m show ?thesis by (auto intro: pa_good_asked split: if_splits)
  next
    case (Pa_created hostname port)
    with s m show ?thesis by (auto simp: pa_create_def)
  qed (use s m in \<open>auto simp: pa_close_def intro: pa_good_cancel\<close>)
qed

lemma pa_good_init: "pa_good K (udp_pub_addr_init trid)"
  by (simp add: pa_good_def udp_pub_addr_init_def)

lemma pa_good_run: "run (pa_step fs) (udp_pub_addr_init trid) es = Some s \<Longrightarrow> pa_good (answered fs trid es) s"
  by (rule run_history [where P = "\<lambda>es. pa_good (answered fs trid es)"]) (blast intro: pa_good_init pa_good_step)+

section \<open>Answers that are understood\<close>

lemma c_str_id: "0 \<notin> set b \<Longrightarrow> c_str b = b"
  by (auto simp: c_str_def takeWhile_eq_all_conv)

lemma strchr_append: "0 \<notin> set (a @ c # b) \<Longrightarrow> c \<notin> set a \<Longrightarrow> strchr c (a @ c # b) = Some (c # b)"
  for a b :: "u8 list" and c :: u8
proof -
  assume z: "0 \<notin> set (a @ c # b)" and c: "c \<notin> set a"
  have "dropWhile (\<lambda>d. d \<noteq> c) (a @ c # b) = c # b" using c by (induction a) auto
  then show ?thesis unfolding strchr_def c_str_id [OF z] by simp
qed

lemma dec_no:
  "0 \<notin> set (dec n)" "COLON \<notin> set (dec n)" "EQUALS \<notin> set (dec n)" "BAR \<notin> set (dec n)"
  using dec_digits [of n] digit_plain by (auto simp: list_all_iff)

text \<open>An answer as the comment in the source shows it: \<open>A=1|RA: 123.123.254.129:1291\<close>.\<close>

definition pa_text :: "u32 \<Rightarrow> u8 list \<Rightarrow> nat \<Rightarrow> u8 list \<Rightarrow> u16 \<Rightarrow> u8 list" where
  "pa_text trid label k ip port =
     pa_request trid @ BAR # label @ COLON # replicate k BLANK @ ip @ COLON # dec (unat port)"

lemma pa_answer_text:
  assumes t: "unat trid < 2 ^ 31" and l: "0 \<notin> set label" "COLON \<notin> set label"
    and i: "0 \<notin> set ip" "COLON \<notin> set ip" "ip = [] \<or> hd ip \<noteq> BLANK" and n: "length label + k + length ip < 2 ^ 31"
  shows "pa_answer fs trid (pa_text trid label k ip port) =
    Some \<lparr>ep_addr = (case fs ip of None \<Rightarrow> 0 | Some a \<Rightarrow> a), ep_port = port\<rparr>"
proof -
  let ?rest = "label @ COLON # replicate k BLANK @ ip @ COLON # dec (unat port)"
  have z: "0 \<notin> set (BAR # ?rest)" "(0 :: u8) \<noteq> EQUALS" using l i dec_no by (auto simp: udt_const)
  have e: "strchr EQUALS (pa_text trid label k ip port) = Some (EQUALS # dec (unat trid) @ BAR # ?rest)"
    using strchr_append [of "[65]" EQUALS "dec (unat trid) @ BAR # ?rest"] z dec_no(1) [of "unat trid"]
    by (simp add: pa_text_def pa_request_def) (simp add: udt_const)
  have "BAR \<notin> set ([65, EQUALS] @ dec (unat trid))" using dec_no(4) by (auto simp: udt_const)
  then have b: "strchr BAR (pa_text trid label k ip port) = Some (BAR # ?rest)"
    using strchr_append [of "[65, EQUALS] @ dec (unat trid)" BAR ?rest] z dec_no(1) [of "unat trid"]
    by (simp add: pa_text_def pa_request_def)
  have "\<not> is_digit BAR" by (simp add: is_digit_def BAR_def)
  then have "atoi (dec (unat trid) @ BAR # ?rest) = int (unat trid)" using t by (intro atoi_dec) simp_all
  then have a: "(word_of_int (atoi (dec (unat trid) @ BAR # ?rest)) :: u32) = trid" by simp
  show ?thesis
    unfolding pa_answer_def e b option.case list.sel(3) a if_P [OF refl] using l(2) i(2,3) n by (rule parse_endpoint_text)
qed

text \<open>A query that was asked of a server given by its address.\<close>

definition example_query :: udp_pub_addr where
  "example_query = the (run (pa_step (\<lambda>_. Some 5)) (udp_pub_addr_init 0) [Pa_created [49] 25000, Pa_asked 7 (\<lambda>_. no_error)])"

lemma example_query_run:
  "run (pa_step (\<lambda>_. Some 5)) (udp_pub_addr_init 0) [Pa_created [49] 25000, Pa_asked 7 (\<lambda>_. no_error)] = Some example_query"
  by (simp add: example_query_def pa_create_def pa_ticket_def udp_pub_addr_init_def tracker_defs tracker_init_def)

lemma example_query_fields:
  "pa_receives example_query = [Some 0]" "pa_tracker example_query = tracker_init" "pa_trid example_query = 1"
  "pa_server_ep example_query = \<lparr>ep_addr = 5, ep_port = 25000\<rparr>" "pa_handler example_query = Some 7"
  "pa_last_error example_query = no_error"
proof -
  have "\<exists>es. pa_send_loop (\<lambda>_. no_error) buf n s = pa_emit es s" for buf n s
  proof (induction n arbitrary: s)
    case 0
    have "pa_send_loop (\<lambda>_. no_error) buf 0 s = pa_emit [] s" by (simp add: pa_emit_def)
    then show ?case by blast
  next
    case (Suc n)
    then obtain es where "pa_send_loop (\<lambda>_. no_error) buf n (pa_emit [Pa_send (pa_server_ep s) buf] s) =
        pa_emit es (pa_emit [Pa_send (pa_server_ep s) buf] s)" by blast
    then have "pa_send_loop (\<lambda>_. no_error) buf (Suc n) s = pa_emit (Pa_send (pa_server_ep s) buf # es) s"
      by (simp add: Let_def) (simp add: pa_emit_def)
    then show ?case by blast
  qed
  then obtain es where q: "example_query = pa_emit es (pa_async_receive ((udp_pub_addr_init 1)\<lparr>pa_trid := 1,
      pa_socket := True, server_hostname := [49], server_port := 25000, pa_handler := Some 7,
      pa_server_ep := \<lparr>ep_addr = 5, ep_port = 25000\<rparr>\<rparr>))"
    by (force simp: example_query_def pa_create_def pa_ticket_def udp_pub_addr_init_def tracker_is_null_def tracker_init_def
        async_pub_addr_def pa_async_resolve_def pa_send_request_def no_endpoint_def Let_def)
  show "pa_receives example_query = [Some 0]" "pa_tracker example_query = tracker_init" "pa_trid example_query = 1"
    "pa_server_ep example_query = \<lparr>ep_addr = 5, ep_port = 25000\<rparr>" "pa_handler example_query = Some 7"
    "pa_last_error example_query = no_error"
    by (simp_all add: q pa_emit_def pa_async_receive_def pa_async_wait_def udp_pub_addr_init_def tracker_get_def tracker_init_def Let_def)
qed

section \<open>Properties\<close>

text \<open>C28. Over any run, an endpoint the handler is told (other than the empty
  one) was named by a datagram that came from the server the query was sent to and carried the
  transaction number of the request outstanding at that moment.\<close>

theorem pub_addr_authentic:
  assumes "run (pa_step fs) (udp_pub_addr_init trid) es = Some s" and "Pa_post h e ep \<in> set (pa_effects s)"
    and "ep \<noteq> no_endpoint"
  shows "answered fs trid es ep"
  using pa_good_run [OF assms(1)] assms(2,3) by (auto simp: pa_good_def)

text \<open>C29. The server's answer to the request, in the format the source gives for
  it, is understood: the handler is posted the very address and port that were printed into it,
  and no receive is left outstanding. (Numbers from 2 ^ 31 on are not: \<open>atoi\<close> is signed.)\<close>

theorem pub_addr_answered:
  assumes "pa_receives s = [w]" and "\<not> refer_expired (pa_tracker s) w" and "unat (pa_trid s) < 2 ^ 31"
    and "0 \<notin> set label" "COLON \<notin> set label" "0 \<notin> set ip" "COLON \<notin> set ip" "ip = [] \<or> hd ip \<noteq> BLANK"
    and "length (pa_text (pa_trid s) label k ip port) < PA_RCV_BUF_SIZE"
  shows "\<exists>t. pa_step fs s (Pa_received 0 no_error (pa_server_ep s) (pa_text (pa_trid s) label k ip port)) = Some t \<and>
    Pa_post (pa_handler s) (pa_last_error s) \<lparr>ep_addr = (case fs ip of None \<Rightarrow> 0 | Some a \<Rightarrow> a), ep_port = port\<rparr>
      \<in> set (pa_effects t) \<and> pa_receives t = []"
proof -
  let ?text = "pa_text (pa_trid s) label k ip port"
  have "length label + k + length ip < 2 ^ 31" using assms(9) by (simp add: pa_text_def PA_RCV_BUF_SIZE_def)
  from pa_answer_text [OF assms(3-8) this] have a: "pa_answer fs (pa_trid s) ?text =
      Some \<lparr>ep_addr = (case fs ip of None \<Rightarrow> 0 | Some a \<Rightarrow> a), ep_port = port\<rparr>" .
  have t: "take PA_RCV_BUF_SIZE ?text = ?text" "length ?text \<noteq> PA_RCV_BUF_SIZE" "?text \<noteq> []"
    using assms(9) by (simp_all add: pa_text_def pa_request_def)
  show ?thesis
    using assms(1,2) t a
    by (simp add: pa_handle_receive_def Let_def drop_owed_def no_error_def asio_error_def is_error_def pa_notify_def pa_emit_def)
qed

theorem pub_addr_answered_witness:
  "\<exists>t. pa_step (\<lambda>_. Some 5) example_query (Pa_received 0 no_error \<lparr>ep_addr = 5, ep_port = 25000\<rparr>
      (pa_text 1 [82, 65] 1 [49] 1291)) = Some t \<and>
    Pa_post (Some 7) no_error \<lparr>ep_addr = 5, ep_port = 1291\<rparr> \<in> set (pa_effects t)"
proof -
  have l: "length (pa_text 1 [82, 65] 1 [49] 1291) < PA_RCV_BUF_SIZE"
    by (simp add: pa_text_def pa_request_def dec.simps PA_RCV_BUF_SIZE_def)
  have "\<not> refer_expired (pa_tracker example_query) (Some 0)"
    by (simp add: example_query_fields refer_expired_def tracker_init_def)
  from pub_addr_answered [OF example_query_fields(1) this, of "[82, 65]" "[49]" 1 1291 "\<lambda>_. Some 5"] l
  show ?thesis by (auto simp: example_query_fields udt_const)
qed

theorem pub_addr_authentic_witness:
  "answered (\<lambda>_. Some 5) 0 [Pa_created [49] 25000, Pa_asked 7 (\<lambda>_. no_error),
     Pa_received 0 no_error \<lparr>ep_addr = 5, ep_port = 25000\<rparr> (pa_text 1 [82, 65] 1 [49] 1291)] \<lparr>ep_addr = 5, ep_port = 1291\<rparr>"
proof -
  let ?r = "Pa_received 0 no_error \<lparr>ep_addr = 5, ep_port = 25000\<rparr> (pa_text 1 [82, 65] 1 [49] 1291)"
  have "pa_answer (\<lambda>_. Some 5) 1 (pa_text 1 [82, 65] 1 [49] 1291) = Some \<lparr>ep_addr = 5, ep_port = 1291\<rparr>"
    using pa_answer_text [of 1 "[82, 65]" "[49]" 1 "\<lambda>_. Some 5" 1291] by (simp add: udt_const)
  moreover have "length (pa_text 1 [82, 65] 1 [49] 1291) < PA_RCV_BUF_SIZE" "pa_text 1 [82, 65] 1 [49] 1291 \<noteq> []"
    by (simp_all add: pa_text_def pa_request_def dec.simps PA_RCV_BUF_SIZE_def)
  ultimately obtain s where s: "pa_step (\<lambda>_. Some 5) example_query ?r = Some s"
      "Pa_post (Some 7) no_error \<lparr>ep_addr = 5, ep_port = 1291\<rparr> \<in> set (pa_effects s)"
    by (simp add: pa_handle_receive_def Let_def example_query_fields refer_expired_def tracker_init_def
        no_error_def asio_error_def is_error_def pa_notify_def pa_emit_def)
  have "run (pa_step (\<lambda>_. Some 5)) (udp_pub_addr_init 0) ([Pa_created [49] 25000, Pa_asked 7 (\<lambda>_. no_error)] @ [?r]) = Some s"
    unfolding run_append example_query_run using s(1) by simp
  from pub_addr_authentic [OF this s(2)] show ?thesis by (simp add: no_endpoint_def)
qed

end
