(* ===== verification/Udt_Engine.thy ===== *)
theory Udt_Engine
  imports Udt_Punch Udt_Pub_Addr Udt_Socket
begin

text \<open>
  \<open>src/udt/udt_engine.h\<close> and \<open>udt_engine.cpp\<close>: the engine keeps the sockets it made in a set of
  pointers and runs every request in one thread, through the queue of its \<open>io_service\<close>. A request
  names a socket by its pointer; each handler looks the pointer up first. Executing the queue,
  the results of system calls and the addresses \<open>new\<close> returns are parameters of the events.
\<close>

section \<open>The state\<close>

type_synonym address = nat

text \<open>
  \<open>udt_engine_socket\<close>: \<open>raw_open\<close> and \<open>raw_bound\<close> are what the code asks \<open>raw_sock\<close> for; a NULL
  \<open>pub_addr\<close> or \<open>hp_clt\<close> is \<open>None\<close>.
\<close>

record engine_socket =
  raw_open :: bool
  raw_bound :: bool
  sock_of :: udt_socket
  pub_addr_of :: "udp_pub_addr option"
  hp_clt_of :: "udp_hp_clt option"

text \<open>The handlers the engine's functions post, with what is bound into them.\<close>

datatype engine_call =
    Do_clear
  | Do_create u16 address bool bool udt_seq udt_seq udt_seq
  | Do_close address
  | Do_pub_addr address "u8 list" u16 handler "nat \<Rightarrow> error_code"
  | Do_hole_punch address "udp_endpoint list" handler
  | Do_connect address udp_endpoint handler
  | Do_accept address udp_endpoint handler
  | Do_send address const_buffer handler
  | Do_receive address mutable_buffer handler
  | Do_shutdown address handler
  | Do_cancel address
  | Do_setsockopt address sockopt u32
  | Do_getsockopt address sockopt
  | Do_pending_data address
  | Pub_addr_done error_code udp_endpoint address handler
  | Hole_punch_done error_code "udp_endpoint list" address handler

text \<open>What comes back: results of the blocking calls, and the user's handlers that were called.\<close>

datatype engine_answer =
    Answer_socket address
  | Answer_int int
  | Answer_option "int \<times> (u32 \<times> int) option"
  | Answer_size u32
  | Called_pub_addr handler error_code udp_endpoint
  | Called_hole_punch handler error_code "udp_endpoint list"

text \<open>
  An entry of the queue is posted by \<open>post_io_service\<close> with a ticket, or by \<open>ios_.post\<close> without.
  \<open>eng_trid\<close> is the static counter of \<open>udp_pub_addr\<close>; \<open>deleted\<close> keeps the sockets in the state
  their destructor left.
\<close>

record udt_engine =
  sockets :: "(address \<times> engine_socket) list"
  posted :: "(weak_refer option \<times> engine_call) list"
  eng_thread :: bool
  eng_worker :: bool
  eng_tracker :: tracker
  eng_trid :: u32
  answers :: "engine_answer list"
  deleted :: "(address \<times> engine_socket) list"


definition answer :: "engine_answer \<Rightarrow> udt_engine \<Rightarrow> udt_engine" where
  "answer a E = E\<lparr>answers := answers E @ [a]\<rparr>"

section \<open>One engine socket\<close>



section \<open>Requests\<close>




text \<open>\<open>post_handler\<close> with the engine's ticket, and a plain \<open>ios_.post\<close>.\<close>

definition post_handler :: "engine_call \<Rightarrow> udt_engine \<Rightarrow> udt_engine" where
  "post_handler c E = E\<lparr>posted := posted E @ [(Some (tracker_get (eng_tracker E)), c)]\<rparr>"

definition ios_post :: "engine_call list \<Rightarrow> udt_engine \<Rightarrow> udt_engine" where
  "ios_post cs E = E\<lparr>posted := posted E @ map (\<lambda>c. (None, c)) cs\<rparr>"













definition eng_getsockopt :: "address \<Rightarrow> sockopt \<Rightarrow> udt_engine \<Rightarrow> udt_engine" where
  "eng_getsockopt p optname E =
     (case map_of (sockets E) p of
        None \<Rightarrow> answer (Answer_option (- 1, None)) E
      | Some es \<Rightarrow> answer (Answer_option (getsockopt optname (sock_of es))) E)"

definition eng_pending_data :: "address \<Rightarrow> udt_engine \<Rightarrow> udt_engine" where
  "eng_pending_data p E =
     (case map_of (sockets E) p of
        None \<Rightarrow> answer (Answer_size (- 1)) E
      | Some es \<Rightarrow> answer (Answer_size (pending_data (sock_of es))) E)"


section \<open>The thread\<close>







section \<open>What a request can touch\<close>

lemma sockets_answer [simp]: "sockets (answer a E) = sockets E" "sockets (ios_post cs E) = sockets E"
    "sockets (post_handler c E) = sockets E"
  by (simp_all add: answer_def ios_post_def post_handler_def)












lemma sockets_queries [simp]: "sockets (eng_getsockopt p optname E) = sockets E" "sockets (eng_pending_data p E) = sockets E"
  by (simp_all add: eng_getsockopt_def eng_pending_data_def split: option.split)












section \<open>Every socket is a socket\<close>























section \<open>Properties\<close>





end
