(* ===== verification/Udt_Timer.thy ===== *)
theory Udt_Timer
  imports Udt_Tracker
begin

text \<open>
  \<open>src/udt/timer.h\<close> and \<open>timer.cpp\<close>: the periodic timer behind the fast and the slow timer of a
  connection, and the byte order of 64-bit integers of \<open>src/udt/utils.cpp\<close>. The deadline timer
  below it belongs to asio: it owes one completion for every \<open>async_wait\<close>, with or without an
  error, in any order and at any later time.
\<close>

section \<open>The timer\<close>

text \<open>
  \<open>owed\<close> are the waits not completed yet, each with the ticket bound into it; \<open>proc_calls\<close> are
  the functors called so far (\<open>None\<close> is the virtual \<open>timer_proc\<close>, which does nothing).
\<close>

record timer =
  m_timer_proc :: "handler option"
  m_milli_sec :: int
  m_stopping :: bool
  m_tracker :: tracker
  owed :: "weak_refer list"
  proc_calls :: "handler option list"

text \<open>\<open>m_stopping\<close> is not initialised by the constructor (parameter \<open>garbage\<close>).\<close>

definition timer_init :: "bool \<Rightarrow> timer" where
  "timer_init garbage = \<lparr>m_timer_proc = None, m_milli_sec = 0, m_stopping = garbage,
     m_tracker = tracker_init, owed = [], proc_calls = []\<rparr>"

definition timer_async_wait :: "timer \<Rightarrow> timer" where
  "timer_async_wait t = t\<lparr>owed := owed t @ [tracker_get (m_tracker t)]\<rparr>"

definition timer_start :: "int \<Rightarrow> handler option \<Rightarrow> timer \<Rightarrow> timer" where
  "timer_start milli_sec timer_proc t =
     timer_async_wait (t\<lparr>m_stopping := False, m_milli_sec := milli_sec, m_timer_proc := timer_proc\<rparr>)"

definition timer_stop :: "timer \<Rightarrow> timer" where
  "timer_stop t = (if m_stopping t then t else t\<lparr>m_stopping := True\<rparr>)"

text \<open>The destructor stops the timer; its \<open>tracker\<close> dies with it.\<close>

definition timer_destroy :: "timer \<Rightarrow> timer" where
  "timer_destroy t = (let t = timer_stop t in t\<lparr>m_tracker := tracker_reset (m_tracker t)\<rparr>)"

text \<open>What the functor does to the timer that calls it: it stops it, restarts it, or deletes it.\<close>

datatype timer_call = Start_again int "handler option" | Stop_it | Destroy_it

fun timer_apply :: "timer_call \<Rightarrow> timer \<Rightarrow> timer" where
  "timer_apply (Start_again ms p) t = timer_start ms p t"
| "timer_apply Stop_it t = timer_stop t"
| "timer_apply Destroy_it t = timer_destroy t"

definition handle_timeout :: "timer_call list \<Rightarrow> error_code \<Rightarrow> weak_refer \<Rightarrow> timer \<Rightarrow> timer" where
  "handle_timeout functor ec wref t =
     (if refer_expired (m_tracker t) wref then t
      else if \<not> is_error ec \<and> \<not> m_stopping t
      then let w = tracker_get (m_tracker t);
               t = t\<lparr>proc_calls := proc_calls t @ [m_timer_proc t]\<rparr>;
               t = fold timer_apply functor t
           in if \<not> refer_expired (m_tracker t) w then timer_async_wait t else t
      else t)"

section \<open>The timer as a machine\<close>

text \<open>
  The owner calls the timer while it lives; asio completes an owed wait. \<open>Timer_completes n ec
  functor\<close> completes the \<open>n\<close>-th of them.
\<close>

datatype timer_event = Timer_called timer_call | Timer_completes nat error_code "timer_call list"

definition timer_alive :: "timer \<Rightarrow> bool" where
  "timer_alive t \<longleftrightarrow> \<not> tracker_is_null (m_tracker t)"

text \<open>A deleted timer is not called any more, and what is called last can be deleting it.\<close>

fun calls_proper :: "timer_call list \<Rightarrow> bool" where
  "calls_proper [] = True"
| "calls_proper (c # cs) = (if c = Destroy_it then cs = [] else calls_proper cs)"

fun timer_step :: "timer \<Rightarrow> timer_event \<Rightarrow> timer option" where
  "timer_step t (Timer_called c) = (if timer_alive t then Some (timer_apply c t) else None)"
| "timer_step t (Timer_completes n ec functor) =
     (if n < length (owed t) \<and> calls_proper functor
      then Some (handle_timeout functor ec (owed t ! n) (t\<lparr>owed := take n (owed t) @ drop (Suc n) (owed t)\<rparr>))
      else None)"

section \<open>The flag it implements\<close>

text \<open>
  The socket's model keeps one flag per timer: the timer's handler is called only while the flag
  is set. \<open>flag_step\<close> is this specification: starting sets the flag, stopping and deleting
  clear it, and a completion may call the functor when it is set.
\<close>

fun flag_apply :: "timer_call \<Rightarrow> bool \<Rightarrow> bool" where
  "flag_apply (Start_again ms p) b = True"
| "flag_apply Stop_it b = False"
| "flag_apply Destroy_it b = False"

inductive flag_step :: "bool \<Rightarrow> timer_event \<Rightarrow> nat \<Rightarrow> bool \<Rightarrow> bool" where
  called: "flag_step b (Timer_called c) 0 (flag_apply c b)"
| silent: "flag_step b (Timer_completes n ec functor) 0 b"
| ticks: "b \<Longrightarrow> \<not> is_error ec \<Longrightarrow> flag_step b (Timer_completes n ec functor) 1 (fold flag_apply functor b)"

inductive_cases flag_step_elims: "flag_step b e k c"

inductive flag_run :: "bool \<Rightarrow> timer_event list \<Rightarrow> nat \<Rightarrow> bool \<Rightarrow> bool" where
  stays: "flag_run b [] 0 b"
| goes_on: "flag_step b e k c \<Longrightarrow> flag_run c es l d \<Longrightarrow> flag_run b (e # es) (k + l) d"

text \<open>
  The simulation: a set flag means a live timer that is not stopping; a timer that could still
  call its functor has its flag set. While the functor runs, both say the same.
\<close>

definition flag_of :: "timer \<Rightarrow> bool \<Rightarrow> bool" where
  "flag_of t b \<longleftrightarrow> tracker_ok (m_tracker t) \<and> (b \<longrightarrow> \<not> m_stopping t \<and> timer_alive t) \<and>
     (owed t \<noteq> [] \<longrightarrow> \<not> m_stopping t \<longrightarrow> timer_alive t \<longrightarrow> b)"

definition in_step :: "timer \<Rightarrow> bool \<Rightarrow> bool" where
  "in_step t b \<longleftrightarrow> tracker_ok (m_tracker t) \<and> (b \<longleftrightarrow> \<not> m_stopping t \<and> timer_alive t)"

lemma tracker_alive_simps [simp]: "tracker_is_null (tracker_reset r)" "\<not> tracker_is_null tracker_init"
  by (simp_all add: tracker_defs tracker_init_def)

lemma tracker_reset_ok [simp]: "tracker_ok (tracker_reset r)"
  by (simp add: tracker_defs)

lemma not_expired_alive: "\<not> refer_expired r w \<Longrightarrow> \<not> tracker_is_null r"
  by (auto simp: tracker_defs)

lemmas timer_defs = timer_start_def timer_async_wait_def timer_stop_def timer_destroy_def timer_alive_def

lemma proc_calls_apply [simp]: "proc_calls (timer_apply c t) = proc_calls t"
  by (cases c) (simp_all add: timer_defs Let_def)

lemma proc_calls_applies [simp]: "proc_calls (fold timer_apply cs t) = proc_calls t"
  by (induction cs arbitrary: t) simp_all

lemma flag_of_apply: "flag_of t b \<Longrightarrow> timer_alive t \<Longrightarrow> flag_of (timer_apply c t) (flag_apply c b)"
  by (cases c) (auto simp: flag_of_def timer_defs Let_def)

lemma in_step_apply: "in_step t b \<Longrightarrow> timer_alive t \<Longrightarrow> in_step (timer_apply c t) (flag_apply c b)"
  by (cases c) (auto simp: in_step_def timer_defs Let_def)

lemma alive_apply: "c \<noteq> Destroy_it \<Longrightarrow> timer_alive t \<Longrightarrow> timer_alive (timer_apply c t)"
  by (cases c) (simp_all add: timer_defs Let_def)

lemma in_step_applies:
  "in_step t b \<Longrightarrow> timer_alive t \<Longrightarrow> calls_proper cs \<Longrightarrow> in_step (fold timer_apply cs t) (fold flag_apply cs b)"
proof (induction cs arbitrary: t b)
  case (Cons c cs)
  then show ?case using in_step_apply [of t b c] by (cases "c = Destroy_it") (simp_all add: alive_apply)
qed simp

lemma in_step_flag: "in_step t b \<Longrightarrow> flag_of t b" "in_step t b \<Longrightarrow> flag_of (timer_async_wait t) b"
  by (auto simp: in_step_def flag_of_def timer_async_wait_def timer_alive_def)

lemma flag_of_completes:
  assumes f: "flag_of t b" and n: "n < length (owed t)" and cs: "calls_proper cs"
    and u: "u = handle_timeout cs ec w (t\<lparr>owed := take n (owed t) @ drop (Suc n) (owed t)\<rparr>)"
  shows "\<exists>c. flag_step b (Timer_completes n ec cs) (length (proc_calls u) - length (proc_calls t)) c \<and> flag_of u c"
proof -
  let ?t = "t\<lparr>owed := take n (owed t) @ drop (Suc n) (owed t)\<rparr>"
  let ?v = "fold timer_apply cs (?t\<lparr>proc_calls := proc_calls t @ [m_timer_proc t]\<rparr>)"
  show ?thesis
  proof (cases "refer_expired (m_tracker t) w \<or> is_error ec \<or> m_stopping t")
    case True
    then have [simp]: "u = ?t" using u by (auto simp: handle_timeout_def)
    have "flag_of ?t b" using f n by (auto simp: flag_of_def timer_alive_def)
    then show ?thesis using flag_step.silent [of b n ec cs] by auto
  next
    case False
    then have live: "timer_alive t" by (auto simp: timer_alive_def dest: not_expired_alive)
    moreover have "owed t \<noteq> []" using n by auto
    ultimately have b: "b" using f False by (auto simp: flag_of_def)
    have "in_step (?t\<lparr>proc_calls := proc_calls t @ [m_timer_proc t]\<rparr>) b"
      using f b False live by (simp add: in_step_def flag_of_def timer_alive_def)
    moreover have "timer_alive (?t\<lparr>proc_calls := proc_calls t @ [m_timer_proc t]\<rparr>)"
      using live by (simp add: timer_alive_def)
    ultimately have s: "in_step ?v (fold flag_apply cs b)" using cs by (rule in_step_applies)
    have "u = ?v \<or> u = timer_async_wait ?v" using u False by (auto simp: handle_timeout_def Let_def)
    moreover from this have "proc_calls u = proc_calls t @ [m_timer_proc t]" by (auto simp: timer_async_wait_def)
    ultimately show ?thesis using in_step_flag [OF s] flag_step.ticks [OF b, of ec n cs] False
      by (intro exI [of _ "fold flag_apply cs b"]) auto
  qed
qed

lemma flag_of_step:
  assumes "flag_of t b" and "timer_step t e = Some u"
  shows "\<exists>c. flag_step b e (length (proc_calls u) - length (proc_calls t)) c \<and> flag_of u c"
proof (cases e)
  case (Timer_called c)
  with assms have "timer_alive t" "u = timer_apply c t" by (auto split: if_splits)
  with Timer_called flag_of_apply [OF assms(1)] flag_step.called [of b c] show ?thesis by auto
next
  case (Timer_completes n ec cs)
  with assms show ?thesis using flag_of_completes by (auto split: if_splits)
qed

lemma proc_calls_step: "timer_step t e = Some u \<Longrightarrow> length (proc_calls t) \<le> length (proc_calls u)"
  by (cases e) (auto simp: handle_timeout_def timer_async_wait_def Let_def split: if_splits)

lemma flag_of_run:
  "flag_of t b \<Longrightarrow> run timer_step t es = Some u \<Longrightarrow>
     \<exists>c. flag_run b es (length (proc_calls u) - length (proc_calls t)) c \<and> flag_of u c \<and>
         length (proc_calls t) \<le> length (proc_calls u)"
proof (induction es arbitrary: t b)
  case Nil
  then show ?case using flag_run.stays by auto
next
  case (Cons e es)
  then obtain v where v: "timer_step t e = Some v" "run timer_step v es = Some u" by (auto simp: bind_eq_Some_conv)
  obtain c where c: "flag_step b e (length (proc_calls v) - length (proc_calls t)) c" "flag_of v c"
    using flag_of_step [OF Cons.prems(1) v(1)] by blast
  obtain d where d: "flag_run c es (length (proc_calls u) - length (proc_calls v)) d" "flag_of u d"
      "length (proc_calls v) \<le> length (proc_calls u)"
    using Cons.IH [OF c(2) v(2)] by blast
  have "flag_run b (e # es) (length (proc_calls v) - length (proc_calls t) + (length (proc_calls u) - length (proc_calls v))) d"
    by (rule flag_run.goes_on [OF c(1) d(1)])
  with d proc_calls_step [OF v(1)] show ?case by auto
qed

lemma flag_of_init: "flag_of (timer_init garbage) False"
  by (simp add: flag_of_def timer_init_def)

section \<open>Byte order of 64-bit integers\<close>

text \<open>
  \<open>htonll\<close> swaps the two halves and reverses the bytes of each; a \<open>long long\<close> is its low and its
  high half, as the casts to \<open>long*\<close> read them on the little endian machine.
\<close>

definition htonll :: "u32 \<times> u32 \<Rightarrow> u32 \<times> u32" where
  "htonll v = (case v of (low, high) \<Rightarrow> (bswap32 high, bswap32 low))"

definition ntohll :: "u32 \<times> u32 \<Rightarrow> u32 \<times> u32" where
  "ntohll v = htonll v"

lemma ntohll_htonll: "ntohll (htonll v) = v"
  by (simp add: ntohll_def htonll_def split: prod.split)

lemma htonll_bytes: "(case htonll (low, high) of (l, h) \<Rightarrow> bytes32 l @ bytes32 h) = rev (bytes32 low @ bytes32 high)"
  by (simp add: htonll_def bytes32_bswap)

section \<open>Properties\<close>

text \<open>C34. Whatever waits the deadline timer still owes, and in whatever order and
  with whatever errors it completes them, the timer behaves like a flag: every call of the
  functor happens while the flag set by \<open>start\<close> and cleared by \<open>stop\<close> and by deleting the timer
  is set. The uninitialised \<open>m_stopping\<close> does not matter.\<close>

theorem timer_obeys:
  assumes "run timer_step (timer_init garbage) es = Some t"
  shows "\<exists>b. flag_run False es (length (proc_calls t)) b \<and> (b \<longrightarrow> \<not> m_stopping t \<and> timer_alive t)"
  using flag_of_run [OF flag_of_init assms] by (auto simp: timer_init_def flag_of_def)

theorem timer_obeys_witness:
  "\<exists>b. flag_run False [Timer_called (Start_again 200 (Some 7)), Timer_completes 0 no_error [Stop_it],
       Timer_completes 0 no_error []] 1 b"
proof -
  let ?es = "[Timer_called (Start_again 200 (Some 7)), Timer_completes 0 no_error [Stop_it], Timer_completes 0 no_error []]"
  have "\<exists>t. run timer_step (timer_init True) ?es = Some t \<and> length (proc_calls t) = 1"
    by (simp add: timer_init_def timer_defs handle_timeout_def tracker_defs tracker_init_def Let_def)
  then show ?thesis using timer_obeys [of True ?es] by auto
qed

end
