(* ===== verification/Udt_Nat.thy ===== *)
theory Udt_Nat
  imports Udt_Pub_Addr
begin

text \<open>
  \<open>src/udt/udp_chknat.h\<close> and \<open>udp_chknat.cpp\<close>: finding out what kind of address translation lies
  before the socket. Four questions go to two servers; each answer says which question it
  answers and which endpoint the server saw. Resolving and the machine's own endpoints
  (\<open>get_local_endpoints_v4\<close>) are asio's: parameters.
\<close>

section \<open>The state\<close>

datatype nat_kind = Nt_none | Nt_fw_block | Nt_wan | Nt_symmetric | Nt_full_cone
  | Nt_port_restrict_cone | Nt_restrict_cone

definition CN_SEND_COUNT :: nat where [udt_const]: "CN_SEND_COUNT = 5"
definition CN_TIMEOUT_S :: nat where [udt_const]: "CN_TIMEOUT_S = 10"

record nat_info =
  nat_type :: nat_kind
  nat_eps :: "udp_endpoint list"


datatype cn_effect =
    Cn_send udp_endpoint "u8 list"
  | Cn_receive
  | Cn_expires nat
  | Cn_resolve nat
  | Cn_cancel_timer
  | Cn_cancel_resolver
  | Cn_cancel_socket
  | Cn_post "handler option" error_code nat_info

text \<open>\<open>server_eps\<close> is static; \<open>cn_resolves\<close> holds the index bound into each resolve handler.\<close>

record udp_chknat =
  cn_tracker :: tracker
  cn_handler :: "handler option"
  cn_socket :: bool
  cn_info :: nat_info
  resp_bitmap :: "bool list"
  server_eps :: "udp_endpoint list"
  cn_remote_ep :: udp_endpoint
  cn_last_error :: error_code
  cn_receives :: "weak_refer list"
  cn_waits :: "weak_refer list"
  cn_resolves :: "(nat \<times> weak_refer) list"
  cn_effects :: "cn_effect list"

definition cn_emit :: "cn_effect list \<Rightarrow> udp_chknat \<Rightarrow> udp_chknat" where
  "cn_emit es s = s\<lparr>cn_effects := cn_effects s @ es\<rparr>"

section \<open>Operations\<close>



definition cn_cancel :: "udp_chknat \<Rightarrow> udp_chknat" where
  "cn_cancel s =
     (let s = cn_emit [Cn_cancel_timer, Cn_cancel_resolver] (s\<lparr>cn_tracker := tracker_reset (cn_tracker s)\<rparr>)
      in if cn_socket s then cn_emit [Cn_cancel_socket] s else s)"

definition cn_notify :: "udp_chknat \<Rightarrow> udp_chknat" where
  "cn_notify s = (let s = cn_cancel s in cn_emit [Cn_post (cn_handler s) (cn_last_error s) (cn_info s)] s)"

definition cn_async_receive :: "udp_chknat \<Rightarrow> udp_chknat" where
  "cn_async_receive s = cn_emit [Cn_expires CN_TIMEOUT_S, Cn_receive]
     (s\<lparr>cn_waits := cn_waits s @ [tracker_get (cn_tracker s)], cn_receives := cn_receives s @ [tracker_get (cn_tracker s)]\<rparr>)"

definition cn_questions :: "u8 list list" where
  "cn_questions = [[65, 61, 48], [65, 61, 49], [66, 61, 50], [67, 61, 51]]"

definition cn_send_request :: "udp_chknat \<Rightarrow> udp_chknat" where
  "cn_send_request s =
     (let s = cn_async_receive s
      in cn_emit (concat (map (\<lambda>i. replicate CN_SEND_COUNT
                   (Cn_send (server_eps s ! (if i = 0 then 0 else 1)) (cn_questions ! i))) [0, 1, 2, 3])) s)"

definition cn_async_resolve_server :: "nat \<Rightarrow> udp_chknat \<Rightarrow> udp_chknat" where
  "cn_async_resolve_server server_idx s =
     cn_emit [Cn_resolve server_idx] (s\<lparr>cn_resolves := cn_resolves s @ [(server_idx, tracker_get (cn_tracker s))]\<rparr>)"




text \<open>\<open>local_eps\<close> is what \<open>get_local_endpoints_v4\<close> answers for the socket's port.\<close>

definition cn_analyze :: "udp_endpoint list \<Rightarrow> udp_chknat \<Rightarrow> udp_chknat" where
  "cn_analyze local_eps s =
     (let eps = nat_eps (cn_info s);
          is = (\<lambda>t. cn_notify (s\<lparr>cn_info := (cn_info s)\<lparr>nat_type := t\<rparr>\<rparr>))
      in if eps ! 0 = no_endpoint then is Nt_fw_block
         else if eps ! 0 \<in> set local_eps then is Nt_wan
         else if ep_port (eps ! 0) \<noteq> ep_port (eps ! 1) then is Nt_symmetric
         else if eps ! 2 \<noteq> no_endpoint \<and> eps ! 3 \<noteq> no_endpoint then is Nt_full_cone
         else if eps ! 2 = no_endpoint \<and> eps ! 3 = no_endpoint then is Nt_port_restrict_cone
         else is Nt_restrict_cone)"

text \<open>
  What an answer says: the number of the question and the endpoint. The test of the index,
  \<open>idx >= 0 || idx < 4\<close>, is always true.
\<close>

definition cn_answer :: "(u8 list \<Rightarrow> u32 option) \<Rightarrow> u8 list \<Rightarrow> (int \<times> udp_endpoint) option" where
  "cn_answer fs text =
     (case strchr EQUALS text of
        None \<Rightarrow> None
      | Some cp \<Rightarrow>
          let idx = atoi (tl cp)
          in if idx \<ge> 0 \<or> idx < 4
             then (case strchr BAR text of
                     None \<Rightarrow> None
                   | Some cp \<Rightarrow> map_option (\<lambda>ep. (idx, ep)) (parse_endpoint fs (tl cp)))
             else None)"



section \<open>The check as a machine\<close>



section \<open>Where the slots come from\<close>





definition info_good :: "(nat \<Rightarrow> udp_endpoint \<Rightarrow> bool) \<Rightarrow> nat_info \<Rightarrow> bool" where
  "info_good K info \<longleftrightarrow> length (nat_eps info) = 4 \<and> (\<forall>i < 4. nat_eps info ! i = no_endpoint \<or> K i (nat_eps info ! i))"

definition cn_good :: "(nat \<Rightarrow> udp_endpoint \<Rightarrow> bool) \<Rightarrow> udp_chknat \<Rightarrow> bool" where
  "cn_good K s \<longleftrightarrow> info_good K (cn_info s) \<and>
     (\<forall>h e info. Cn_post h e info \<in> set (cn_effects s) \<longrightarrow> info_good K info)"

lemma cn_good_simps [simp]:
  "cn_good K (s\<lparr>cn_last_error := e\<rparr>) = cn_good K s" "cn_good K (s\<lparr>cn_remote_ep := ep\<rparr>) = cn_good K s"
  "cn_good K (s\<lparr>cn_receives := ws\<rparr>) = cn_good K s" "cn_good K (s\<lparr>cn_waits := ws\<rparr>) = cn_good K s"
  "cn_good K (s\<lparr>cn_resolves := vs\<rparr>) = cn_good K s" "cn_good K (s\<lparr>server_eps := eps\<rparr>) = cn_good K s"
  "cn_good K (s\<lparr>cn_tracker := t\<rparr>) = cn_good K s" "cn_good K (s\<lparr>cn_handler := h\<rparr>) = cn_good K s"
  "cn_good K (s\<lparr>cn_socket := b\<rparr>) = cn_good K s" "cn_good K (s\<lparr>resp_bitmap := m\<rparr>) = cn_good K s"
  by (simp_all add: cn_good_def)

lemma info_good_type [simp]: "info_good K (info\<lparr>nat_type := t\<rparr>) = info_good K info"
  by (simp add: info_good_def)

lemma cn_good_type [simp]: "cn_good K (s\<lparr>cn_info := (cn_info s)\<lparr>nat_type := t\<rparr>\<rparr>) = cn_good K s"
  by (simp add: cn_good_def)

lemma cn_good_emit [simp]: "(\<And>h e info. Cn_post h e info \<notin> set es) \<Longrightarrow> cn_good K (cn_emit es s) = cn_good K s"
  by (auto simp: cn_good_def cn_emit_def)

lemma cn_good_cancel [simp]: "cn_good K (cn_cancel s) = cn_good K s"
  by (simp add: cn_cancel_def Let_def)

lemma cn_good_notify [simp]: "cn_good K s \<Longrightarrow> cn_good K (cn_notify s)"
proof -
  assume "cn_good K s"
  then have "cn_good K (cn_cancel s)" by simp
  then show ?thesis unfolding cn_notify_def Let_def by (auto simp: cn_good_def cn_emit_def)
qed

lemma cn_good_async [simp]: "cn_good K (cn_async_receive s) = cn_good K s"
    "cn_good K (cn_async_resolve_server i s) = cn_good K s"
  by (simp_all add: cn_async_receive_def cn_async_resolve_server_def)

lemma cn_good_send [simp]: "cn_good K (cn_send_request s) = cn_good K s"
  unfolding cn_send_request_def Let_def by (subst cn_good_emit) auto

lemma cn_good_analyze [simp]: "cn_good K s \<Longrightarrow> cn_good K (cn_analyze local_eps s)"
  by (simp add: cn_analyze_def Let_def)








text \<open>The answer the source's comment shows, \<open>A=1 | 127.0.0.1: 80\<close>: its only colon ends the address.\<close>

lemma commented_answer:
  "cn_answer fs [65, 61, 49, 32, 124, 32, 49, 50, 55, 46, 48, 46, 48, 46, 49, 58, 32, 56, 48] =
     Some (1, \<lparr>ep_addr = (case fs [56, 48] of None \<Rightarrow> 0 | Some a \<Rightarrow> a), ep_port = 80\<rparr>)"
  by (simp add: cn_answer_def strchr_def c_str_def atoi_def is_space_def is_digit_def digits_value_def udt_const
      parse_endpoint_def str_rfind_def skip_blanks.simps str_substr_def Let_def)

section \<open>Properties\<close>






end
