(* ===== verification/Udt_Mtu.thy ===== *)
theory Udt_Mtu
  imports Udt_Pub_Addr
begin

text \<open>
  \<open>src/udt/udt_mtu.h\<close> and \<open>udt_mtu.cpp\<close>: probing the path MTU with echo requests that may not be
  fragmented. The sizes tried come from a table, or from the hint of a router. The results of
  \<open>send_to\<close> are the operating system's: a parameter.
\<close>

section \<open>The state\<close>

definition PACKET_MAXIMUMS :: "u32 list" where
  "PACKET_MAXIMUMS = [1500, 1492, 1006, 576, 544, 512, 508, 296, 68, 0]"

definition IPHDR_SIZE_BYTE :: nat where [udt_const]: "IPHDR_SIZE_BYTE = 20"
definition MTU_TIMEOUT_MS :: nat where [udt_const]: "MTU_TIMEOUT_MS = 1000"
definition MTU_SEND_COUNT :: nat where [udt_const]: "MTU_SEND_COUNT = 3"
definition ICMP_ECHOREPLY :: nat where [udt_const]: "ICMP_ECHOREPLY = 0"
definition ICMP_UNREACH :: nat where [udt_const]: "ICMP_UNREACH = 3"
definition ICMP_UNREACH_NET :: nat where [udt_const]: "ICMP_UNREACH_NET = 0"
definition ICMP_UNREACH_HOST :: nat where [udt_const]: "ICMP_UNREACH_HOST = 1"
definition ICMP_UNREACH_PROTOCOL :: nat where [udt_const]: "ICMP_UNREACH_PROTOCOL = 2"
definition ICMP_UNREACH_PORT :: nat where [udt_const]: "ICMP_UNREACH_PORT = 3"
definition ICMP_UNREACH_NEEDFRAG :: nat where [udt_const]: "ICMP_UNREACH_NEEDFRAG = 4"
definition ICMP_UNREACH_HOST_UNKNOWN :: nat where [udt_const]: "ICMP_UNREACH_HOST_UNKNOWN = 7"
definition ICMP_ECHO :: u8 where [udt_const]: "ICMP_ECHO = 8"

text \<open>The eight bytes of an \<open>icmp\<close> header with identifier and sequence number.\<close>

definition sizeof_icmp :: nat where [udt_const]: "sizeof_icmp = 8"

definition icmp_mem :: "u8 \<Rightarrow> u8 \<Rightarrow> u16 \<Rightarrow> u16 \<Rightarrow> u16 \<Rightarrow> u8 list" where
  "icmp_mem type code cksum ident sq = [type, code] @ bytes16 cksum @ bytes16 ident @ bytes16 sq"

datatype mtu_effect =
    Mtu_open
  | Mtu_send udp_endpoint "u8 list"
  | Mtu_receive
  | Mtu_expires nat
  | Mtu_cancel_timer
  | Mtu_cancel_socket
  | Mtu_post "handler option" error_code u32

record udt_mtu =
  mtu_handler :: "handler option"
  mtu_remote :: udp_endpoint
  snd_buffer :: "u8 list"
  rcv_buffer :: "u8 list"
  current_mtu_idx :: nat
  mtu_size :: u32
  mtu_hint :: u32
  mtu_open :: bool
  mtu_tracker :: tracker
  mtu_last_error :: error_code
  mtu_receives :: "weak_refer list"
  mtu_waits :: "weak_refer list"
  mtu_effects :: "mtu_effect list"

definition mtu_emit :: "mtu_effect list \<Rightarrow> udt_mtu \<Rightarrow> udt_mtu" where
  "mtu_emit es s = s\<lparr>mtu_effects := mtu_effects s @ es\<rparr>"

definition udt_mtu_init :: udt_mtu where
  "udt_mtu_init = \<lparr>mtu_handler = None, mtu_remote = no_endpoint, snd_buffer = [], rcv_buffer = [],
     current_mtu_idx = 0, mtu_size = 0, mtu_hint = 0, mtu_open = False, mtu_tracker = tracker_init,
     mtu_last_error = no_error, mtu_receives = [], mtu_waits = [], mtu_effects = []\<rparr>"

section \<open>Operations\<close>

definition mtu_init :: "udt_mtu \<Rightarrow> udt_mtu" where
  "mtu_init s =
     (let s = s\<lparr>mtu_hint := 0, mtu_size := 0, current_mtu_idx := 0, mtu_last_error := no_error,
                rcv_buffer := take 2000 (rcv_buffer s) @ replicate (2000 - length (rcv_buffer s)) 0\<rparr>
      in if tracker_is_null (mtu_tracker s) then s\<lparr>mtu_tracker := tracker_set (mtu_tracker s)\<rparr> else s)"

definition mtu_open_socket :: "udt_mtu \<Rightarrow> udt_mtu" where
  "mtu_open_socket s = (if \<not> mtu_open s then mtu_emit [Mtu_open] (s\<lparr>mtu_open := True\<rparr>) else s)"

definition mtu_create :: "udt_mtu \<Rightarrow> udt_mtu" where
  "mtu_create s = mtu_open_socket (mtu_init s)"

definition mtu_cancel :: "udt_mtu \<Rightarrow> udt_mtu" where
  "mtu_cancel s = mtu_emit [Mtu_cancel_timer, Mtu_cancel_socket]
     (s\<lparr>mtu_tracker := tracker_reset (mtu_tracker s), mtu_last_error := udt_error Operation_aborted\<rparr>)"

definition mtu_close :: "udt_mtu \<Rightarrow> udt_mtu" where
  "mtu_close s = (mtu_cancel s)\<lparr>snd_buffer := [], rcv_buffer := []\<rparr>"

definition mtu_notify :: "udt_mtu \<Rightarrow> udt_mtu" where
  "mtu_notify s = (let s = mtu_cancel s in mtu_emit [Mtu_post (mtu_handler s) (mtu_last_error s) (mtu_size s)] s)"

text \<open>
  No result where \<open>resize\<close> throws (a size below that of the IP header wraps) or the header
  does not fit the buffer it is written into.
\<close>

fun first_at_most :: "u32 \<Rightarrow> u32 list \<Rightarrow> nat \<Rightarrow> nat option" where
  "first_at_most hint [] i = None"
| "first_at_most hint (m # ms) i = (if m \<le> hint then Some i else first_at_most hint ms (i + 1))"

definition prepare_data :: "udt_mtu \<Rightarrow> (bool \<times> udt_mtu) option" where
  "prepare_data s =
     (let chosen =
            (if mtu_hint s \<noteq> 0
             then Some (s\<lparr>mtu_size := mtu_hint s, current_mtu_idx :=
                    (case first_at_most (mtu_hint s) PACKET_MAXIMUMS 0 of None \<Rightarrow> current_mtu_idx s | Some i \<Rightarrow> i)\<rparr>)
             else if length PACKET_MAXIMUMS \<le> current_mtu_idx s then None
             else Some (s\<lparr>mtu_size := PACKET_MAXIMUMS ! current_mtu_idx s\<rparr>))
      in case chosen of
           None \<Rightarrow> Some (False, s)
         | Some s \<Rightarrow>
             if unat (mtu_size s) < IPHDR_SIZE_BYTE + sizeof_icmp then None
             else let n = unat (mtu_size s) - IPHDR_SIZE_BYTE;
                      old = take n (snd_buffer s) @ replicate (n - length (snd_buffer s)) 0;
                      cksum = of_bytes16 (old ! 2) (old ! 3);
                      buf = icmp_mem ICMP_ECHO 0 cksum (bswap16 1234) (bswap16 1234) @ drop sizeof_icmp old
                  in Some (True, s\<lparr>snd_buffer := buf, current_mtu_idx := current_mtu_idx s + 1\<rparr>))"

definition mtu_async_recv_reply :: "udt_mtu \<Rightarrow> udt_mtu" where
  "mtu_async_recv_reply s = mtu_emit [Mtu_expires MTU_TIMEOUT_MS, Mtu_receive]
     (s\<lparr>mtu_waits := mtu_waits s @ [tracker_get (mtu_tracker s)],
        mtu_receives := mtu_receives s @ [tracker_get (mtu_tracker s)]\<rparr>)"

text \<open>\<open>ERROR_INVALID_USER_BUFFER\<close> is 1784.\<close>

definition refused :: "error_code \<Rightarrow> bool" where
  "refused e \<longleftrightarrow> ec_value e = Other_error 1784"

text \<open>
  \<open>send_echo\<close>: \<open>sent k\<close> is the error the last of the three sends of round \<open>k\<close> leaves. A loop that
  does not end has no result; a fault is the result \<open>Mtu_faults\<close>.
\<close>

datatype mtu_outcome = Mtu_returns udt_mtu | Mtu_faults

partial_function (option) send_loop :: "(nat \<Rightarrow> error_code) \<Rightarrow> nat \<Rightarrow> udt_mtu \<Rightarrow> mtu_outcome option" where
  "send_loop sent k s =
     (case prepare_data s of
        None \<Rightarrow> Some Mtu_faults
      | Some (prepared, s) \<Rightarrow>
          if \<not> prepared then Some (Mtu_returns (mtu_notify s))
          else let s = mtu_emit (replicate MTU_SEND_COUNT (Mtu_send (mtu_remote s) (snd_buffer s))) s; e = sent k
               in if \<not> is_error e then Some (Mtu_returns (mtu_async_recv_reply s))
                  else if refused e then send_loop sent (k + 1) s
                  else Some (Mtu_returns (mtu_notify (s\<lparr>mtu_last_error := e\<rparr>))))"

definition send_echo :: "(nat \<Rightarrow> error_code) \<Rightarrow> udt_mtu \<Rightarrow> mtu_outcome option" where
  "send_echo sent s = send_loop sent 0 s"

definition async_probe_mtu :: "(nat \<Rightarrow> error_code) \<Rightarrow> udp_endpoint \<Rightarrow> handler \<Rightarrow> udt_mtu \<Rightarrow> mtu_outcome option" where
  "async_probe_mtu sent rep h s = send_echo sent (s\<lparr>mtu_remote := rep, mtu_handler := Some h\<rparr>)"

definition mtu_handle_timeout :: "error_code \<Rightarrow> weak_refer \<Rightarrow> udt_mtu \<Rightarrow> udt_mtu" where
  "mtu_handle_timeout e wref s =
     (if refer_expired (mtu_tracker s) wref then s
      else if e \<noteq> asio_error Operation_aborted
      then mtu_notify (s\<lparr>mtu_last_error := udt_error Timed_out\<rparr>) else s)"

text \<open>The error an unreachable message stands for; \<open>None\<close> leaves the last one.\<close>

definition unreach_error :: "nat \<Rightarrow> error_code option" where
  "unreach_error code =
     (if code = ICMP_UNREACH_NET then Some (asio_error Network_unreachable)
      else if code = ICMP_UNREACH_HOST then Some (asio_error Host_unreachable)
      else if code = ICMP_UNREACH_PROTOCOL then Some (asio_error Not_found)
      else if code = ICMP_UNREACH_PORT then Some (asio_error Host_unreachable)
      else if code = ICMP_UNREACH_HOST_UNKNOWN then None
      else Some (asio_error Timed_out))"

definition mtu_handle_recv ::
  "(nat \<Rightarrow> error_code) \<Rightarrow> error_code \<Rightarrow> u8 list \<Rightarrow> weak_refer \<Rightarrow> udt_mtu \<Rightarrow> mtu_outcome option" where
  "mtu_handle_recv sent e bytes wref s =
     (let bytes = take (length (rcv_buffer s)) bytes;
          bytes_received = length bytes;
          s = s\<lparr>rcv_buffer := bytes @ drop bytes_received (rcv_buffer s)\<rparr>
      in if refer_expired (mtu_tracker s) wref then Some (Mtu_returns s)
         else let s = mtu_emit [Mtu_cancel_timer] s
         in if e = asio_error Operation_aborted then Some (Mtu_returns s)
         else if \<not> is_error e \<and> sizeof_icmp + IPHDR_SIZE_BYTE \<le> bytes_received
         then let ip = drop IPHDR_SIZE_BYTE (rcv_buffer s);
                  icmp_type = unat (ip ! 0);
                  icmp_code = unat (ip ! 1)
              in if icmp_type = ICMP_ECHOREPLY \<and> icmp_code = 0 then Some (Mtu_returns (mtu_notify s))
                 else if icmp_type = ICMP_UNREACH \<and> icmp_code = ICMP_UNREACH_NEEDFRAG
                 then send_echo sent (s\<lparr>mtu_hint := ucast (bswap16 (of_bytes16 (ip ! 6) (ip ! 7)))\<rparr>)
                 else if icmp_type = ICMP_UNREACH
                 then Some (Mtu_returns (mtu_notify
                        (case unreach_error icmp_code of None \<Rightarrow> s | Some err \<Rightarrow> s\<lparr>mtu_last_error := err\<rparr>)))
                 else Some (Mtu_returns (mtu_notify s))
         else if \<not> is_error e \<and> bytes_received < sizeof_icmp
         then Some (Mtu_returns (mtu_notify (s\<lparr>mtu_last_error := asio_error No_buffer_space\<rparr>)))
         else Some (Mtu_returns (mtu_notify s)))"

section \<open>The prober as a machine\<close>

datatype mtu_event =
    Mtu_created
  | Mtu_asked udp_endpoint handler "nat \<Rightarrow> error_code"
  | Mtu_cancelled
  | Mtu_closed
  | Mtu_received nat error_code "u8 list" "nat \<Rightarrow> error_code"
  | Mtu_waited nat error_code

definition mtu_result :: "mtu_outcome option \<Rightarrow> udt_mtu option" where
  "mtu_result r = (case r of Some (Mtu_returns t) \<Rightarrow> Some t | _ \<Rightarrow> None)"

fun mtu_step :: "udt_mtu \<Rightarrow> mtu_event \<Rightarrow> udt_mtu option" where
  "mtu_step s Mtu_created = Some (mtu_create s)"
| "mtu_step s (Mtu_asked rep h sent) = mtu_result (async_probe_mtu sent rep h s)"
| "mtu_step s Mtu_cancelled = Some (mtu_cancel s)"
| "mtu_step s Mtu_closed = Some (mtu_close s)"
| "mtu_step s (Mtu_received n e bytes sent) =
     (if n < length (mtu_receives s)
      then mtu_result (mtu_handle_recv sent e bytes (mtu_receives s ! n) (s\<lparr>mtu_receives := drop_owed n (mtu_receives s)\<rparr>))
      else None)"
| "mtu_step s (Mtu_waited n e) =
     (if n < length (mtu_waits s)
      then Some (mtu_handle_timeout e (mtu_waits s ! n) (s\<lparr>mtu_waits := drop_owed n (mtu_waits s)\<rparr>))
      else None)"

section \<open>The loop over the table\<close>

lemma prepare_data_table:
  assumes "mtu_hint s = 0" "current_mtu_idx s < 9"
  shows "\<exists>buf. prepare_data s = Some (True, s\<lparr>mtu_size := PACKET_MAXIMUMS ! current_mtu_idx s, snd_buffer := buf,
    current_mtu_idx := current_mtu_idx s + 1\<rparr>) \<and> length buf = unat (PACKET_MAXIMUMS ! current_mtu_idx s) - IPHDR_SIZE_BYTE"
proof -
  have l: "length PACKET_MAXIMUMS = 10" by (simp add: PACKET_MAXIMUMS_def)
  have "list_all (\<lambda>m. 28 \<le> unat m) (take 9 PACKET_MAXIMUMS)" by (simp add: PACKET_MAXIMUMS_def)
  moreover have "current_mtu_idx s < length (take 9 PACKET_MAXIMUMS)" using assms(2) l by simp
  ultimately have "28 \<le> unat (take 9 PACKET_MAXIMUMS ! current_mtu_idx s)" unfolding list_all_length by blast
  then have "28 \<le> unat (PACKET_MAXIMUMS ! current_mtu_idx s)" using assms(2) by simp
  with l show ?thesis
    using assms by (auto simp: prepare_data_def Let_def udt_const icmp_mem_def)
qed

lemma prepare_data_marker: "mtu_hint s = 0 \<Longrightarrow> current_mtu_idx s = 9 \<Longrightarrow> prepare_data s = None"
  by (simp add: prepare_data_def Let_def PACKET_MAXIMUMS_def udt_const)

text \<open>
  From index \<open>i\<close> on, the first size that is not refused decides; when all are, the end marker
  of the table is taken for a size.
\<close>

lemma send_loop_table:
  assumes "mtu_hint s = 0" "current_mtu_idx s = i" "i + d = 9" "k = i"
  shows "(\<exists>n t. i \<le> n \<and> n < 9 \<and> (\<forall>j. i \<le> j \<and> j < n \<longrightarrow> refused (sent j)) \<and> \<not> refused (sent n) \<and>
       send_loop sent k s = Some (Mtu_returns t) \<and> mtu_size t = PACKET_MAXIMUMS ! n) \<or>
     (\<forall>j. i \<le> j \<and> j < 9 \<longrightarrow> refused (sent j)) \<and> send_loop sent k s = Some Mtu_faults"
  using assms
proof (induction d arbitrary: i k s)
  case 0
  then have "send_loop sent k s = Some Mtu_faults"
    by (subst send_loop.simps) (simp add: prepare_data_marker)
  with 0 show ?case by auto
next
  case (Suc d)
  then have i: "current_mtu_idx s < 9" by simp
  obtain buf where p: "prepare_data s = Some (True, s\<lparr>mtu_size := PACKET_MAXIMUMS ! i, snd_buffer := buf, current_mtu_idx := i + 1\<rparr>)"
    using prepare_data_table [OF Suc.prems(1) i] Suc.prems(2) by auto
  let ?s = "s\<lparr>mtu_size := PACKET_MAXIMUMS ! i, snd_buffer := buf, current_mtu_idx := i + 1\<rparr>"
  let ?u = "mtu_emit (replicate MTU_SEND_COUNT (Mtu_send (mtu_remote ?s) (snd_buffer ?s))) ?s"
  have size: "mtu_size (mtu_async_recv_reply ?u) = PACKET_MAXIMUMS ! i"
    "mtu_size (mtu_notify (?u\<lparr>mtu_last_error := e\<rparr>)) = PACKET_MAXIMUMS ! i" for e
    by (simp_all add: mtu_async_recv_reply_def mtu_notify_def mtu_cancel_def mtu_emit_def Let_def)
  show ?case
  proof (cases "refused (sent i)")
    case True
    then have "is_error (sent i)" by (auto simp: refused_def is_error_def)
    with True p Suc.prems(4) have loop: "send_loop sent k s = send_loop sent (k + 1) ?u"
      by (subst send_loop.simps) (simp add: Let_def)
    have "mtu_hint ?u = 0" "current_mtu_idx ?u = i + 1" "i + 1 + d = 9" "k + 1 = i + 1"
      using Suc.prems by (simp_all add: mtu_emit_def)
    from Suc.IH [OF this] show ?thesis unfolding loop
    proof (elim disjE exE conjE)
      fix n t
      assume n: "i + 1 \<le> n" "n < 9" "\<forall>j. i + 1 \<le> j \<and> j < n \<longrightarrow> refused (sent j)" "\<not> refused (sent n)"
        "send_loop sent (k + 1) ?u = Some (Mtu_returns t)" "mtu_size t = PACKET_MAXIMUMS ! n"
      have "\<forall>j. i \<le> j \<and> j < n \<longrightarrow> refused (sent j)" using n(3) True by (metis Suc_eq_plus1 le_SucE le_antisym not_less_eq_eq)
      with n show "(\<exists>n t. i \<le> n \<and> n < 9 \<and> (\<forall>j. i \<le> j \<and> j < n \<longrightarrow> refused (sent j)) \<and> \<not> refused (sent n) \<and>
          send_loop sent (k + 1) ?u = Some (Mtu_returns t) \<and> mtu_size t = PACKET_MAXIMUMS ! n) \<or>
        (\<forall>j. i \<le> j \<and> j < 9 \<longrightarrow> refused (sent j)) \<and> send_loop sent (k + 1) ?u = Some Mtu_faults"
        by (intro disjI1 exI [of _ n] exI [of _ t]) simp
    next
      assume n: "\<forall>j. i + 1 \<le> j \<and> j < 9 \<longrightarrow> refused (sent j)" "send_loop sent (k + 1) ?u = Some Mtu_faults"
      have "\<forall>j. i \<le> j \<and> j < 9 \<longrightarrow> refused (sent j)" using n(1) True by (metis Suc_eq_plus1 le_SucE le_antisym not_less_eq_eq)
      with n(2) show "(\<exists>n t. i \<le> n \<and> n < 9 \<and> (\<forall>j. i \<le> j \<and> j < n \<longrightarrow> refused (sent j)) \<and> \<not> refused (sent n) \<and>
          send_loop sent (k + 1) ?u = Some (Mtu_returns t) \<and> mtu_size t = PACKET_MAXIMUMS ! n) \<or>
        (\<forall>j. i \<le> j \<and> j < 9 \<longrightarrow> refused (sent j)) \<and> send_loop sent (k + 1) ?u = Some Mtu_faults" by blast
    qed
  next
    case False
    have "\<exists>t. send_loop sent k s = Some (Mtu_returns t) \<and> mtu_size t = PACKET_MAXIMUMS ! i"
    proof (cases "is_error (sent i)")
      case True
      with False p Suc.prems(4) size(2) [of "sent i"] show ?thesis by (subst send_loop.simps) (simp add: Let_def)
    next
      case no: False
      with p Suc.prems(4) size(1) show ?thesis by (subst send_loop.simps) (simp add: Let_def)
    qed
    with False Suc.prems(3) show ?thesis by (intro disjI1 exI [of _ i]) auto
  qed
qed

text \<open>With a hint the size does not change from round to round.\<close>

lemma prepare_data_hint:
  assumes "IPHDR_SIZE_BYTE + sizeof_icmp \<le> unat (mtu_hint s)"
  shows "\<exists>buf i. prepare_data s = Some (True, s\<lparr>mtu_size := mtu_hint s, snd_buffer := buf, current_mtu_idx := i\<rparr>)"
proof -
  have "mtu_hint s \<noteq> 0" using assms by (auto simp: udt_const)
  then show ?thesis using assms by (auto simp: prepare_data_def Let_def)
qed

text \<open>A size that came from a hint and is refused for ever is tried for ever.\<close>

lemma send_loop_stuck:
  assumes "\<And>k. refused (sent k)"
  shows "IPHDR_SIZE_BYTE + sizeof_icmp \<le> unat (mtu_hint s) \<Longrightarrow> send_loop sent k s = None"
proof -
  have "f = sent \<longrightarrow> unat (mtu_hint s) < IPHDR_SIZE_BYTE + sizeof_icmp" if "send_loop f k s = Some r" for f k s r
  proof (rule send_loop.raw_induct [where P = "\<lambda>f k s r. f = sent \<longrightarrow> unat (mtu_hint s) < IPHDR_SIZE_BYTE + sizeof_icmp", OF _ that],
      goal_cases)
    case (1 loop f k s r)
    show ?case
    proof (intro impI, rule ccontr)
      assume f: "f = sent" and "\<not> unat (mtu_hint s) < IPHDR_SIZE_BYTE + sizeof_icmp"
      then have h: "IPHDR_SIZE_BYTE + sizeof_icmp \<le> unat (mtu_hint s)" by simp
      obtain buf i where p: "prepare_data s = Some (True, s\<lparr>mtu_size := mtu_hint s, snd_buffer := buf, current_mtu_idx := i\<rparr>)"
        using prepare_data_hint [OF h] by blast
      have "is_error (sent k)" using assms [of k] by (auto simp: refused_def is_error_def)
      with 1(2) f p assms [of k] obtain u where u: "loop f (k + 1) u = Some r" "mtu_hint u = mtu_hint s"
        by (simp add: Let_def mtu_emit_def)
      from 1(1) [OF u(1)] f h u(2) show False by simp
    qed
  qed
  then show "IPHDR_SIZE_BYTE + sizeof_icmp \<le> unat (mtu_hint s) \<Longrightarrow> send_loop sent k s = None"
    by (cases "send_loop sent k s") force+
qed

section \<open>What the handler is told\<close>

definition mtu_told_aborted :: "udt_mtu \<Rightarrow> bool" where
  "mtu_told_aborted s \<longleftrightarrow> (\<forall>h e m. Mtu_post h e m \<in> set (mtu_effects s) \<longrightarrow> e = udt_error Operation_aborted)"

lemma mtu_told_emit: "mtu_told_aborted s \<Longrightarrow> (\<And>h e m. Mtu_post h e m \<notin> set es) \<Longrightarrow> mtu_told_aborted (mtu_emit es s)"
  by (auto simp: mtu_told_aborted_def mtu_emit_def)

lemma mtu_told_frame:
  "mtu_told_aborted s \<Longrightarrow> mtu_effects t = mtu_effects s \<Longrightarrow> mtu_told_aborted t"
  by (simp add: mtu_told_aborted_def)

lemma mtu_told_cancel: "mtu_told_aborted s \<Longrightarrow> mtu_told_aborted (mtu_cancel s)"
  unfolding mtu_cancel_def by (rule mtu_told_emit) (auto elim: mtu_told_frame)

lemma mtu_told_notify: "mtu_told_aborted s \<Longrightarrow> mtu_told_aborted (mtu_notify s)"
  using mtu_told_cancel [of s] by (auto simp: mtu_told_aborted_def mtu_notify_def mtu_emit_def mtu_cancel_def Let_def)

lemma mtu_told_recv_reply: "mtu_told_aborted s \<Longrightarrow> mtu_told_aborted (mtu_async_recv_reply s)"
  unfolding mtu_async_recv_reply_def by (rule mtu_told_emit) (auto elim: mtu_told_frame)

lemma prepare_data_effects: "prepare_data s = Some (b, t) \<Longrightarrow> mtu_effects t = mtu_effects s"
  by (auto simp: prepare_data_def Let_def split: if_splits option.splits)

lemma mtu_told_loop: "send_loop sent k s = Some r \<Longrightarrow> mtu_told_aborted s \<Longrightarrow> r = Mtu_returns t \<Longrightarrow> mtu_told_aborted t"
proof -
  have "mtu_told_aborted s \<longrightarrow> (\<forall>t. r = Mtu_returns t \<longrightarrow> mtu_told_aborted t)" if "send_loop sent k s = Some r" for r
  proof (rule send_loop.raw_induct [where P = "\<lambda>sent k s r. mtu_told_aborted s \<longrightarrow> (\<forall>t. r = Mtu_returns t \<longrightarrow> mtu_told_aborted t)", OF _ that],
      goal_cases)
    case (1 loop sent k s r)
    show ?case
    proof (intro impI allI)
      fix t
      assume told: "mtu_told_aborted s" and r: "r = Mtu_returns t"
      from 1(2) r obtain b u where p: "prepare_data s = Some (b, u)" by (auto split: option.splits)
      note u = mtu_told_frame [OF told prepare_data_effects [OF p]]
      let ?v = "mtu_emit (replicate MTU_SEND_COUNT (Mtu_send (mtu_remote u) (snd_buffer u))) u"
      have v: "mtu_told_aborted ?v" using u by (rule mtu_told_emit) auto
      have n: "mtu_told_aborted (mtu_notify (?v\<lparr>mtu_last_error := e\<rparr>))" for e
        by (rule mtu_told_notify, rule mtu_told_frame [OF v]) simp
      show "mtu_told_aborted t"
      proof (cases b)
        case False
        with 1(2) p r mtu_told_notify [OF u] show ?thesis by simp
      next
        case b: True
        show ?thesis
        proof (cases "is_error (sent k) \<and> refused (sent k)")
          case True
          with 1(2) p b have "loop sent (k + 1) ?v = Some r" by (simp add: Let_def)
          from 1(1) [OF this] v r show ?thesis by blast
        next
          case False
          with 1(2) p b r have "t = mtu_async_recv_reply ?v \<or> t = mtu_notify (?v\<lparr>mtu_last_error := sent k\<rparr>)"
            by (simp add: Let_def split: if_splits)
          with v n mtu_told_recv_reply show ?thesis by blast
        qed
      qed
    qed
  qed
  then show "send_loop sent k s = Some r \<Longrightarrow> mtu_told_aborted s \<Longrightarrow> r = Mtu_returns t \<Longrightarrow> mtu_told_aborted t" by blast
qed

lemma mtu_told_echo: "mtu_result (send_echo sent s) = Some t \<Longrightarrow> mtu_told_aborted s \<Longrightarrow> mtu_told_aborted t"
  by (auto simp: send_echo_def mtu_result_def intro: mtu_told_loop split: option.splits mtu_outcome.splits)

lemma mtu_told_update [simp]:
  "mtu_told_aborted (s\<lparr>mtu_hint := h\<rparr>) = mtu_told_aborted s" "mtu_told_aborted (s\<lparr>rcv_buffer := b\<rparr>) = mtu_told_aborted s"
  "mtu_told_aborted (s\<lparr>mtu_last_error := e\<rparr>) = mtu_told_aborted s" "mtu_told_aborted (s\<lparr>mtu_receives := ws\<rparr>) = mtu_told_aborted s"
  "mtu_told_aborted (s\<lparr>mtu_waits := ws\<rparr>) = mtu_told_aborted s" "mtu_told_aborted (s\<lparr>mtu_remote := ep\<rparr>) = mtu_told_aborted s"
  "mtu_told_aborted (s\<lparr>mtu_handler := g\<rparr>) = mtu_told_aborted s" "mtu_told_aborted (s\<lparr>snd_buffer := b\<rparr>) = mtu_told_aborted s"
  "mtu_told_aborted (s\<lparr>mtu_tracker := t\<rparr>) = mtu_told_aborted s" "mtu_told_aborted (s\<lparr>mtu_size := m\<rparr>) = mtu_told_aborted s"
  "mtu_told_aborted (s\<lparr>current_mtu_idx := i\<rparr>) = mtu_told_aborted s" "mtu_told_aborted (s\<lparr>mtu_open := b'\<rparr>) = mtu_told_aborted s"
  by (simp_all add: mtu_told_aborted_def)

lemma mtu_told_recv:
  assumes s: "mtu_told_aborted s" and r: "mtu_result (mtu_handle_recv sent e bytes w s) = Some t"
  shows "mtu_told_aborted t"
proof -
  let ?n = "length (take (length (rcv_buffer s)) bytes)"
  let ?u = "mtu_emit [Mtu_cancel_timer] (s\<lparr>rcv_buffer := take (length (rcv_buffer s)) bytes @ drop ?n (rcv_buffer s)\<rparr>)"
  have u: "mtu_told_aborted ?u" using s by (intro mtu_told_emit) simp_all
  have n: "mtu_told_aborted (mtu_notify (?u\<lparr>mtu_last_error := err\<rparr>))" "mtu_told_aborted (mtu_notify ?u)" for err
    using u by (simp_all add: mtu_told_notify)
  have o: "mtu_told_aborted (mtu_notify (case x of None \<Rightarrow> ?u | Some err \<Rightarrow> ?u\<lparr>mtu_last_error := err\<rparr>))" for x
    using n by (cases x) simp_all
  have e: "mtu_told_aborted t" if "mtu_result (send_echo sent (?u\<lparr>mtu_hint := h\<rparr>)) = Some t" for h
    using mtu_told_echo [OF that] u by simp
  show ?thesis
    using r s u n o e unfolding mtu_handle_recv_def Let_def
    by (auto simp: mtu_result_def simp del: length_take split: if_splits)
qed

lemma mtu_told_step: "mtu_told_aborted s \<Longrightarrow> mtu_step s e = Some t \<Longrightarrow> mtu_told_aborted t"
proof (cases e)
  case Mtu_created
  assume "mtu_told_aborted s" "mtu_step s e = Some t"
  with Mtu_created show ?thesis
    by (auto simp: mtu_create_def mtu_open_socket_def mtu_init_def Let_def intro!: mtu_told_emit)
next
  case (Mtu_asked rep h sent)
  assume "mtu_told_aborted s" "mtu_step s e = Some t"
  with Mtu_asked show ?thesis by (auto simp: async_probe_mtu_def intro: mtu_told_echo)
next
  case (Mtu_received n ec bytes sent)
  assume "mtu_told_aborted s" "mtu_step s e = Some t"
  with Mtu_received show ?thesis by (auto intro: mtu_told_recv [rotated] split: if_splits)
next
  case (Mtu_waited n ec)
  assume "mtu_told_aborted s" "mtu_step s e = Some t"
  with Mtu_waited show ?thesis by (auto simp: mtu_handle_timeout_def mtu_told_notify split: if_splits)
qed (auto simp: mtu_close_def mtu_told_cancel)

interpretation prober: machine "\<lambda>s. s = udt_mtu_init" mtu_step mtu_told_aborted
proof
  show "s = udt_mtu_init \<Longrightarrow> mtu_told_aborted s" for s by (simp add: udt_mtu_init_def mtu_told_aborted_def)
qed (rule mtu_told_step)

lemma mtu_create_fields: "mtu_hint (mtu_create s) = 0" "current_mtu_idx (mtu_create s) = 0"
  by (simp_all add: mtu_create_def mtu_open_socket_def mtu_init_def mtu_emit_def Let_def)

section \<open>Properties\<close>

text \<open>C31. A probe started on a created prober always ends, after at most nine sizes: either
  the first size the system does not refuse is the one in effect, or all nine are refused and
  the end marker of the table is taken for a size, which throws out of \<open>std::string::resize\<close>.\<close>

theorem mtu_probe_ends:
  "(\<exists>n t. n < 9 \<and> list_all (\<lambda>j. refused (sent j)) [0..<n] \<and> \<not> refused (sent n) \<and>
      async_probe_mtu sent rep h (mtu_create s) = Some (Mtu_returns t) \<and> mtu_size t = PACKET_MAXIMUMS ! n) \<or>
   (list_all (\<lambda>j. refused (sent j)) [0..<9] \<and> async_probe_mtu sent rep h (mtu_create s) = Some Mtu_faults)"
proof -
  have upt: "list_all (\<lambda>j. refused (sent j)) [0..<n] \<longleftrightarrow> (\<forall>j. 0 \<le> j \<and> j < n \<longrightarrow> refused (sent j))" for n
    by (auto simp: list_all_iff)
  have "mtu_hint ((mtu_create s)\<lparr>mtu_remote := rep, mtu_handler := Some h\<rparr>) = 0"
    "current_mtu_idx ((mtu_create s)\<lparr>mtu_remote := rep, mtu_handler := Some h\<rparr>) = 0"
    by (simp_all add: mtu_create_fields)
  from send_loop_table [OF this add_0 refl, of sent] show ?thesis
    unfolding upt async_probe_mtu_def send_echo_def by blast
qed

text \<open>C32. Whatever happens, the handler is told \<open>operation_aborted\<close>: \<open>notify\<close> cancels first,
  and cancelling overwrites the result it is about to report.\<close>

theorem mtu_result_lost:
  assumes "run mtu_step udt_mtu_init es = Some s" and "Mtu_post h e m \<in> set (mtu_effects s)"
  shows "e = udt_error Operation_aborted"
  using prober.run_inv [OF refl assms(1)] assms(2) by (auto simp: mtu_told_aborted_def)

theorem mtu_result_lost_witness:
  "\<exists>s e. run mtu_step udt_mtu_init [Mtu_created, Mtu_asked no_endpoint 7 (\<lambda>_. asio_error Timed_out)] = Some s \<and>
     Mtu_post (Some 7) e 1500 \<in> set (mtu_effects s) \<and> e = udt_error Operation_aborted"
proof -
  let ?es = "[Mtu_created, Mtu_asked no_endpoint 7 (\<lambda>_. asio_error Timed_out)]"
  let ?s = "(mtu_create udt_mtu_init)\<lparr>mtu_remote := no_endpoint, mtu_handler := Some 7\<rparr>"
  have i: "mtu_hint ?s = 0" "current_mtu_idx ?s < 9" by (simp_all add: mtu_create_fields)
  obtain buf where "prepare_data ?s = Some (True, ?s\<lparr>mtu_size := 1500, snd_buffer := buf, current_mtu_idx := 1\<rparr>)"
    using prepare_data_table [OF i] by (auto simp: mtu_create_fields PACKET_MAXIMUMS_def)
  then have "\<exists>u. async_probe_mtu (\<lambda>_. asio_error Timed_out) no_endpoint 7 (mtu_create udt_mtu_init) = Some (Mtu_returns (mtu_notify u)) \<and>
      mtu_handler u = Some 7 \<and> mtu_size u = 1500"
    unfolding async_probe_mtu_def send_echo_def
    by (subst send_loop.simps)
      (simp add: Let_def refused_def asio_error_def is_error_def mtu_emit_def, intro exI conjI, rule refl, simp_all)
  then obtain u where u: "async_probe_mtu (\<lambda>_. asio_error Timed_out) no_endpoint 7 (mtu_create udt_mtu_init) =
      Some (Mtu_returns (mtu_notify u))" "mtu_handler u = Some 7" "mtu_size u = 1500" by blast
  have s: "run mtu_step udt_mtu_init ?es = Some (mtu_notify u)" using u(1) by (simp add: mtu_result_def)
  obtain e where e: "Mtu_post (Some 7) e 1500 \<in> set (mtu_effects (mtu_notify u))"
    using u(2,3) by (simp add: mtu_notify_def mtu_cancel_def mtu_emit_def Let_def) blast
  from mtu_result_lost [OF s e] s e show ?thesis by blast
qed

end
