(* ===== verification/Udt_Singleton.thy ===== *)
theory Udt_Singleton
  imports Udt_Prelude
begin

text \<open>
  \<open>src/udt/singleton.h\<close>: the engine's instance, made on demand by any number of threads. Each
  thread runs \<open>get_instance\<close> one memory access at a time; the accesses of the threads interleave
  in any order. Objects are known by the number \<open>new\<close> gave them.
\<close>

section \<open>The threads\<close>

text \<open>
  The places a call of \<open>get_instance\<close> can be at: before reading \<open>s_instance\<close>; about to make an
  object; about to exchange it; about to delete it; about to read the result; done with it.
\<close>

datatype get_pc =
    Capture
  | Make
  | Exchange nat
  | Discard nat
  | Fetch
  | Got "nat option"

record singleton =
  s_instance :: "nat option"
  made :: nat
  live :: "nat set"
  threads :: "nat \<Rightarrow> get_pc"

definition singleton_init :: singleton where
  "singleton_init = \<lparr>s_instance = None, made = 0, live = {}, threads = (\<lambda>_. Capture)\<rparr>"

definition at_pc :: "nat \<Rightarrow> get_pc \<Rightarrow> singleton \<Rightarrow> singleton" where
  "at_pc i pc s = s\<lparr>threads := (threads s)(i := pc)\<rparr>"

text \<open>One access of thread \<open>i\<close>.\<close>

definition get_instance :: "nat \<Rightarrow> singleton \<Rightarrow> singleton" where
  "get_instance i s =
     (case threads s i of
        Capture \<Rightarrow> at_pc i (case s_instance s of None \<Rightarrow> Make | Some _ \<Rightarrow> Fetch) s
      | Make \<Rightarrow> at_pc i (Exchange (made s)) (s\<lparr>live := insert (made s) (live s), made := made s + 1\<rparr>)
      | Exchange n \<Rightarrow>
          (case s_instance s of
             None \<Rightarrow> at_pc i Fetch (s\<lparr>s_instance := Some n\<rparr>)
           | Some _ \<Rightarrow> at_pc i (Discard n) s)
      | Discard n \<Rightarrow> at_pc i Fetch (s\<lparr>live := live s - {n}\<rparr>)
      | Fetch \<Rightarrow> at_pc i (Got (s_instance s)) s
      | Got r \<Rightarrow> s)"

section \<open>The invariant\<close>

text \<open>The object a thread still owns: made, and neither published nor deleted.\<close>

fun owned :: "get_pc \<Rightarrow> nat option" where
  "owned (Exchange n) = Some n"
| "owned (Discard n) = Some n"
| "owned _ = None"

fun past_exchange :: "get_pc \<Rightarrow> bool" where
  "past_exchange (Discard n) = True"
| "past_exchange Fetch = True"
| "past_exchange (Got r) = True"
| "past_exchange _ = False"

definition singleton_ok :: "singleton \<Rightarrow> bool" where
  "singleton_ok s \<longleftrightarrow>
     (\<forall>n \<in> live s. n < made s) \<and>
     (\<forall>m. s_instance s = Some m \<longrightarrow> m \<in> live s) \<and>
     (\<forall>i n. owned (threads s i) = Some n \<longrightarrow> n \<in> live s \<and> s_instance s \<noteq> Some n) \<and>
     (\<forall>i j n. owned (threads s i) = Some n \<longrightarrow> owned (threads s j) = Some n \<longrightarrow> i = j) \<and>
     (\<forall>n \<in> live s. s_instance s = Some n \<or> (\<exists>i. owned (threads s i) = Some n)) \<and>
     (\<forall>i. past_exchange (threads s i) \<longrightarrow> s_instance s \<noteq> None) \<and>
     (\<forall>i r. threads s i = Got r \<longrightarrow> r = s_instance s)"

lemma singleton_ok_init: "singleton_ok singleton_init"
  by (simp add: singleton_ok_def singleton_init_def)

lemma at_pc_simps [simp]:
  "s_instance (at_pc i pc s) = s_instance s" "made (at_pc i pc s) = made s" "live (at_pc i pc s) = live s"
  "threads (at_pc i pc s) = (threads s)(i := pc)"
  by (simp_all add: at_pc_def)

lemma singleton_okI:
  assumes "\<And>n. n \<in> live s \<Longrightarrow> n < made s" "\<And>m. s_instance s = Some m \<Longrightarrow> m \<in> live s"
    and "\<And>i n. owned (threads s i) = Some n \<Longrightarrow> n \<in> live s" "\<And>i n. owned (threads s i) = Some n \<Longrightarrow> s_instance s \<noteq> Some n"
    and "\<And>i j n. owned (threads s i) = Some n \<Longrightarrow> owned (threads s j) = Some n \<Longrightarrow> i = j"
    and "\<And>n. n \<in> live s \<Longrightarrow> s_instance s = Some n \<or> (\<exists>i. owned (threads s i) = Some n)"
    and "\<And>i. past_exchange (threads s i) \<Longrightarrow> s_instance s \<noteq> None" "\<And>i r. threads s i = Got r \<Longrightarrow> r = s_instance s"
  shows "singleton_ok s"
  unfolding singleton_ok_def
  by (intro conjI allI ballI impI) (fact assms | erule assms | (rule assms, assumption, assumption))+

lemma singleton_okD:
  assumes "singleton_ok s"
  shows "n \<in> live s \<Longrightarrow> n < made s" "s_instance s = Some m \<Longrightarrow> m \<in> live s"
    "owned (threads s i) = Some n \<Longrightarrow> n \<in> live s" "owned (threads s i) = Some n \<Longrightarrow> s_instance s \<noteq> Some n"
    "owned (threads s i) = Some n \<Longrightarrow> owned (threads s j) = Some n \<Longrightarrow> i = j"
    "n \<in> live s \<Longrightarrow> s_instance s = Some n \<or> (\<exists>i. owned (threads s i) = Some n)"
    "past_exchange (threads s i) \<Longrightarrow> s_instance s \<noteq> None" "threads s i = Got r \<Longrightarrow> r = s_instance s"
  using assms unfolding singleton_ok_def by blast+

text \<open>A step that changes only the place of a thread and not what it owns.\<close>

lemma singleton_ok_move:
  assumes ok: "singleton_ok s" and o: "owned (threads s i) = owned pc" and x: "past_exchange pc \<Longrightarrow> s_instance s \<noteq> None"
    and r: "\<And>r. pc = Got r \<Longrightarrow> r = s_instance s"
  shows "singleton_ok (at_pc i pc s)"
proof -
  have own: "owned (threads (at_pc i pc s) j) = owned (threads s j)" for j using o by simp
  note d = singleton_okD [OF ok]
  show ?thesis
  proof (rule singleton_okI, unfold own at_pc_simps(1-3))
    show "past_exchange (threads (at_pc i pc s) j) \<Longrightarrow> s_instance s \<noteq> None" for j
      using x d(7) by (cases "j = i") auto
    show "threads (at_pc i pc s) j = Got q \<Longrightarrow> q = s_instance s" for j q using r d(8) by (cases "j = i") auto
  qed (use d in blast)+
qed

lemma singleton_ok_make:
  assumes ok: "singleton_ok s" and i: "threads s i = Make"
  shows "singleton_ok (at_pc i (Exchange (made s)) (s\<lparr>live := insert (made s) (live s), made := made s + 1\<rparr>))"
    (is "singleton_ok ?t")
proof -
  note d = singleton_okD [OF ok]
  have own: "owned (threads ?t j) = (if j = i then Some (made s) else owned (threads s j))" for j by simp
  have new: "made s \<notin> live s" using d(1) by blast
  show ?thesis
  proof (rule singleton_okI, unfold own)
    show "n \<in> live ?t \<Longrightarrow> n < made ?t" for n using d(1) [of n] by auto
    show "s_instance ?t = Some m \<Longrightarrow> m \<in> live ?t" for m using d(2) by auto
    show "(if j = i then Some (made s) else owned (threads s j)) = Some n \<Longrightarrow> n \<in> live ?t" for j n
      using d(3) by (auto split: if_splits)
    show "(if j = i then Some (made s) else owned (threads s j)) = Some n \<Longrightarrow> s_instance ?t \<noteq> Some n" for j n
      using d(2,4) new by (auto split: if_splits)
    show "(if j = i then Some (made s) else owned (threads s j)) = Some n \<Longrightarrow>
        (if k = i then Some (made s) else owned (threads s k)) = Some n \<Longrightarrow> j = k" for j k n
      using d(3) [of j n] d(3) [of k n] d(5) [of j n k] new by (auto split: if_splits)
    show "n \<in> live ?t \<Longrightarrow> s_instance ?t = Some n \<or> (\<exists>j. (if j = i then Some (made s) else owned (threads s j)) = Some n)" for n
    proof -
      assume "n \<in> live ?t"
      then consider "n = made s" | "s_instance s = Some n" | j where "owned (threads s j) = Some n" using d(6) [of n] by auto
      then show ?thesis
      proof cases
        case 3
        then have "j \<noteq> i" using i by auto
        with 3 show ?thesis by auto
      qed auto
    qed
    show "past_exchange (threads ?t j) \<Longrightarrow> s_instance ?t \<noteq> None" for j using d(7) by (cases "j = i") auto
    show "threads ?t j = Got q \<Longrightarrow> q = s_instance ?t" for j q using d(8) by (cases "j = i") auto
  qed
qed

lemma singleton_ok_publish:
  assumes ok: "singleton_ok s" and i: "threads s i = Exchange n" and none: "s_instance s = None"
  shows "singleton_ok (at_pc i Fetch (s\<lparr>s_instance := Some n\<rparr>))" (is "singleton_ok ?t")
proof -
  note d = singleton_okD [OF ok]
  have own: "owned (threads ?t j) = (if j = i then None else owned (threads s j))" for j by simp
  have mine: "owned (threads s i) = Some n" using i by simp
  have not_got: "\<not> past_exchange (threads s j)" for j using d(7) none by blast
  show ?thesis
  proof (rule singleton_okI, unfold own)
    show "m \<in> live ?t \<Longrightarrow> m < made ?t" for m using d(1) by simp
    show "s_instance ?t = Some m \<Longrightarrow> m \<in> live ?t" for m using d(3) [OF mine] by simp
    show "(if j = i then None else owned (threads s j)) = Some m \<Longrightarrow> m \<in> live ?t" for j m
      using d(3) by (auto split: if_splits)
    show "(if j = i then None else owned (threads s j)) = Some m \<Longrightarrow> s_instance ?t \<noteq> Some m" for j m
      using d(5) [OF mine, of j] by (auto split: if_splits)
    show "(if j = i then None else owned (threads s j)) = Some m \<Longrightarrow>
        (if k = i then None else owned (threads s k)) = Some m \<Longrightarrow> j = k" for j k m
      using d(5) [of j m k] by (auto split: if_splits)
    show "m \<in> live ?t \<Longrightarrow> s_instance ?t = Some m \<or> (\<exists>j. (if j = i then None else owned (threads s j)) = Some m)" for m
    proof -
      assume m: "m \<in> live ?t"
      then obtain j where j: "owned (threads s j) = Some m" using d(6) [of m] none by auto
      show ?thesis using j mine by (cases "j = i") auto
    qed
    show "past_exchange (threads ?t j) \<Longrightarrow> s_instance ?t \<noteq> None" for j by simp
    show "threads ?t j = Got q \<Longrightarrow> q = s_instance ?t" for j q using not_got [of j] by (cases "j = i") auto
  qed
qed

lemma singleton_ok_discard:
  assumes ok: "singleton_ok s" and i: "threads s i = Discard n"
  shows "singleton_ok (at_pc i Fetch (s\<lparr>live := live s - {n}\<rparr>))" (is "singleton_ok ?t")
proof -
  note d = singleton_okD [OF ok]
  have own: "owned (threads ?t j) = (if j = i then None else owned (threads s j))" for j by simp
  have mine: "owned (threads s i) = Some n" using i by simp
  show ?thesis
  proof (rule singleton_okI, unfold own)
    show "m \<in> live ?t \<Longrightarrow> m < made ?t" for m using d(1) by simp
    show "s_instance ?t = Some m \<Longrightarrow> m \<in> live ?t" for m using d(2) d(4) [OF mine] by auto
    show "(if j = i then None else owned (threads s j)) = Some m \<Longrightarrow> m \<in> live ?t" for j m
      using d(3) [of j m] d(5) [OF mine, of j] by (auto split: if_splits)
    show "(if j = i then None else owned (threads s j)) = Some m \<Longrightarrow> s_instance ?t \<noteq> Some m" for j m
      using d(4) by (auto split: if_splits)
    show "(if j = i then None else owned (threads s j)) = Some m \<Longrightarrow>
        (if k = i then None else owned (threads s k)) = Some m \<Longrightarrow> j = k" for j k m
      using d(5) [of j m k] by (auto split: if_splits)
    show "m \<in> live ?t \<Longrightarrow> s_instance ?t = Some m \<or> (\<exists>j. (if j = i then None else owned (threads s j)) = Some m)" for m
    proof -
      assume m: "m \<in> live ?t"
      then consider "s_instance s = Some m" | j where "owned (threads s j) = Some m" using d(6) [of m] by auto
      then show ?thesis
      proof cases
        case 2
        then have "j \<noteq> i" using mine m by auto
        with 2 show ?thesis by auto
      qed simp
    qed
    show "past_exchange (threads ?t j) \<Longrightarrow> s_instance ?t \<noteq> None" for j
      using d(7) [of j] d(7) [of i] i by (cases "j = i") auto
    show "threads ?t j = Got q \<Longrightarrow> q = s_instance ?t" for j q using d(8) by (cases "j = i") auto
  qed
qed

lemma singleton_ok_step: "singleton_ok s \<Longrightarrow> singleton_ok (get_instance i s)"
proof (cases "threads s i")
  case Capture
  assume "singleton_ok s"
  with Capture show ?thesis by (auto simp: get_instance_def intro!: singleton_ok_move split: option.split)
next
  case Make
  assume "singleton_ok s"
  from singleton_ok_make [OF this Make] Make show ?thesis by (simp add: get_instance_def)
next
  case (Exchange n)
  assume "singleton_ok s"
  with Exchange show ?thesis
    by (auto simp: get_instance_def intro!: singleton_ok_move singleton_ok_publish split: option.split)
next
  case (Discard n)
  assume "singleton_ok s"
  from singleton_ok_discard [OF this Discard] Discard show ?thesis by (simp add: get_instance_def)
next
  case Fetch
  assume "singleton_ok s"
  moreover from this have "s_instance s \<noteq> None" using singleton_okD(7) [of s i] Fetch by simp
  ultimately show ?thesis using Fetch by (auto simp: get_instance_def intro!: singleton_ok_move)
next
  case (Got r)
  assume "singleton_ok s"
  with Got show ?thesis by (simp add: get_instance_def)
qed

text \<open>Accesses of threads in any order, as a machine.\<close>

interpretation instances: machine "\<lambda>s. s = singleton_init" "\<lambda>s i. Some (get_instance i s)" singleton_ok
proof
  show "s = singleton_init \<Longrightarrow> singleton_ok s" for s using singleton_ok_init by simp
  show "singleton_ok s \<Longrightarrow> Some (get_instance i s) = Some t \<Longrightarrow> singleton_ok t" for s t :: singleton and i :: nat
    using singleton_ok_step by auto
qed

section \<open>Properties\<close>

text \<open>C33. However the accesses of any number of threads interleave, all calls of
  \<open>get_instance\<close> that have returned returned the same object, it is alive, and once no call is
  under way every other object that was made has been deleted again.\<close>

theorem one_instance:
  assumes "run (\<lambda>s i. Some (get_instance i s)) singleton_init accesses = Some s" and "threads s i = Got r"
  shows "\<exists>n. r = Some n \<and> n \<in> live s \<and> (\<forall>j q. threads s j = Got q \<longrightarrow> q = r) \<and>
    ((\<forall>j. threads s j = Capture \<or> (\<exists>q. threads s j = Got q)) \<longrightarrow> live s = {n})"
proof -
  have ok: "singleton_ok s" by (rule instances.run_inv [OF refl assms(1)])
  note d = singleton_okD [OF ok]
  have r: "r = s_instance s" using d(8) [OF assms(2)] .
  then obtain n where n: "s_instance s = Some n" using d(7) [of i] assms(2) by auto
  have "live s = {n}" if q: "\<forall>j. threads s j = Capture \<or> (\<exists>q. threads s j = Got q)"
  proof -
    have "owned (threads s j) = None" for j using q [rule_format, of j] by auto
    then have "m \<in> live s \<Longrightarrow> m = n" for m using d(6) [of m] n by simp
    then show ?thesis using d(2) [OF n] by blast
  qed
  moreover have "q = r" if "threads s j = Got q" for j q using d(8) [OF that] r by simp
  ultimately show ?thesis using r n d(2) [OF n] by blast
qed

lemma run_fold: "run (\<lambda>s i. Some (f i s)) s es = Some (fold f es s)"
  by (induction es arbitrary: s) simp_all

lemma example_instances:
  "threads (fold get_instance [0, 1, 0, 1, 1, 0, 1, 0, 1, 0, 0] singleton_init) 0 = Got (Some 1)"
  "threads (fold get_instance [0, 1, 0, 1, 1, 0, 1, 0, 1, 0, 0] singleton_init) 1 = Got (Some 1)"
  by code_simp+

theorem one_instance_witness:
  "1 \<in> live (fold get_instance [0, 1, 0, 1, 1, 0, 1, 0, 1, 0, 0] singleton_init)"
proof -
  obtain n where "Some 1 = Some n" "n \<in> live (fold get_instance [0, 1, 0, 1, 1, 0, 1, 0, 1, 0, 0] singleton_init)"
    using one_instance [OF run_fold example_instances(1)] by (elim exE conjE) (rule that)
  then show ?thesis by (simp only: option.inject)
qed

end
