(* ===== verification/Spec2Isabelle.thy ===== *)
theory Spec2Isabelle
  imports Udt_Handshake Udt_Checks Udt_States Udt_Flow Udt_Segments Udt_Engine Udt_Timer Udt_Nat Udt_Mtu Udt_Singleton
begin

text \<open>
  A verification of \<open>udt-boost\<close>: TCP over UDP in user space on \<open>boost::asio\<close>, as the 32-bit Windows
  release build runs it (\<open>size_t\<close> has 32 bits, logging is switched off; the checks of the debug build stand apart
  in \<open>Udt_Checks\<close>).

  \<^bold>\<open>The program.\<close> \<open>src/udt/udt_engine.cpp\<close> makes sockets and runs every request in one thread. A socket
  (\<open>udt_socket.cpp\<close>) owns a control block (\<open>udt_cb*.cpp\<close>, \<open>udt_sub.cpp\<close>, \<open>udt_timo.cpp\<close>, \<open>udt_usrreq.cpp\<close>),
  a send and a receive buffer (\<open>udt_buf.cpp\<close>) and lists of operations that wait. A datagram goes
  through \<open>udt_cb::input\<close>, which orders and acknowledges the data and calls back the socket; data of
  the user goes through \<open>consume_pending_data\<close> into the send buffer and out by \<open>udt_cb::output\<close>. Beside
  the connection stand helpers that use the same UDP socket: hole punching (\<open>udp_hp_clt.cpp\<close>), the
  public address (\<open>udp_pub_addr.cpp\<close>), the NAT check (\<open>udp_chknat.cpp\<close>), and the MTU prober (\<open>udt_mtu.cpp\<close>).

  \<^bold>\<open>How it is modelled.\<close> One record holds the fields of a class under their names; where a control
  block and its socket point to each other, one record extends the other. Every function of the
  source is a function on the record, with the source's guards and order; what the code does to
  the outside (datagrams, posted handlers, timers, cancelled operations) is a list of effects in
  the order it is done. Integers have their width (\<open>u8\<close>, \<open>u16\<close>, \<open>u32\<close>) or are integers with the wrap
  written out (\<open>to_i16\<close>, \<open>to_i32\<close>). A function has no result (\<open>None\<close>) where the C++ reads or writes
  outside an object, calls through NULL or throws. Each component is a machine: a step per event,
  where the events are the user's calls and the completions asio owes, in any order; \<open>run\<close> composes
  steps. Loops are structural, or terminate by a measure (\<open>skip_blanks\<close>), or are partial functions
  where they need not end (\<open>send_loop\<close>). \<open>out_loop\<close> has fuel: one call of \<open>output\<close> sends at most ten
  datagrams by the counter of the source itself.

  \<^bold>\<open>The theories.\<close>
  \<^item> \<open>Udt_Prelude\<close>: machine types, flags, byte order, the locale \<open>machine\<close> of states reached by events.
  \<^item> \<open>Udt_Defs\<close> (\<open>udt_defs.h\<close>, \<open>udt_error.h\<close>): sequence numbers, headers, packets, error codes.
  \<^item> \<open>Udt_Buf\<close> (\<open>udt_buf\<close>): both buffers; the locale \<open>byte_queue\<close>, which the receive buffer implements.
  \<^item> \<open>Udt_Option\<close> (\<open>udt_option\<close>): the SACK option composed, written and parsed.
  \<^item> \<open>Udt_State\<close> (\<open>udt_cb.h\<close>, \<open>udt_cb.cpp\<close>, \<open>udt_sub.cpp\<close>): the records, timers, windows.
  \<^item> \<open>Udt_Output\<close>, \<open>Udt_Input\<close> (\<open>udt_cb_output.cpp\<close>, \<open>udt_cb_input.cpp\<close>), \<open>Udt_Notify\<close> (callbacks of
    \<open>udt_socket.cpp\<close>), \<open>Udt_Conn\<close> (\<open>udt_timo.cpp\<close>, \<open>udt_usrreq.cpp\<close>), \<open>Udt_Socket\<close> (\<open>udt_socket.cpp\<close>): each
    operation with its proof that the invariant of a connection survives it.
  \<^item> \<open>Udt_Receive\<close>, \<open>Udt_Segments\<close>, \<open>Udt_Stream\<close> and \<open>Udt_Sender\<close>, \<open>Udt_Flow\<close>, \<open>Udt_States\<close>: what the
    receiving side, the reassembly queue, the sending side (the stream and \<open>output\<close>, then every
    event), the windows and the connection states promise.
  \<^item> \<open>Udt_Network\<close>: two sockets and the network between them; \<open>Udt_Handshake\<close>: how they come to be
    connected; \<open>Udt_Checks\<close>: the checks of the debug build on the buffers and the SACK option.
  \<^item> \<open>Udt_Tracker\<close>, \<open>Udt_Timer\<close> (\<open>tracker.h\<close>, \<open>timer.cpp\<close>): the locale \<open>guard\<close> of tickets that silence
    late completions, the locale \<open>std_map\<close>, the periodic timer.
  \<^item> \<open>Udt_Hole\<close>, \<open>Udt_Punch\<close> (\<open>udp_hp_clt\<close>); \<open>Udt_Text\<close>, \<open>Udt_Pub_Addr\<close> (\<open>udp_pub_addr\<close>); \<open>Udt_Nat\<close>
    (\<open>udp_chknat\<close>); \<open>Udt_Mtu\<close> (\<open>udt_mtu\<close>); \<open>Udt_Engine\<close> (\<open>udt_engine\<close>); \<open>Udt_Singleton\<close> (\<open>singleton.h\<close>).

  \<^bold>\<open>What is shown.\<close> End to end, from two established sockets that agree on the sequence numbers they
  start from, over a network that loses, repeats, delays and reorders datagrams, with users that
  send, receive and shut down: what a socket has delivered is a prefix of the bytes its peer has
  accepted, whole buffers in the order they were handed over; and when it knows the end of the
  stream, the peer's user has shut down and nothing is missing. A handshake leads from construction
  to where this starts. The checks of the debug build hold on the way. Below that: the
  sender emits only the bytes of its stream at their numbers, within both windows, and at most ten
  datagrams per call; the receiver delivers a prefix of the stream, once and in order, refuses
  nothing it advertised room for and reports only what it holds; the buffers count exactly; the
  timers exclude each other; the state machine follows its diagram and never goes back; a reset
  closes. Of the helpers: hole punching completes in one round that gets through, reports only
  peers that answered, gives up, and is silent after a cancel; answers of the servers are taken
  only from them and read back as written; the prober ends, and loses its result; the engine is
  the product of its sockets; the singleton is one under every interleaving.

  \<^bold>\<open>Parameters and restrictions.\<close> \<open>iv\<close> is the window computed from an uninitialised variable in
  \<open>output\<close>; \<open>fack0\<close>, \<open>seq0\<close>, \<open>seq1\<close> and \<open>garbage\<close> are fields no constructor sets: the theorems hold for all
  of them. \<open>tick_count\<close> is the clock. Address parsing (\<open>address_v4::from_string\<close>), resolvers, the
  results of \<open>send_to\<close>, \<open>open\<close> and \<open>bind\<close>, and the addresses of \<open>new\<close> are asio's, the system's or the
  library's and stay arguments. Theorems over \<open>proper_step\<close> ask of the user that a high-water mark
  is not set below the bytes already buffered and that memory handed in fits the address space.
  The end-to-end theorems speak of users who hand over fewer than \<open>2 ^ 32\<close> bytes in each direction,
  and fewer than \<open>2 ^ 31 - 4\<close> by the time they shut down: beyond half of the sequence space an old
  datagram's number cannot be told from a new one's. After the shutdown the user sends nothing more.

  \<^bold>\<open>Not modelled.\<close> Waiting for a blocking call of the engine (the results are recorded instead),
  \<open>win_event\<close>, \<open>ticker\<close> and \<open>get_local_endpoints_v4\<close> (system calls only), \<open>release_instance\<close> (called once,
  alone, at the end), logging, the log analyzer and the test
  programs. \<open>padding_4bytes\<close> has no caller.
\<close>

end
